(* ===== verification/Prelude.thy ===== *)
theory Prelude
  imports Main "HOL-Library.Finite_Map" "HOL-Library.State_Monad"
    "HOL-Library.List_Lexorder" "HOL-Library.Char_ord"
begin

text \<open>
  Shared vocabulary of the development: Go errors and panics as values, the parts of Go's
  standard library that the operator uses on strings, Go maps as finite maps, the
  nondeterministic order in which \<open>range\<close> visits a map, and the sequencing of calls
  that change the outside world (a state monad over that world).
\<close>

section \<open>Errors and panics\<close>

text \<open>
  A Go function that returns \<open>(T, error)\<close> is modelled with the result type
  \<open>'a result\<close>. \<open>GoError\<close> is a returned error, \<open>Panic\<close> a run-time panic:
  it unwinds through the \<open>if err != nil\<close> tests, so wrapping an error leaves it alone.
\<close>

datatype failure = GoError string | Panic string

type_synonym 'a result = "failure + 'a"

fun wrapError :: "string \<Rightarrow> failure \<Rightarrow> failure" where
  "wrapError prefix (GoError msg) = GoError (prefix @ msg)"
| "wrapError prefix (Panic msg) = Panic msg"

fun isPanic :: "'a result \<Rightarrow> bool" where
  "isPanic (Inl (Panic _)) = True"
| "isPanic _ = False"

section \<open>Sequencing\<close>

text \<open>
  Calls that touch the outside world (the Kubernetes API, the resolver, the service
  registry, the runtime's choice of a map order) are actions of the state monad over that
  world, \<open>('w, 'a) state\<close>. \<open>orReturn m f\<close> is the idiom
  \<open>x, err := m(); if err != nil { return err }; f(x)\<close>, and \<open>orWrap\<close> is the same with the
  error wrapped in a message.
\<close>

definition orWrap :: "string \<Rightarrow> ('w, 'a result) state \<Rightarrow> ('a \<Rightarrow> ('w, 'b result) state) \<Rightarrow> ('w, 'b result) state" where
  "orWrap prefix m f = do {
     r \<leftarrow> m;
     (case r of
        Inl e \<Rightarrow> State_Monad.return (Inl (wrapError prefix e))
      | Inr a \<Rightarrow> f a)
   }"

definition orReturn :: "('w, 'a result) state \<Rightarrow> ('a \<Rightarrow> ('w, 'b result) state) \<Rightarrow> ('w, 'b result) state" where
  "orReturn m f = do {
     r \<leftarrow> m;
     (case r of
        Inl e \<Rightarrow> State_Monad.return (Inl e)
      | Inr a \<Rightarrow> f a)
   }"

lemma run_orWrap [simp]:
  "run_state (orWrap p m f) w =
     (case run_state m w of
        (Inl e, w') \<Rightarrow> (Inl (wrapError p e), w')
      | (Inr a, w') \<Rightarrow> run_state (f a) w')"
  by (simp add: orWrap_def split: prod.splits sum.splits)

lemma run_orReturn [simp]:
  "run_state (orReturn m f) w =
     (case run_state m w of
        (Inl e, w') \<Rightarrow> (Inl e, w')
      | (Inr a, w') \<Rightarrow> run_state (f a) w')"
  by (simp add: orReturn_def split: prod.splits sum.splits)

text \<open>
  \<open>pred_state P m\<close> (of the library) says that every result of the action \<open>m\<close>
  satisfies \<open>P\<close>, from whatever world it starts: the postconditions of the development
  are stated with it, and the rules below propagate them through a sequence of calls.
\<close>

lemma pred_state_return_iff [simp]: "pred_state P (State_Monad.return a) \<longleftrightarrow> P a"
  by auto

lemma pred_state_bind:
  assumes "pred_state P m" and "\<And>a. P a \<Longrightarrow> pred_state Q (f a)"
  shows "pred_state Q (State_Monad.bind m f)"
proof (rule pred_stateI)
  fix b s s'
  assume run: "run_state (State_Monad.bind m f) s = (b, s')"
  obtain a t where a: "run_state m s = (a, t)" by fastforce
  with assms(1) have "P a" by (rule pred_stateD)
  then have "pred_state Q (f a)" by (rule assms(2))
  moreover from run a have "run_state (f a) t = (b, s')" by simp
  ultimately show "Q b" by (rule pred_stateD)
qed

lemma pred_state_bindI:
  assumes "\<And>a s s'. run_state m s = (a, s') \<Longrightarrow> pred_state Q (f a)"
  shows "pred_state Q (State_Monad.bind m f)"
  by (rule pred_state_bind [where P = "\<lambda>a. \<exists>s s'. run_state m s = (a, s')"]) (auto intro: assms)

lemma pred_state_orReturn:
  assumes "pred_state (\<lambda>r. case r of Inl e \<Rightarrow> Q (Inl e) | Inr a \<Rightarrow> P a) m"
    and "\<And>a. P a \<Longrightarrow> pred_state Q (f a)"
  shows "pred_state Q (orReturn m f)"
  unfolding orReturn_def using assms by (auto intro!: pred_state_bind [OF assms(1)] split: sum.splits)

lemma pred_state_True [simp]: "pred_state (\<lambda>_. True) m"
  by (rule pred_stateI) simp

lemma pred_state_weaken: "pred_state P m \<Longrightarrow> (\<And>a. P a \<Longrightarrow> Q a) \<Longrightarrow> pred_state Q m"
  by (rule pred_stateI) auto

lemma pred_state_traverse_list:
  assumes "\<And>x. x \<in> set xs \<Longrightarrow> pred_state (R x) (f x)"
  shows "pred_state (list_all2 R xs) (State_Monad.traverse_list f xs)"
  using assms
proof (induction xs)
  case Nil
  show ?case by simp
next
  case (Cons x xs)
  have "pred_state (R x) (f x)" using Cons.prems by simp
  moreover have "pred_state (list_all2 R xs) (State_Monad.traverse_list f xs)"
    using Cons.prems by (intro Cons.IH) simp
  ultimately show ?case
    by (auto intro!: pred_state_bind)
qed

section \<open>Strings\<close>

text \<open>
  Go strings are byte strings, as HOL's \<open>string\<close> is. \<open>sprintf_d\<close> is \<open>%d\<close> of package
  \<open>fmt\<close>; \<open>splitOn\<close>, \<open>lastIndex\<close> and \<open>toLower\<close> are \<open>strings.Split\<close>,
  \<open>strings.LastIndex\<close> (both for a separator of one byte) and \<open>strings.ToLower\<close> of package
  \<open>strings\<close>. \<open>toLower\<close> lowers ASCII only: the operator compares its result with
  the word auto, and no letter outside ASCII is lowered to one of that word.
\<close>

fun natToDec :: "nat \<Rightarrow> string" where
  "natToDec n =
     (if n < 10 then [''0123456789'' ! n]
      else natToDec (n div 10) @ [''0123456789'' ! (n mod 10)])"

declare natToDec.simps [simp del]

definition sprintf_d :: "int \<Rightarrow> string" where
  "sprintf_d i = (if i < 0 then ''-'' @ natToDec (nat (- i)) else natToDec (nat i))"

fun splitOn :: "char \<Rightarrow> string \<Rightarrow> string list" where
  "splitOn c [] = [[]]"
| "splitOn c (x # xs) =
     (if x = c then [] # splitOn c xs
      else (case splitOn c xs of [] \<Rightarrow> [[x]] | y # ys \<Rightarrow> (x # y) # ys))"

fun lastIndex :: "char \<Rightarrow> string \<Rightarrow> int" where
  "lastIndex c [] = -1"
| "lastIndex c (x # xs) =
     (let i = lastIndex c xs in if 0 \<le> i then i + 1 else if x = c then 0 else -1)"

definition toLowerChar :: "char \<Rightarrow> char" where
  "toLowerChar c =
     (if 65 \<le> (of_char c :: nat) \<and> (of_char c :: nat) \<le> 90
      then char_of ((of_char c :: nat) + 32) else c)"

definition toLower :: "string \<Rightarrow> string" where
  "toLower s = map toLowerChar s"

lemma digit_char_inject: "a < 10 \<Longrightarrow> b < 10 \<Longrightarrow> ''0123456789'' ! a = ''0123456789'' ! b \<Longrightarrow> a = (b::nat)"
  by (subst (asm) nth_eq_iff_index_eq) simp_all

lemma natToDec_nonempty [simp]: "natToDec n \<noteq> []" "[] \<noteq> natToDec n"
  by (subst natToDec.simps, simp)+

lemma natToDec_digits: "set (natToDec n) \<subseteq> set ''0123456789''"
proof (induction n rule: natToDec.induct)
  case (1 n)
  have "\<And>k::nat. k < 10 \<Longrightarrow> ''0123456789'' ! k \<in> set ''0123456789''"
    by (rule nth_mem) simp
  then show ?case
    using "1.IH" by (subst natToDec.simps) (auto simp del: nth_Cons_numeral)
qed

lemma natToDec_inject: "natToDec m = natToDec n \<Longrightarrow> m = n"
proof (induction m arbitrary: n rule: natToDec.induct)
  case (1 m)
  show ?case
  proof (cases "m < 10 \<or> n < 10")
    case True
    with "1.prems" show ?thesis
      by (simp add: natToDec.simps [of m] natToDec.simps [of n] digit_char_inject split: if_splits)
  next
    case False
    with "1.prems" have "natToDec (m div 10) = natToDec (n div 10)"
      and "''0123456789'' ! (m mod 10) = ''0123456789'' ! (n mod 10)"
      by (simp_all add: natToDec.simps [of m] natToDec.simps [of n])
    with False "1.IH" have "m div 10 = n div 10" and "m mod 10 = n mod 10"
      by (auto intro: digit_char_inject)
    then show ?thesis by (metis div_mult_mod_eq)
  qed
qed

lemma sprintf_d_inject: "sprintf_d i = sprintf_d j \<Longrightarrow> i = j"
proof -
  have nodash: "natToDec n \<noteq> ''-'' @ s" for n s
    using natToDec_digits [of n] by auto
  show "sprintf_d i = sprintf_d j \<Longrightarrow> i = j"
    using nodash nodash [symmetric]
    by (auto simp: sprintf_d_def dest!: natToDec_inject split: if_splits)
qed

lemma sprintf_d_no_colon: "CHR '':'' \<notin> set (sprintf_d i)"
  using natToDec_digits [of "nat i"] natToDec_digits [of "nat (- i)"]
  by (auto simp: sprintf_d_def)

lemma append_sep_inject:
  assumes "a @ c # x = b @ c # y" and "c \<notin> set x" and "c \<notin> set y"
  shows "a = b \<and> x = y"
  using assms
proof (induction a arbitrary: b)
  case Nil
  then show ?case by (cases b) auto
next
  case (Cons d a)
  then show ?case by (cases b) auto
qed

section \<open>Go maps\<close>

text \<open>
  A Go map with string keys is a finite map; \<open>mapHas m k\<close> is the second result of \<open>m[k]\<close>. \<open>goRange ord m\<close> is the list of the pairs
  that a \<open>range\<close> loop over \<open>m\<close> visits: the order is the runtime's, an action \<open>ord\<close>
  of the world that is asked anew by every loop. \<open>visitsOnce\<close> states what the language
  promises of it: every key is visited exactly once.
\<close>

type_synonym 'v gomap = "(string, 'v) fmap"

definition mapHas :: "'v gomap \<Rightarrow> string \<Rightarrow> bool" where
  "mapHas m k = (case fmlookup m k of None \<Rightarrow> False | Some _ \<Rightarrow> True)"

lemma mapHas_iff: "mapHas m k \<longleftrightarrow> k |\<in>| fmdom m"
  by (simp add: mapHas_def fmlookup_dom_iff split: option.splits)

type_synonym 'w map_order = "string fset \<Rightarrow> ('w, string list) state"

definition visitsOnce :: "'w map_order \<Rightarrow> bool" where
  "visitsOnce ord \<longleftrightarrow> (\<forall>S. pred_state (\<lambda>ks. distinct ks \<and> set ks = fset S) (ord S))"

definition pairsOf :: "'v gomap \<Rightarrow> string list \<Rightarrow> (string \<times> 'v) list" where
  "pairsOf m ks = List.map_filter (\<lambda>k. map_option (Pair k) (fmlookup m k)) ks"

definition goRange :: "'w map_order \<Rightarrow> 'v gomap \<Rightarrow> ('w, (string \<times> 'v) list) state" where
  "goRange ord m = do { ks \<leftarrow> ord (fmdom m); State_Monad.return (pairsOf m ks) }"

text \<open>Two concrete orders, used by the witnesses: ascending and descending keys.\<close>

definition sortedOrder :: "'w map_order" where
  "sortedOrder S = State_Monad.return (sorted_list_of_fset S)"

definition reverseOrder :: "'w map_order" where
  "reverseOrder S = State_Monad.return (rev (sorted_list_of_fset S))"

lemma visitsOnce_sortedOrder: "visitsOnce sortedOrder"
  by (simp add: visitsOnce_def sortedOrder_def sorted_list_of_fset.rep_eq)

lemma visitsOnce_reverseOrder: "visitsOnce reverseOrder"
  by (simp add: visitsOnce_def reverseOrder_def sorted_list_of_fset.rep_eq)

lemma set_pairsOf: "set (pairsOf m ks) = {(k, v). k \<in> set ks \<and> fmlookup m k = Some v}"
  by (induction ks) (auto simp: pairsOf_def split: option.splits)

lemma map_fst_pairsOf: "set ks \<subseteq> fset (fmdom m) \<Longrightarrow> map fst (pairsOf m ks) = ks"
  by (induction ks) (auto simp: pairsOf_def fmlookup_dom_iff)

definition visitOf :: "'v gomap \<Rightarrow> (string \<times> 'v) list \<Rightarrow> bool" where
  "visitOf m kvs \<longleftrightarrow> distinct (map fst kvs) \<and> set kvs = {(k, v). fmlookup m k = Some v}"

lemma goRange_visits: "visitsOnce ord \<Longrightarrow> pred_state (visitOf m) (goRange ord m)"
  unfolding goRange_def visitsOnce_def
  by (rule pred_state_bind [where P = "\<lambda>ks. distinct ks \<and> set ks = fset (fmdom m)"])
    (auto simp: visitOf_def map_fst_pairsOf set_pairsOf fmlookup_dom_iff)

lemma visitOf_keys: "visitOf m kvs \<Longrightarrow> fst ` set kvs = fset (fmdom m)"
  by (force simp: visitOf_def fmlookup_dom_iff image_iff)

lemma visitOf_distinct: "visitOf m kvs \<Longrightarrow> distinct (map fst kvs)"
  by (simp add: visitOf_def)

lemma visitOf_empty_iff: "visitOf m kvs \<Longrightarrow> kvs = [] \<longleftrightarrow> m = fmempty"
  by (auto simp: visitOf_def intro!: fmap_ext)

section \<open>Decimal and separator facts used by the endpoint names\<close>

lemma addr_port_inject:
  assumes "ip @ '':'' @ sprintf_d p = ip' @ '':'' @ sprintf_d q"
  shows "ip = ip' \<and> p = q"
proof -
  from assms have "ip @ CHR '':'' # sprintf_d p = ip' @ CHR '':'' # sprintf_d q" by simp
  then have "ip = ip' \<and> sprintf_d p = sprintf_d q"
    by (rule append_sep_inject) (rule sprintf_d_no_colon)+
  then show ?thesis by (auto dest: sprintf_d_inject)
qed

end
