(* ===== verification/Settings.thy ===== *)
theory Settings
  imports Prelude
begin

text \<open>
  The settings of the operator (package \<open>internal/types\<close>): one record per Go struct,
  in the order of the file. A Go pointer field is an \<open>option\<close>, \<open>None\<close> for nil. The
  etcd endpoints are a slice of pointers, so each element may be nil too.
\<close>

section \<open>Service registries\<close>

record serviceDirectorySettings =
  gsd_DefaultRegion :: string
  gsd_ProjectID :: string

text \<open>
  \<open>EtcdAuthenticationType\<close> is a string type: a YAML file may hold any string, the three
  constants below are the ones the operator knows.
\<close>

type_synonym etcdAuthenticationType = string

definition EtcdAuthWithNothing :: etcdAuthenticationType where
  "EtcdAuthWithNothing = ''''"

definition EtcdAuthWithUsernamePassw :: etcdAuthenticationType where
  "EtcdAuthWithUsernamePassw = ''WithUsernameAndPassword''"

definition EtcdAuthWithTLS :: etcdAuthenticationType where
  "EtcdAuthWithTLS = ''WithTLS''"

lemmas etcd_auth_defs = EtcdAuthWithNothing_def EtcdAuthWithUsernamePassw_def EtcdAuthWithTLS_def

record etcdEndpoint =
  ee_Host :: string
  ee_Port :: "int option"

record etcdSettings =
  es_Authentication :: etcdAuthenticationType
  es_Prefix :: "string option"
  es_Endpoints :: "etcdEndpoint option list"

record cloudMapSettings =
  acm_DefaultRegion :: string

record serviceRegistrySettings =
  srs_ServiceDirectorySettings :: "serviceDirectorySettings option"
  srs_EtcdSettings :: "etcdSettings option"
  srs_CloudMapSettings :: "cloudMapSettings option"

section \<open>The settings\<close>

record serviceSettings =
  ss_Annotations :: "string list"

record cloudMetadata =
  cm_Network :: "string option"
  cm_SubNetwork :: "string option"

record settings =
  st_WatchNamespacesByDefault :: bool
  st_Service :: serviceSettings
  st_ServiceRegistrySettings :: "serviceRegistrySettings option"
  st_CloudMetadata :: "cloudMetadata option"

end
