(* ===== verification/Settings_Validation.thy ===== *)
theory Settings_Validation
  imports Settings
begin

text \<open>
  Validation of the settings (package \<open>internal/utils\<close>): \<open>ParseAndValidateSettings\<close>
  and \<open>parseEtcdSettings\<close>, then what they accept, what they return and when they panic.
\<close>

section \<open>Model\<close>

text \<open>
  The loop over the etcd endpoints. \<open>dups\<close> maps a host to the port it was last kept with,
  \<open>acc\<close> is \<open>finalSettings.Endpoints\<close>. A nil element is dereferenced by
  \<open>endp.Host\<close>, which panics.
\<close>

definition ianaEtcdPort :: int where
  "ianaEtcdPort = 2379"

fun parseEtcdEndpoints ::
  "int gomap \<Rightarrow> etcdEndpoint option list \<Rightarrow> etcdEndpoint option list \<Rightarrow> etcdEndpoint option list result" where
  "parseEtcdEndpoints dups acc [] = Inr acc"
| "parseEtcdEndpoints dups acc (None # rest) = Inl (Panic ''nil pointer dereference: endp.Host'')"
| "parseEtcdEndpoints dups acc (Some endp # rest) =
     (if ee_Host endp = '''' then parseEtcdEndpoints dups acc rest
      else
        let port = (case ee_Port endp of None \<Rightarrow> ianaEtcdPort | Some p \<Rightarrow> p)
        in if fmlookup dups (ee_Host endp) = Some port then parseEtcdEndpoints dups acc rest
           else parseEtcdEndpoints (fmupd (ee_Host endp) port dups)
                  (acc @ [Some \<lparr>ee_Host = ee_Host endp, ee_Port = Some port\<rparr>]) rest)"

definition parseEtcdSettings :: "etcdSettings \<Rightarrow> etcdSettings result" where
  "parseEtcdSettings s =
     (if es_Endpoints s = [] then Inl (GoError ''no etcd endpoints provided'')
      else if es_Authentication s \<noteq> EtcdAuthWithNothing
              \<and> es_Authentication s \<noteq> EtcdAuthWithUsernamePassw
              \<and> es_Authentication s \<noteq> EtcdAuthWithTLS
           then Inl (GoError ''unrecognized authentication method for etcd'')
      else if es_Authentication s = EtcdAuthWithTLS
           then Inl (GoError ''etcd authentication with TLS is not supported yet'')
      else (case parseEtcdEndpoints fmempty [] (es_Endpoints s) of
              Inl e \<Rightarrow> Inl e
            | Inr endps \<Rightarrow> Inr \<lparr>es_Authentication = es_Authentication s,
                               es_Prefix = es_Prefix s,
                               es_Endpoints = endps\<rparr>))"

text \<open>The cloud metadata that is kept: empty names are dropped, and so is an empty struct.\<close>

definition keepName :: "string option \<Rightarrow> string option" where
  "keepName p = (case p of None \<Rightarrow> None | Some s \<Rightarrow> if s = '''' then None else Some s)"

definition parseCloudMetadata :: "cloudMetadata option \<Rightarrow> cloudMetadata option" where
  "parseCloudMetadata cl =
     (case cl of
        None \<Rightarrow> None
      | Some clCfg \<Rightarrow>
          let finalCfg = \<lparr>cm_Network = keepName (cm_Network clCfg),
                          cm_SubNetwork = keepName (cm_SubNetwork clCfg)\<rparr>
          in if cm_Network finalCfg \<noteq> None \<or> cm_SubNetwork finalCfg \<noteq> None
             then Some finalCfg else None)"

definition countRegistries :: "serviceRegistrySettings \<Rightarrow> nat" where
  "countRegistries s =
     (if srs_EtcdSettings s \<noteq> None then 1 else 0)
     + (if srs_ServiceDirectorySettings s \<noteq> None then 1 else 0)
     + (if srs_CloudMapSettings s \<noteq> None then 1 else 0)"

definition ParseAndValidateSettings :: "settings option \<Rightarrow> settings result" where
  "ParseAndValidateSettings arg =
     (case arg of
        None \<Rightarrow> Inl (GoError ''no settings provided'')
      | Some s \<Rightarrow>
          let finalSettings = \<lparr>st_WatchNamespacesByDefault = st_WatchNamespacesByDefault s,
                               st_Service = st_Service s,
                               st_ServiceRegistrySettings = None,
                               st_CloudMetadata = parseCloudMetadata (st_CloudMetadata s)\<rparr>
          in (case st_ServiceRegistrySettings s of
                None \<Rightarrow> Inl (GoError ''no service registry provided'')
              | Some reg \<Rightarrow>
                  let srs = countRegistries reg;
                      finalReg = \<lparr>srs_ServiceDirectorySettings = None, srs_EtcdSettings = None,
                                  srs_CloudMapSettings = None\<rparr>
                  in if srs = 0 then Inl (GoError ''no service registry provided'')
                     else if 1 < srs
                     then Inl (GoError ''UNSUPPORTED: multiple service registries have been provided'')
                     else (case srs_EtcdSettings reg of
                             Some etcd \<Rightarrow>
                               (case parseEtcdSettings etcd of
                                  Inl e \<Rightarrow> Inl e
                                | Inr parsed \<Rightarrow>
                                    Inr (finalSettings\<lparr>st_ServiceRegistrySettings :=
                                           Some (finalReg\<lparr>srs_EtcdSettings := Some parsed\<rparr>)\<rparr>))
                           | None \<Rightarrow>
                               Inr (finalSettings\<lparr>st_ServiceRegistrySettings :=
                                 Some (finalReg\<lparr>srs_ServiceDirectorySettings := srs_ServiceDirectorySettings reg,
                                                srs_CloudMapSettings := srs_CloudMapSettings reg\<rparr>)\<rparr>))))"

section \<open>The endpoint loop\<close>

text \<open>
  What an endpoint asks for: its host and its port, with the port assigned to etcd by
  IANA for none. \<open>requested\<close> lists the pairs with a host, in order; \<open>portsOf h\<close> the ports
  asked for one host.
\<close>

definition endpointPair :: "etcdEndpoint \<Rightarrow> string \<times> int" where
  "endpointPair e = (ee_Host e, case ee_Port e of None \<Rightarrow> ianaEtcdPort | Some p \<Rightarrow> p)"

definition requested :: "etcdEndpoint option list \<Rightarrow> (string \<times> int) list" where
  "requested es = filter (\<lambda>(h, p). h \<noteq> '''') (map endpointPair (List.map_filter id es))"

definition portsOf :: "string \<Rightarrow> (string \<times> int) list \<Rightarrow> int list" where
  "portsOf h ps = map snd (filter (\<lambda>(h', p). h' = h) ps)"

definition goodEndpoint :: "etcdEndpoint option \<Rightarrow> bool" where
  "goodEndpoint e \<longleftrightarrow> (\<exists>h p. e = Some \<lparr>ee_Host = h, ee_Port = Some p\<rparr> \<and> h \<noteq> '''')"

lemma requested_simps [simp]:
  "requested [] = []"
  "requested (None # es) = requested es"
  "requested (Some e # es) =
     (if ee_Host e = '''' then requested es else endpointPair e # requested es)"
  "requested (es @ es') = requested es @ requested es'"
  by (simp_all add: requested_def endpointPair_def List.map_filter_def)

lemma portsOf_simps [simp]:
  "portsOf h [] = []"
  "portsOf h ((h', p) # ps) = (if h' = h then p # portsOf h ps else portsOf h ps)"
  "portsOf h (ps @ qs) = portsOf h ps @ portsOf h qs"
  by (simp_all add: portsOf_def)

text \<open>
  The ports of one host that remain to be kept, given the one it was kept with before:
  repetitions next to each other are dropped.
\<close>

definition keptAfter :: "int option \<Rightarrow> int list \<Rightarrow> int list" where
  "keptAfter q ps = (case q of None \<Rightarrow> remdups_adj ps | Some p \<Rightarrow> tl (remdups_adj (p # ps)))"

lemma remdups_adj_Cons_tl: "remdups_adj (p # ps) = p # tl (remdups_adj (p # ps))"
  by (induction ps) (auto split: if_splits)

lemma keptAfter_simps [simp]:
  "keptAfter q [] = []"
  "keptAfter None (p # ps) = p # keptAfter (Some p) ps"
  "keptAfter (Some p') (p # ps) = (if p = p' then keptAfter (Some p') ps else p # keptAfter (Some p) ps)"
  by (auto simp: keptAfter_def intro: remdups_adj_Cons_tl split: option.splits)

lemma length_keptAfter: "length (keptAfter q ps) \<le> length ps"
proof (induction ps arbitrary: q)
  case (Cons p ps)
  then show ?case by (cases q) (auto intro: le_SucI)
qed simp

lemma parseEtcdEndpoints_panics:
  "parseEtcdEndpoints dups acc es = Inl e \<Longrightarrow> None \<in> set es \<and> (\<exists>msg. e = Panic msg)"
  by (induction dups acc es rule: parseEtcdEndpoints.induct) (auto simp: Let_def split: if_splits)

lemma parseEtcdEndpoints_returns: "parseEtcdEndpoints dups acc es = Inr out \<Longrightarrow> None \<notin> set es"
  by (induction dups acc es rule: parseEtcdEndpoints.induct) (auto simp: Let_def split: if_splits)

lemma parseEtcdEndpoints_Inr:
  assumes "parseEtcdEndpoints dups acc es = Inr out"
  shows "\<exists>new. out = acc @ new \<and> list_all goodEndpoint new
    \<and> (\<forall>h. portsOf h (requested new) = keptAfter (fmlookup dups h) (portsOf h (requested es)))"
  using assms
proof (induction dups acc es rule: parseEtcdEndpoints.induct)
  case (3 dups acc endp rest)
  define p where "p = snd (endpointPair endp)"
  have pair: "endpointPair endp = (ee_Host endp, p)"
    by (simp add: p_def endpointPair_def)
  have port: "(case ee_Port endp of None \<Rightarrow> ianaEtcdPort | Some p \<Rightarrow> p) = p"
    by (simp add: p_def endpointPair_def)
  let ?kept = "Some \<lparr>ee_Host = ee_Host endp, ee_Port = Some p\<rparr>"
  consider "ee_Host endp = ''''" | "ee_Host endp \<noteq> ''''" "fmlookup dups (ee_Host endp) = Some p"
    | (new) "ee_Host endp \<noteq> ''''" "fmlookup dups (ee_Host endp) \<noteq> Some p"
    by blast
  then show ?case
  proof cases
    case new
    with 3 obtain new' where out: "out = (acc @ [?kept]) @ new'" and good: "list_all goodEndpoint new'"
      and ports: "\<And>h. portsOf h (requested new') =
        keptAfter (fmlookup (fmupd (ee_Host endp) p dups) h) (portsOf h (requested rest))"
      by (auto simp: Let_def port)
    have "portsOf h (requested (?kept # new')) =
        keptAfter (fmlookup dups h) (portsOf h (requested (Some endp # rest)))" for h
      using new ports by (cases "fmlookup dups h") (auto simp: pair port endpointPair_def)
    moreover have "list_all goodEndpoint (?kept # new')"
      using good new by (simp add: goodEndpoint_def)
    ultimately show ?thesis using out by (intro exI [where x = "?kept # new'"]) simp
  qed (use 3 in \<open>auto simp: Let_def port pair\<close>)
qed simp_all

text \<open>A list in which no host repeats a port in a row passes unchanged.\<close>

lemma parseEtcdEndpoints_fixed:
  assumes "list_all goodEndpoint es"
    and "\<forall>h. keptAfter (fmlookup dups h) (portsOf h (requested es)) = portsOf h (requested es)"
  shows "parseEtcdEndpoints dups acc es = Inr (acc @ es)"
  using assms
proof (induction es arbitrary: dups acc)
  case (Cons e es)
  then obtain h p where e: "e = Some \<lparr>ee_Host = h, ee_Port = Some p\<rparr>" and h: "h \<noteq> ''''"
    by (auto simp: goodEndpoint_def)
  have fixed: "keptAfter (fmlookup dups h') (portsOf h' ((h, p) # requested es)) =
      portsOf h' ((h, p) # requested es)" for h'
    using Cons.prems(2) e h by (simp add: endpointPair_def)
  have fresh: "fmlookup dups h \<noteq> Some p"
  proof
    assume "fmlookup dups h = Some p"
    with fixed [of h] have "keptAfter (Some p) (portsOf h (requested es)) = p # portsOf h (requested es)"
      by simp
    with length_keptAfter [of "Some p" "portsOf h (requested es)"] show False by simp
  qed
  have "keptAfter (fmlookup (fmupd h p dups) h') (portsOf h' (requested es)) =
      portsOf h' (requested es)" for h'
    using fixed [of h'] fresh by (cases "fmlookup dups h") auto
  with fresh show ?case
    using Cons.IH [of "fmupd h p dups" "acc @ [e]"] Cons.prems(1) e h by simp
qed simp

section \<open>Contracts of the validators\<close>

text \<open>
  The contract of a validator: on an admissible input it either fails or returns a value in
  normal form, and it returns a value in normal form as it is. Validating again what was
  validated then changes nothing, which is what \<open>run\<close> relies on when it parses settings in
  stages (first the whole file, then the part of the chosen registry).
\<close>

locale validator =
  fixes validate :: "'a \<Rightarrow> 'a result"
    and admissible :: "'a \<Rightarrow> bool"
    and normal :: "'a \<Rightarrow> bool"
  assumes sound: "admissible s \<Longrightarrow> validate s = Inr s' \<Longrightarrow> normal s'"
    and fixed: "normal s \<Longrightarrow> validate s = Inr s"
begin

lemma idempotent: "admissible s \<Longrightarrow> validate s = Inr s' \<Longrightarrow> validate s' = Inr s'"
  by (rule fixed) (rule sound)

lemma image_normal: "(\<And>s. normal s \<Longrightarrow> admissible s) \<Longrightarrow> (\<exists>s. admissible s \<and> validate s = Inr s') \<longleftrightarrow> normal s'"
  using sound fixed by blast

end

definition etcdAuthSupported :: "etcdSettings \<Rightarrow> bool" where
  "etcdAuthSupported s \<longleftrightarrow>
     es_Authentication s = EtcdAuthWithNothing \<or> es_Authentication s = EtcdAuthWithUsernamePassw"

definition etcdNormal :: "etcdSettings \<Rightarrow> bool" where
  "etcdNormal s \<longleftrightarrow>
     es_Endpoints s \<noteq> [] \<and> etcdAuthSupported s \<and> list_all goodEndpoint (es_Endpoints s)
     \<and> (\<forall>h. distinct_adj (portsOf h (requested (es_Endpoints s))))"

definition etcdNamesHost :: "etcdSettings \<Rightarrow> bool" where
  "etcdNamesHost s \<longleftrightarrow> requested (es_Endpoints s) \<noteq> []"

lemma etcd_auth_distinct [simp]:
  "EtcdAuthWithNothing \<noteq> EtcdAuthWithTLS" "EtcdAuthWithUsernamePassw \<noteq> EtcdAuthWithTLS"
  "EtcdAuthWithTLS \<noteq> EtcdAuthWithNothing" "EtcdAuthWithTLS \<noteq> EtcdAuthWithUsernamePassw"
  by (simp_all add: etcd_auth_defs)

lemma parseEtcdSettings_Inr_iff:
  "parseEtcdSettings s = Inr s' \<longleftrightarrow>
     es_Endpoints s \<noteq> [] \<and> etcdAuthSupported s
     \<and> (\<exists>endps. parseEtcdEndpoints fmempty [] (es_Endpoints s) = Inr endps
          \<and> s' = s\<lparr>es_Endpoints := endps\<rparr>)"
  by (auto simp: parseEtcdSettings_def etcdAuthSupported_def split: sum.splits)

lemma parseEtcdSettings_endpoints:
  assumes "parseEtcdSettings s = Inr s'"
  shows "list_all goodEndpoint (es_Endpoints s')"
    and "portsOf h (requested (es_Endpoints s')) = remdups_adj (portsOf h (requested (es_Endpoints s)))"
  using assms
  by (auto simp: parseEtcdSettings_Inr_iff keptAfter_def dest!: parseEtcdEndpoints_Inr)

lemma good_endpoints_requested: "list_all goodEndpoint es \<Longrightarrow> requested es = [] \<longleftrightarrow> es = []"
  by (cases es) (auto simp: goodEndpoint_def)

lemma portsOf_Nil_all: "(\<forall>h. portsOf h ps = []) \<longleftrightarrow> ps = []"
  by (cases ps) auto

lemma parseEtcdSettings_empty_iff:
  assumes "parseEtcdSettings s = Inr s'"
  shows "es_Endpoints s' = [] \<longleftrightarrow> \<not> etcdNamesHost s"
proof -
  have "requested (es_Endpoints s') = [] \<longleftrightarrow> requested (es_Endpoints s) = []"
    using parseEtcdSettings_endpoints(2) [OF assms] portsOf_Nil_all
    by (metis remdups_adj_Nil_iff)
  with good_endpoints_requested [OF parseEtcdSettings_endpoints(1) [OF assms]] show ?thesis
    by (simp add: etcdNamesHost_def)
qed

interpretation etcdValidator: validator parseEtcdSettings etcdNamesHost etcdNormal
proof unfold_locales
  fix s s'
  assume "etcdNamesHost s" and p: "parseEtcdSettings s = Inr s'"
  then have "es_Endpoints s' \<noteq> []" by (simp add: parseEtcdSettings_empty_iff)
  with p parseEtcdSettings_endpoints [OF p] show "etcdNormal s'"
    by (auto simp: etcdNormal_def etcdAuthSupported_def parseEtcdSettings_Inr_iff)
next
  fix s
  assume n: "etcdNormal s"
  then have "parseEtcdEndpoints fmempty [] (es_Endpoints s) = Inr ([] @ es_Endpoints s)"
    by (intro parseEtcdEndpoints_fixed) (auto simp: etcdNormal_def keptAfter_def distinct_adj_altdef)
  with n show "parseEtcdSettings s = Inr s"
    by (auto simp: etcdNormal_def parseEtcdSettings_Inr_iff)
qed

lemma parseEtcdSettings_Inl:
  "parseEtcdSettings s = Inl e \<Longrightarrow>
     es_Endpoints s = [] \<or> \<not> etcdAuthSupported s \<or> None \<in> set (es_Endpoints s)"
  by (auto simp: parseEtcdSettings_def etcdAuthSupported_def split: sum.splits if_splits
      dest: parseEtcdEndpoints_panics)

text \<open>The normal form of the whole settings: one registry, in its own normal form.\<close>

definition cloudNormal :: "cloudMetadata option \<Rightarrow> bool" where
  "cloudNormal cl \<longleftrightarrow>
     (case cl of None \<Rightarrow> True
      | Some c \<Rightarrow> cm_Network c \<noteq> Some '''' \<and> cm_SubNetwork c \<noteq> Some ''''
                  \<and> (cm_Network c \<noteq> None \<or> cm_SubNetwork c \<noteq> None))"

definition settingsNormal :: "settings \<Rightarrow> bool" where
  "settingsNormal s \<longleftrightarrow>
     cloudNormal (st_CloudMetadata s)
     \<and> (\<exists>reg. st_ServiceRegistrySettings s = Some reg \<and> countRegistries reg = 1
          \<and> (\<forall>etcd. srs_EtcdSettings reg = Some etcd \<longrightarrow> etcdNormal etcd))"

definition settingsNameHost :: "settings \<Rightarrow> bool" where
  "settingsNameHost s \<longleftrightarrow>
     (\<forall>reg etcd. st_ServiceRegistrySettings s = Some reg \<longrightarrow> srs_EtcdSettings reg = Some etcd \<longrightarrow> etcdNamesHost etcd)"

lemma cloudNormal_parse: "cloudNormal (parseCloudMetadata cl)"
  by (auto simp: cloudNormal_def parseCloudMetadata_def keepName_def Let_def split: option.splits if_splits)

lemma parseCloudMetadata_fixed: "cloudNormal cl \<Longrightarrow> parseCloudMetadata cl = cl"
  by (auto simp: cloudNormal_def parseCloudMetadata_def keepName_def Let_def split: option.splits if_splits)

lemma countRegistries_one:
  "countRegistries reg = Suc 0 \<Longrightarrow> srs_EtcdSettings reg = Some e \<Longrightarrow>
     srs_ServiceDirectorySettings reg = None \<and> srs_CloudMapSettings reg = None"
  by (auto simp: countRegistries_def split: if_splits)

lemma countRegistries_select [simp]:
  "countRegistries \<lparr>srs_ServiceDirectorySettings = sd, srs_EtcdSettings = Some e, srs_CloudMapSettings = cm\<rparr> = Suc 0
     \<longleftrightarrow> sd = None \<and> cm = None"
  by (simp add: countRegistries_def)

lemma ParseAndValidateSettings_Inr_iff:
  "ParseAndValidateSettings (Some s) = Inr s' \<longleftrightarrow>
     (\<exists>reg. st_ServiceRegistrySettings s = Some reg \<and> countRegistries reg = 1
        \<and> (case srs_EtcdSettings reg of
             None \<Rightarrow> s' = s\<lparr>st_CloudMetadata := parseCloudMetadata (st_CloudMetadata s)\<rparr>
           | Some etcd \<Rightarrow> \<exists>etcd'. parseEtcdSettings etcd = Inr etcd'
               \<and> s' = s\<lparr>st_CloudMetadata := parseCloudMetadata (st_CloudMetadata s),
                       st_ServiceRegistrySettings := Some (reg\<lparr>srs_EtcdSettings := Some etcd'\<rparr>)\<rparr>))"
  (is "?L \<longleftrightarrow> ?R")
proof (cases "st_ServiceRegistrySettings s")
  case None
  then show ?thesis by (simp add: ParseAndValidateSettings_def)
next
  case (Some reg)
  consider "countRegistries reg = 0" | "1 < countRegistries reg"
    | (one) "countRegistries reg = Suc 0" by linarith
  then show ?thesis
  proof cases
    case one
    then show ?thesis using Some countRegistries_one [OF one]
      by (cases s; cases reg)
        (auto simp: ParseAndValidateSettings_def Let_def split: option.splits sum.splits)
  qed (use Some in \<open>auto simp: ParseAndValidateSettings_def Let_def\<close>)
qed

interpretation settingsValidator:
  validator "\<lambda>s. ParseAndValidateSettings (Some s)" settingsNameHost settingsNormal
proof unfold_locales
  fix s s'
  assume host: "settingsNameHost s" and p: "ParseAndValidateSettings (Some s) = Inr s'"
  then obtain reg where reg: "st_ServiceRegistrySettings s = Some reg" "countRegistries reg = 1"
    by (auto simp: ParseAndValidateSettings_Inr_iff)
  show "settingsNormal s'"
  proof (cases "srs_EtcdSettings reg")
    case None
    with p reg show ?thesis
      by (auto simp: ParseAndValidateSettings_Inr_iff settingsNormal_def cloudNormal_parse)
  next
    case (Some etcd)
    with p reg obtain etcd' where e: "parseEtcdSettings etcd = Inr etcd'"
      and s': "s' = s\<lparr>st_CloudMetadata := parseCloudMetadata (st_CloudMetadata s),
        st_ServiceRegistrySettings := Some (reg\<lparr>srs_EtcdSettings := Some etcd'\<rparr>)\<rparr>"
      by (auto simp: ParseAndValidateSettings_Inr_iff)
    from host reg Some have "etcdNamesHost etcd" by (simp add: settingsNameHost_def)
    then have "etcdNormal etcd'" using e by (rule etcdValidator.sound)
    with s' reg Some show ?thesis
      by (auto simp: settingsNormal_def cloudNormal_parse countRegistries_def)
  qed
next
  fix s
  assume n: "settingsNormal s"
  then obtain reg where reg: "st_ServiceRegistrySettings s = Some reg" "countRegistries reg = 1"
    and etcd: "\<And>e. srs_EtcdSettings reg = Some e \<Longrightarrow> etcdNormal e"
    and cl: "parseCloudMetadata (st_CloudMetadata s) = st_CloudMetadata s"
    by (auto simp: settingsNormal_def parseCloudMetadata_fixed)
  show "ParseAndValidateSettings (Some s) = Inr s"
  proof (cases "srs_EtcdSettings reg")
    case None
    with reg cl show ?thesis by (simp add: ParseAndValidateSettings_Inr_iff)
  next
    case (Some e)
    then have "parseEtcdSettings e = Inr e" by (intro etcdValidator.fixed etcd)
    with Some reg cl show ?thesis
      by (cases s; cases reg) (auto simp: ParseAndValidateSettings_Inr_iff)
  qed
qed

section \<open>Properties\<close>

text \<open>
  C22. The validation accepts the settings exactly when they name one service registry and,
  if it is etcd, list at least one endpoint and no null endpoint, and ask for no
  authentication or for user name and password.
\<close>

theorem settings_accepted_iff:
  "(\<exists>s'. ParseAndValidateSettings (Some s) = Inr s') \<longleftrightarrow>
     (\<exists>reg. st_ServiceRegistrySettings s = Some reg \<and> countRegistries reg = 1
        \<and> (\<forall>etcd. srs_EtcdSettings reg = Some etcd \<longrightarrow>
             es_Endpoints etcd \<noteq> [] \<and> etcdAuthSupported etcd \<and> None \<notin> set (es_Endpoints etcd)))"
proof -
  have etcd: "(\<exists>etcd'. parseEtcdSettings etcd = Inr etcd') \<longleftrightarrow>
      es_Endpoints etcd \<noteq> [] \<and> etcdAuthSupported etcd \<and> None \<notin> set (es_Endpoints etcd)" for etcd
    using parseEtcdSettings_Inl [of etcd] parseEtcdEndpoints_returns [of fmempty "[]" "es_Endpoints etcd"]
    by (cases "parseEtcdSettings etcd") (auto simp: parseEtcdSettings_Inr_iff)
  show ?thesis
  proof (cases "st_ServiceRegistrySettings s")
    case (Some reg)
    then show ?thesis using etcd
      by (cases "srs_EtcdSettings reg") (auto simp: ParseAndValidateSettings_Inr_iff)
  qed (simp add: ParseAndValidateSettings_Inr_iff)
qed

definition exampleEtcd :: etcdSettings where
  "exampleEtcd = \<lparr>es_Authentication = EtcdAuthWithUsernamePassw, es_Prefix = Some ''/pre'',
     es_Endpoints = [Some \<lparr>ee_Host = ''h1'', ee_Port = None\<rparr>, Some \<lparr>ee_Host = ''h1'', ee_Port = Some 2800\<rparr>,
       Some \<lparr>ee_Host = ''h1'', ee_Port = Some 2800\<rparr>, Some \<lparr>ee_Host = '''', ee_Port = Some 2810\<rparr>,
       Some \<lparr>ee_Host = ''h2'', ee_Port = Some 2810\<rparr>]\<rparr>"

definition exampleSettings :: settings where
  "exampleSettings = \<lparr>st_WatchNamespacesByDefault = True, st_Service = \<lparr>ss_Annotations = [''a/*'']\<rparr>,
     st_ServiceRegistrySettings = Some \<lparr>srs_ServiceDirectorySettings = None,
       srs_EtcdSettings = Some exampleEtcd, srs_CloudMapSettings = None\<rparr>,
     st_CloudMetadata = Some \<lparr>cm_Network = Some '''', cm_SubNetwork = Some ''sub''\<rparr>\<rparr>"

lemmas example_settings_defs = exampleSettings_def exampleEtcd_def

lemma exampleEtcd_parsed:
  "parseEtcdSettings exampleEtcd =
     Inr (exampleEtcd\<lparr>es_Endpoints := [Some \<lparr>ee_Host = ''h1'', ee_Port = Some 2379\<rparr>,
       Some \<lparr>ee_Host = ''h1'', ee_Port = Some 2800\<rparr>, Some \<lparr>ee_Host = ''h2'', ee_Port = Some 2810\<rparr>]\<rparr>)"
  by (simp add: exampleEtcd_def parseEtcdSettings_def etcd_auth_defs ianaEtcdPort_def)

lemma exampleEtcd_names_host: "etcdNamesHost exampleEtcd"
  by (simp add: etcdNamesHost_def exampleEtcd_def)

lemma exampleSettings_parsed:
  "\<exists>s'. ParseAndValidateSettings (Some exampleSettings) = Inr s'"
  by (simp add: ParseAndValidateSettings_def exampleSettings_def countRegistries_def exampleEtcd_parsed)

theorem settings_accepted_iff_witness:
  "(\<exists>s'. ParseAndValidateSettings (Some exampleSettings) = Inr s') \<and> etcdAuthSupported exampleEtcd"
  using settings_accepted_iff [of exampleSettings] exampleSettings_parsed
  by (auto simp: exampleSettings_def)

text \<open>
  C38. What the validation returns is in normal form: one registry, cloud metadata without
  empty names, etcd endpoints that all have a host and a port, and no host with the same port
  twice in a row; the watch default and the annotations are those of the input. (For etcd this
  asks that some endpoint has a host.)
\<close>

theorem settings_result_normal:
  assumes "ParseAndValidateSettings (Some s) = Inr s'" and "settingsNameHost s"
  shows "settingsNormal s' \<and> st_Service s' = st_Service s
    \<and> st_WatchNamespacesByDefault s' = st_WatchNamespacesByDefault s"
  using assms settingsValidator.sound [OF assms(2,1)]
  by (auto simp: ParseAndValidateSettings_Inr_iff split: option.splits)

theorem settings_result_normal_witness:
  "\<exists>s'. ParseAndValidateSettings (Some exampleSettings) = Inr s' \<and> settingsNormal s'"
proof -
  obtain s' where p: "ParseAndValidateSettings (Some exampleSettings) = Inr s'"
    using exampleSettings_parsed by blast
  have "settingsNameHost exampleSettings"
    by (simp add: settingsNameHost_def exampleSettings_def exampleEtcd_names_host)
  with p settings_result_normal show ?thesis by blast
qed

text \<open>
  Validating settings that have been validated returns them unchanged.
\<close>

theorem settings_idempotent:
  assumes "ParseAndValidateSettings (Some s) = Inr s'" and "settingsNameHost s"
  shows "ParseAndValidateSettings (Some s') = Inr s'"
  using settingsValidator.idempotent [OF assms(2,1)] .

theorem settings_idempotent_witness:
  "\<exists>s'. ParseAndValidateSettings (Some exampleSettings) = Inr s' \<and> ParseAndValidateSettings (Some s') = Inr s'"
proof -
  obtain s' where p: "ParseAndValidateSettings (Some exampleSettings) = Inr s'"
    using exampleSettings_parsed by blast
  have "settingsNameHost exampleSettings"
    by (simp add: settingsNameHost_def exampleSettings_def exampleEtcd_names_host)
  with p settings_idempotent show ?thesis by blast
qed

text \<open>
  No etcd endpoint is lost or invented: for every host the ports kept are those asked
  for it, in order, with the repetitions next to each other removed; the authentication and
  the prefix are kept.
\<close>

theorem etcd_endpoints_kept:
  assumes "parseEtcdSettings s = Inr s'"
  shows "portsOf h (requested (es_Endpoints s')) = remdups_adj (portsOf h (requested (es_Endpoints s)))
    \<and> list_all goodEndpoint (es_Endpoints s')
    \<and> es_Authentication s' = es_Authentication s \<and> es_Prefix s' = es_Prefix s"
  using assms parseEtcdSettings_endpoints [OF assms] by (auto simp: parseEtcdSettings_Inr_iff)

theorem etcd_endpoints_kept_witness:
  "portsOf ''h1'' (requested (es_Endpoints exampleEtcd)) = [2379, 2800, 2800]
   \<and> (\<exists>s'. parseEtcdSettings exampleEtcd = Inr s' \<and> portsOf ''h1'' (requested (es_Endpoints s')) = [2379, 2800])"
proof -
  have p: "portsOf ''h1'' (requested (es_Endpoints exampleEtcd)) = [2379, 2800, 2800]"
    by (simp add: exampleEtcd_def endpointPair_def ianaEtcdPort_def)
  with etcd_endpoints_kept [OF exampleEtcd_parsed, of "''h1''"] exampleEtcd_parsed show ?thesis
    by auto
qed

text \<open>
  The validation panics exactly on settings for etcd alone, with a supported
  authentication, whose endpoint list holds a null element; nothing else panics.
\<close>

theorem settings_panic_iff:
  "isPanic (ParseAndValidateSettings arg) \<longleftrightarrow>
     (\<exists>s reg etcd. arg = Some s \<and> st_ServiceRegistrySettings s = Some reg \<and> countRegistries reg = 1
        \<and> srs_EtcdSettings reg = Some etcd \<and> etcdAuthSupported etcd \<and> None \<in> set (es_Endpoints etcd))"
proof -
  have etcd: "isPanic (parseEtcdSettings e) \<longleftrightarrow> etcdAuthSupported e \<and> None \<in> set (es_Endpoints e)" for e
    by (auto simp: parseEtcdSettings_def etcdAuthSupported_def split: sum.splits
        dest: parseEtcdEndpoints_panics parseEtcdEndpoints_returns)
  have lift: "isPanic (case r of Inl e \<Rightarrow> Inl e | Inr x \<Rightarrow> Inr (f x)) \<longleftrightarrow> isPanic r"
    for r :: "etcdSettings result" and f :: "etcdSettings \<Rightarrow> settings"
    by (cases r rule: isPanic.cases) auto
  have pos: "srs_EtcdSettings reg = Some e \<Longrightarrow> 0 < countRegistries reg" for reg e
    by (simp add: countRegistries_def)
  show ?thesis
  proof (cases "\<exists>s reg e. arg = Some s \<and> st_ServiceRegistrySettings s = Some reg \<and> srs_EtcdSettings reg = Some e")
    case True
    then obtain s reg e where a: "arg = Some s" "st_ServiceRegistrySettings s = Some reg"
        "srs_EtcdSettings reg = Some e" by blast
    with pos [of reg e] show ?thesis
      by (cases "countRegistries reg = 1") (auto simp: ParseAndValidateSettings_def Let_def lift etcd)
  next
    case False
    then show ?thesis
      by (auto simp: ParseAndValidateSettings_def Let_def split: option.splits)
  qed
qed

text \<open>
  A list of endpoints none of which has a host is accepted and leaves etcd with no
  endpoint at all, although a missing list is refused with an error.
\<close>

theorem etcd_no_host_accepted:
  assumes "etcdAuthSupported s" and "es_Endpoints s \<noteq> []" and "None \<notin> set (es_Endpoints s)"
    and "\<not> etcdNamesHost s"
  shows "parseEtcdSettings s = Inr (s\<lparr>es_Endpoints := []\<rparr>)"
proof -
  obtain s' where p: "parseEtcdSettings s = Inr s'"
    using assms parseEtcdSettings_Inl [of s] by (cases "parseEtcdSettings s") auto
  with assms(4) have "es_Endpoints s' = []" by (simp add: parseEtcdSettings_empty_iff)
  with p show ?thesis by (auto simp: parseEtcdSettings_Inr_iff)
qed

theorem etcd_no_host_accepted_witness:
  "parseEtcdSettings (exampleEtcd\<lparr>es_Endpoints := [Some \<lparr>ee_Host = '''', ee_Port = Some 2379\<rparr>]\<rparr>) =
     Inr (exampleEtcd\<lparr>es_Endpoints := []\<rparr>)"
  using etcd_no_host_accepted [of "exampleEtcd\<lparr>es_Endpoints := [Some \<lparr>ee_Host = '''', ee_Port = Some 2379\<rparr>]\<rparr>"]
  by (simp add: etcdAuthSupported_def etcdNamesHost_def exampleEtcd_def)

text \<open>
  The memory of the duplicate check holds one port for each host, so an endpoint listed
  again after another port of its host is kept twice.
\<close>

lemma etcd_duplicate_kept:
  "parseEtcdEndpoints fmempty [] [Some \<lparr>ee_Host = ''h'', ee_Port = Some 1\<rparr>,
      Some \<lparr>ee_Host = ''h'', ee_Port = Some 2\<rparr>, Some \<lparr>ee_Host = ''h'', ee_Port = Some 1\<rparr>] =
    Inr [Some \<lparr>ee_Host = ''h'', ee_Port = Some 1\<rparr>,
      Some \<lparr>ee_Host = ''h'', ee_Port = Some 2\<rparr>, Some \<lparr>ee_Host = ''h'', ee_Port = Some 1\<rparr>]"
  by simp

end
