(* ===== verification/Events.thy ===== *)
theory Events
  imports Prelude "HOL-Library.Word"
begin

text \<open>
  The events that the controllers send to the dispatcher (package
  \<open>pkg/serviceregistry\<close>, \<open>events_handler.go\<close> and \<open>utils.go\<close>). An event carries one of the
  objects of the serego library; of those the fields that the operator fills in are kept.
  \<open>event.Object\<close> has type \<open>interface{}\<close>: \<open>OtherObject\<close> stands for any other value.
\<close>

record endpoint =
  ep_Namespace :: string
  ep_Service :: string
  ep_Name :: string
  ep_Address :: string
  ep_Port :: "32 word"
  ep_Metadata :: "string gomap"

datatype registryObject =
    NamespaceObject (nsobj_Name: string)
  | ServiceObject (svcobj_Namespace: string) (svcobj_Name: string)
  | EndpointObject endpoint
  | OtherObject

datatype eventType = EventCreate | EventUpdate | EventDelete

record event =
  ev_EventType :: eventType
  ev_Object :: registryObject

abbreviation mkEvent :: "eventType \<Rightarrow> registryObject \<Rightarrow> event" where
  "mkEvent t obj \<equiv> \<lparr>ev_EventType = t, ev_Object = obj\<rparr>"

definition getNamespaceNameFromEventObject :: "event \<Rightarrow> string" where
  "getNamespaceNameFromEventObject e =
     (case ev_Object e of
        NamespaceObject name \<Rightarrow> name
      | ServiceObject namespace name \<Rightarrow> namespace
      | EndpointObject ep \<Rightarrow> ep_Namespace ep
      | OtherObject \<Rightarrow> '''')"

definition isOwnedByOperator :: "string gomap \<Rightarrow> bool" where
  "isOwnedByOperator metadata \<longleftrightarrow> fmlookup metadata ''owner'' = Some ''cnwan-operator''"

end
