(* ===== verification/Registry.thy ===== *)
theory Registry
  imports Events
begin

text \<open>
  The service registry as the operator uses it: the operations of the serego library that
  \<open>namespace_worker.go\<close> calls, as a record of actions over a state \<open>'r\<close> of the registry, the
  laws a registry is documented to obey, and one registry in memory that obeys them.
  serego is not part of the repository: the record is a parameter of the model, the laws are
  the hypotheses of the properties that need them.
\<close>

section \<open>Operations\<close>

text \<open>
  Where an operation of serego points to: \<open>Namespace(n)\<close>, \<open>Namespace(n).Service(s)\<close> and
  \<open>Namespace(n).Service(s).Endpoint(e)\<close>.
\<close>

datatype target = NamespaceAt string | ServiceAt string string | EndpointAt string string string

datatype registerOption = WithAddress string | WithPort "32 word" | WithMetadata "string gomap"

text \<open>
  \<open>listNext t\<close> is the first \<open>Next\<close> on the list of the services of a namespace, or of the
  endpoints of a service: an object, the error that \<open>IsIteratorDone\<close> recognises, or
  another error. \<open>get t\<close> returns the metadata of the object, the only part that is used.
\<close>

datatype nextResult = NextFound | NextDone | NextError string

record 'r client =
  register :: "target \<Rightarrow> registerOption list \<Rightarrow> ('r, string option) state"
  get :: "target \<Rightarrow> ('r, string + string gomap) state"
  deregister :: "target \<Rightarrow> ('r, string option) state"
  listNext :: "target \<Rightarrow> ('r, nextResult) state"

text \<open>A call with its outcome; \<open>None\<close> is the error nil.\<close>

datatype call =
    RegisterCall target "registerOption list" "string option"
  | GetCall target "string + string gomap"
  | DeregisterCall target "string option"
  | ListCall target nextResult

fun callTarget :: "call \<Rightarrow> target" where
  "callTarget (RegisterCall t opts r) = t"
| "callTarget (GetCall t r) = t"
| "callTarget (DeregisterCall t r) = t"
| "callTarget (ListCall t r) = t"

fun targetNamespace :: "target \<Rightarrow> string" where
  "targetNamespace (NamespaceAt ns) = ns"
| "targetNamespace (ServiceAt ns s) = ns"
| "targetNamespace (EndpointAt ns s e) = ns"

section \<open>Contents and laws\<close>

text \<open>
  The contents of a registry: the metadata of every object that is there. \<open>parent\<close> is the
  object one lies in directly, \<open>enclosing\<close> are all it lies in.
\<close>

type_synonym contents = "target \<Rightarrow> string gomap option"

fun parent :: "target \<Rightarrow> target option" where
  "parent (NamespaceAt ns) = None"
| "parent (ServiceAt ns s) = Some (NamespaceAt ns)"
| "parent (EndpointAt ns s e) = Some (ServiceAt ns s)"

fun enclosing :: "target \<Rightarrow> target set" where
  "enclosing (NamespaceAt ns) = {}"
| "enclosing (ServiceAt ns s) = {NamespaceAt ns}"
| "enclosing (EndpointAt ns s e) = {ServiceAt ns s, NamespaceAt ns}"

definition childless :: "contents \<Rightarrow> target \<Rightarrow> bool" where
  "childless m t \<longleftrightarrow> (\<forall>u. parent u = Some t \<longrightarrow> m u = None)"

definition noOrphans :: "contents \<Rightarrow> bool" where
  "noOrphans m \<longleftrightarrow> (\<forall>u p. m u \<noteq> None \<longrightarrow> parent u = Some p \<longrightarrow> m p \<noteq> None)"

text \<open>The metadata that the options ask for; a later option wins.\<close>

fun givenMetadata :: "registerOption list \<Rightarrow> string gomap" where
  "givenMetadata [] = fmempty"
| "givenMetadata (WithMetadata md # opts) = md ++\<^sub>f givenMetadata opts"
| "givenMetadata (_ # opts) = givenMetadata opts"

definition carries :: "string gomap \<Rightarrow> registerOption list \<Rightarrow> bool" where
  "carries md opts \<longleftrightarrow> (\<forall>k v. fmlookup (givenMetadata opts) k = Some v \<longrightarrow> fmlookup md k = Some v)"

definition registered :: "contents \<Rightarrow> target \<Rightarrow> registerOption list \<Rightarrow> contents \<Rightarrow> bool" where
  "registered m t opts m' \<longleftrightarrow> (\<exists>md. carries md opts \<and> m' = m(t \<mapsto> md))"

text \<open>Removing an object may remove what lies in it, and nothing else.\<close>

definition removed :: "contents \<Rightarrow> target \<Rightarrow> contents \<Rightarrow> bool" where
  "removed m t m' \<longleftrightarrow> m' t = None
     \<and> (\<forall>u. u \<noteq> t \<longrightarrow> m' u = m u \<or> t \<in> enclosing u \<and> m' u = None)"

text \<open>
  What a call may do to the contents, by its outcome. A call that failed may have been carried
  out (its answer got lost) or not.
\<close>

fun callOk :: "contents \<Rightarrow> call \<Rightarrow> contents \<Rightarrow> bool" where
  "callOk m (RegisterCall t opts None) m' = registered m t opts m'"
| "callOk m (RegisterCall t opts (Some e)) m' = (m' = m \<or> registered m t opts m')"
| "callOk m (GetCall t (Inr md)) m' = (m' = m \<and> m t = Some md)"
| "callOk m (GetCall t (Inl e)) m' = (m' = m)"
| "callOk m (DeregisterCall t None) m' = removed m t m'"
| "callOk m (DeregisterCall t (Some e)) m' = (m' = m \<or> removed m t m')"
| "callOk m (ListCall t NextFound) m' = (m' = m \<and> \<not> childless m t)"
| "callOk m (ListCall t NextDone) m' = (m' = m \<and> childless m t)"
| "callOk m (ListCall t (NextError e)) m' = (m' = m)"

fun callsOk :: "contents \<Rightarrow> call list \<Rightarrow> contents \<Rightarrow> bool" where
  "callsOk m [] m' = (m' = m)"
| "callsOk m (c # cs) m' = (\<exists>m1. callOk m c m1 \<and> callsOk m1 cs m')"

definition registryLaws :: "'r client \<Rightarrow> ('r \<Rightarrow> contents) \<Rightarrow> bool" where
  "registryLaws c view \<longleftrightarrow>
     (\<forall>t opts r e r'. run_state (register c t opts) r = (e, r') \<longrightarrow> callOk (view r) (RegisterCall t opts e) (view r'))
     \<and> (\<forall>t r x r'. run_state (get c t) r = (x, r') \<longrightarrow> callOk (view r) (GetCall t x) (view r'))
     \<and> (\<forall>t r e r'. run_state (deregister c t) r = (e, r') \<longrightarrow> callOk (view r) (DeregisterCall t e) (view r'))
     \<and> (\<forall>t r x r'. run_state (listNext c t) r = (x, r') \<longrightarrow> callOk (view r) (ListCall t x) (view r'))"

lemma registryLawsD:
  assumes "registryLaws c view"
  shows "run_state (register c t opts) r = (e, r') \<Longrightarrow> callOk (view r) (RegisterCall t opts e) (view r')"
    and "run_state (get c t) r = (x, r') \<Longrightarrow> callOk (view r) (GetCall t x) (view r')"
    and "run_state (deregister c t) r = (e, r') \<Longrightarrow> callOk (view r) (DeregisterCall t e) (view r')"
    and "run_state (listNext c t) r = (y, r') \<Longrightarrow> callOk (view r) (ListCall t y) (view r')"
  using assms unfolding registryLaws_def by blast+

lemma callsOk_append: "callsOk m (xs @ ys) m' \<longleftrightarrow> (\<exists>m1. callsOk m xs m1 \<and> callsOk m1 ys m')"
  by (induction xs arbitrary: m) auto

lemma enclosing_parent: "t \<in> enclosing u \<longleftrightarrow> parent u = Some t \<or> (\<exists>p. parent u = Some p \<and> parent p = Some t)"
  by (cases u) auto

lemma EndpointAt_not_enclosing [simp]: "EndpointAt ns s e \<notin> enclosing u"
  by (cases u) auto

lemma enclosing_irrefl [simp]: "u \<notin> enclosing u"
  by (cases u) auto

lemma enclosing_trans: "p \<in> enclosing u \<Longrightarrow> t \<in> enclosing p \<Longrightarrow> t \<in> enclosing u"
  by (cases u) auto

lemma enclosing_namespace: "t \<in> enclosing u \<Longrightarrow> targetNamespace t = targetNamespace u"
  by (cases u) auto

lemma noOrphans_enclosing: "noOrphans m \<Longrightarrow> m u \<noteq> None \<Longrightarrow> t \<in> enclosing u \<Longrightarrow> m t \<noteq> None"
  unfolding noOrphans_def enclosing_parent by blast

text \<open>Nothing lies in a childless object, so that removing it removes it only.\<close>

lemma childless_enclosing: "noOrphans m \<Longrightarrow> childless m t \<Longrightarrow> t \<in> enclosing u \<Longrightarrow> m u = None"
  unfolding childless_def enclosing_parent noOrphans_def by blast

lemma removed_childless:
  assumes "removed m t m'" and "noOrphans m" and "childless m t"
  shows "m' = m(t := None)"
proof
  fix u
  show "m' u = (m(t := None)) u"
    using assms childless_enclosing [OF assms(2,3), of u] unfolding removed_def by (cases "u = t") auto
qed

lemma noOrphans_remove: "noOrphans m \<Longrightarrow> childless m t \<Longrightarrow> noOrphans (m(t := None))"
  by (auto simp: noOrphans_def childless_def)

lemma childless_endpoint [simp]: "childless m (EndpointAt ns s e)"
proof -
  have "parent u \<noteq> Some (EndpointAt ns s e)" for u by (cases u) auto
  then show ?thesis by (simp add: childless_def)
qed

lemma registered_carries:
  assumes "registered m t opts m'" and "fmlookup (givenMetadata opts) k = Some v"
  shows "\<exists>md. m' t = Some md \<and> fmlookup md k = Some v"
  using assms by (auto simp: registered_def carries_def)

section \<open>A registry in memory\<close>

text \<open>It merges metadata, refuses to remove what is not there, and removes what lies in an object with it.\<close>

type_synonym memory = "(target, string gomap) fmap"

definition memoryClient :: "memory client" where
  "memoryClient = \<lparr>
     register = (\<lambda>t opts. State (\<lambda>r. (None,
       fmupd t ((case fmlookup r t of None \<Rightarrow> fmempty | Some md \<Rightarrow> md) ++\<^sub>f givenMetadata opts) r))),
     get = (\<lambda>t. State (\<lambda>r. (case fmlookup r t of None \<Rightarrow> Inl ''not found'' | Some md \<Rightarrow> Inr md, r))),
     deregister = (\<lambda>t. State (\<lambda>r.
       if fmlookup r t = None then (Some ''not found'', r)
       else (None, fmfilter (\<lambda>u. u \<noteq> t \<and> t \<notin> enclosing u) r))),
     listNext = (\<lambda>t. State (\<lambda>r. (if fBex (fmdom r) (\<lambda>u. parent u = Some t) then NextFound else NextDone, r)))\<rparr>"

lemma memoryClient_laws: "registryLaws memoryClient fmlookup"
proof -
  have child: "childless (fmlookup r) t \<longleftrightarrow> \<not> fBex (fmdom r) (\<lambda>u. parent u = Some t)" for r t
    by (auto simp: childless_def fmlookup_dom_iff)
  have reg: "registered (fmlookup r) t opts
      (fmlookup (fmupd t ((case fmlookup r t of None \<Rightarrow> fmempty | Some md \<Rightarrow> md) ++\<^sub>f givenMetadata opts) r))" for r t opts
    unfolding registered_def
    by (rule exI [where x = "(case fmlookup r t of None \<Rightarrow> fmempty | Some md \<Rightarrow> md) ++\<^sub>f givenMetadata opts"])
      (auto simp: carries_def fmlookup_dom_iff fun_eq_iff)
  show ?thesis
    unfolding registryLaws_def
    by (auto simp: memoryClient_def child reg removed_def fun_eq_iff split: option.splits if_splits)
qed

end
