(* ===== verification/Namespace_Worker.thy ===== *)
theory Namespace_Worker
  imports Registry
begin

text \<open>
  The worker of a namespace (package \<open>pkg/serviceregistry\<close>, \<open>namespace_worker.go\<close>): what
  it does for one event. Every handler is an action on the registry and returns the calls it
  made, with their outcomes. Log lines and the time limit of a minute are left out: a call
  that runs out of time is one that returns an error.
\<close>

section \<open>Model\<close>

text \<open>\<open>nw_namespace\<close> is the name that \<open>nsop\<close> is bound to.\<close>

record namespaceWorker =
  nw_namespace :: string
  nw_persistentMeta :: "string gomap"

definition registerAt :: "'r client \<Rightarrow> target \<Rightarrow> registerOption list \<Rightarrow> ('r, call list) state" where
  "registerAt c t opts = do { e \<leftarrow> register c t opts; State_Monad.return [RegisterCall t opts e] }"

definition handleCreateUpdate :: "'r client \<Rightarrow> namespaceWorker \<Rightarrow> event \<Rightarrow> ('r, call list) state" where
  "handleCreateUpdate c n e =
     (case ev_Object e of
        NamespaceObject name \<Rightarrow>
          registerAt c (NamespaceAt (nw_namespace n)) [WithMetadata (nw_persistentMeta n)]
      | ServiceObject namespace name \<Rightarrow>
          registerAt c (ServiceAt (nw_namespace n) name) [WithMetadata (nw_persistentMeta n)]
      | EndpointObject ep \<Rightarrow>
          registerAt c (EndpointAt (nw_namespace n) (ep_Service ep) (ep_Name ep))
            [WithAddress (ep_Address ep), WithPort (ep_Port ep), WithMetadata (ep_Metadata ep),
             WithMetadata (nw_persistentMeta n)]
      | OtherObject \<Rightarrow> State_Monad.return [])"

definition handleDeleteEndpoint :: "'r client \<Rightarrow> namespaceWorker \<Rightarrow> endpoint \<Rightarrow> ('r, call list) state" where
  "handleDeleteEndpoint c n ep =
     (let eop = EndpointAt (nw_namespace n) (ep_Service ep) (ep_Name ep)
      in do {
        g \<leftarrow> get c eop;
        (case g of
           Inl err \<Rightarrow> State_Monad.return [GetCall eop g]
         | Inr metadata \<Rightarrow>
             if \<not> isOwnedByOperator metadata then State_Monad.return [GetCall eop g]
             else do {
               err \<leftarrow> deregister c eop;
               State_Monad.return [GetCall eop g, DeregisterCall eop err]
             })
      })"

definition handleDeleteService :: "'r client \<Rightarrow> namespaceWorker \<Rightarrow> string \<Rightarrow> ('r, call list) state" where
  "handleDeleteService c n serviceName =
     (let sop = ServiceAt (nw_namespace n) serviceName
      in do {
        g \<leftarrow> get c sop;
        (case g of
           Inl err \<Rightarrow> State_Monad.return [GetCall sop g]
         | Inr metadata \<Rightarrow>
             if \<not> isOwnedByOperator metadata then State_Monad.return [GetCall sop g]
             else do {
               x \<leftarrow> listNext c sop;
               (case x of
                  NextError err \<Rightarrow> State_Monad.return [GetCall sop g, ListCall sop x]
                | NextFound \<Rightarrow> State_Monad.return [GetCall sop g, ListCall sop x]
                | NextDone \<Rightarrow> do {
                    err \<leftarrow> deregister c sop;
                    State_Monad.return [GetCall sop g, ListCall sop x, DeregisterCall sop err]
                  })
             })
      })"

definition handleDeleteNamespace :: "'r client \<Rightarrow> namespaceWorker \<Rightarrow> string \<Rightarrow> ('r, call list) state" where
  "handleDeleteNamespace c n namespaceName =
     (let nsop = NamespaceAt (nw_namespace n)
      in do {
        g \<leftarrow> get c nsop;
        (case g of
           Inl err \<Rightarrow> State_Monad.return [GetCall nsop g]
         | Inr metadata \<Rightarrow>
             if \<not> isOwnedByOperator metadata then State_Monad.return [GetCall nsop g]
             else do {
               x \<leftarrow> listNext c nsop;
               (case x of
                  NextError err \<Rightarrow> State_Monad.return [GetCall nsop g, ListCall nsop x]
                | NextFound \<Rightarrow> State_Monad.return [GetCall nsop g, ListCall nsop x]
                | NextDone \<Rightarrow> do {
                    err \<leftarrow> deregister c nsop;
                    State_Monad.return [GetCall nsop g, ListCall nsop x, DeregisterCall nsop err]
                  })
             })
      })"

text \<open>The body of the loop of \<open>handleNamespacedEvents\<close>, and the loop over a list of events.\<close>

definition handleNamespacedEvent :: "'r client \<Rightarrow> namespaceWorker \<Rightarrow> event \<Rightarrow> ('r, call list) state" where
  "handleNamespacedEvent c n e =
     (case ev_EventType e of
        EventCreate \<Rightarrow> handleCreateUpdate c n e
      | EventUpdate \<Rightarrow> handleCreateUpdate c n e
      | EventDelete \<Rightarrow>
          (case ev_Object e of
             NamespaceObject name \<Rightarrow> handleDeleteNamespace c n name
           | ServiceObject namespace name \<Rightarrow> handleDeleteService c n name
           | EndpointObject ep \<Rightarrow> handleDeleteEndpoint c n ep
           | OtherObject \<Rightarrow> State_Monad.return []))"

fun handleAll :: "'r client \<Rightarrow> namespaceWorker \<Rightarrow> event list \<Rightarrow> ('r, call list) state" where
  "handleAll c n [] = State_Monad.return []"
| "handleAll c n (e # es) = do {
     calls \<leftarrow> handleNamespacedEvent c n e;
     rest \<leftarrow> handleAll c n es;
     State_Monad.return (calls @ rest)
   }"

section \<open>The calls of a deletion\<close>

text \<open>
  Where a deletion points to, whether it asks for the objects in the target first, and the
  calls it may make: it stops at the first answer that speaks against the deletion.
\<close>

fun mayHold :: "target \<Rightarrow> bool" where
  "mayHold (EndpointAt ns s e) = False"
| "mayHold _ = True"

definition deletionCalls :: "target \<Rightarrow> call list \<Rightarrow> bool" where
  "deletionCalls t calls \<longleftrightarrow>
     (\<exists>e. calls = [GetCall t (Inl e)])
     \<or> (\<exists>md. \<not> isOwnedByOperator md \<and> calls = [GetCall t (Inr md)])
     \<or> (\<exists>md x. mayHold t \<and> isOwnedByOperator md \<and> x \<noteq> NextDone \<and> calls = [GetCall t (Inr md), ListCall t x])
     \<or> (\<exists>md e. isOwnedByOperator md
          \<and> calls = [GetCall t (Inr md)] @ (if mayHold t then [ListCall t NextDone] else [])
                     @ [DeregisterCall t e])"

lemma isOwned_cases:
  obtains (bad) e where "g = Inl e" | (foreign) md where "g = Inr md" "\<not> isOwnedByOperator md"
    | (own) md where "g = Inr md" "isOwnedByOperator md"
  by (cases g) auto

text \<open>
  The contract of a deletion, met by all three handlers: its calls are those of a deletion of
  its target, and what they do to a registry is what their outcomes say.
\<close>

locale deletion =
  fixes handle :: "'r client \<Rightarrow> namespaceWorker \<Rightarrow> 'o \<Rightarrow> ('r, call list) state"
    and target :: "namespaceWorker \<Rightarrow> 'o \<Rightarrow> target"
  assumes calls: "run_state (handle c n obj) r = (cs, r') \<Longrightarrow> deletionCalls (target n obj) cs"
    and honest: "registryLaws c view \<Longrightarrow> run_state (handle c n obj) r = (cs, r') \<Longrightarrow> callsOk (view r) cs (view r')"
begin

text \<open>A deletion changes nothing, or removes one object that is owned and has nothing in it.\<close>

lemma effect:
  assumes "registryLaws c view" and "noOrphans (view r)" and "run_state (handle c n obj) r = (cs, r')"
  shows "view r' = view r
    \<or> (\<exists>md. view r (target n obj) = Some md \<and> isOwnedByOperator md \<and> childless (view r) (target n obj)
         \<and> view r' = (view r)(target n obj := None))"
proof -
  let ?t = "target n obj"
  from calls [OF assms(3)] honest [OF assms(1,3)] consider "view r' = view r"
    | (dereg) md e where "view r ?t = Some md" "isOwnedByOperator md" "childless (view r) ?t"
        "callOk (view r) (DeregisterCall ?t e) (view r')"
    unfolding deletionCalls_def by (elim disjE exE conjE; cases "?t"; auto elim: callOk.elims)
  then show ?thesis
  proof cases
    case dereg
    then show ?thesis
      using removed_childless [OF _ assms(2) dereg(3)] by (cases e) auto
  qed blast
qed

lemma keeps_noOrphans:
  "registryLaws c view \<Longrightarrow> noOrphans (view r) \<Longrightarrow> run_state (handle c n obj) r = (cs, r') \<Longrightarrow> noOrphans (view r')"
  using effect noOrphans_remove by metis

lemma keeps_unowned:
  "registryLaws c view \<Longrightarrow> noOrphans (view r) \<Longrightarrow> run_state (handle c n obj) r = (cs, r') \<Longrightarrow>
     view r u = Some md \<Longrightarrow> \<not> isOwnedByOperator md \<Longrightarrow> view r' u = Some md"
  using effect [of c view r n obj cs r'] by (auto split: if_splits)

lemma only_target:
  "registryLaws c view \<Longrightarrow> noOrphans (view r) \<Longrightarrow> run_state (handle c n obj) r = (cs, r') \<Longrightarrow>
     u \<noteq> target n obj \<Longrightarrow> view r' u = view r u"
  using effect [of c view r n obj cs r'] by auto

end

interpretation deleteEndpoint: deletion handleDeleteEndpoint
  "\<lambda>n ep. EndpointAt (nw_namespace n) (ep_Service ep) (ep_Name ep)"
proof unfold_locales
  fix c :: "'a client" and n ep r cs r'
  assume run: "run_state (handleDeleteEndpoint c n ep) r = (cs, r')"
  let ?t = "EndpointAt (nw_namespace n) (ep_Service ep) (ep_Name ep)"
  obtain g r1 where g: "run_state (get c ?t) r = (g, r1)" by fastforce
  show "deletionCalls ?t cs"
    using run g by (cases g rule: isOwned_cases)
      (auto simp: handleDeleteEndpoint_def Let_def deletionCalls_def split: prod.splits)
  fix view
  assume laws: "registryLaws c view"
  show "callsOk (view r) cs (view r')"
    using run g registryLawsD(2) [OF laws g] registryLawsD(3) [OF laws, of ?t r1]
    by (cases g rule: isOwned_cases) (auto simp: handleDeleteEndpoint_def Let_def split: prod.splits)
qed

interpretation deleteService: deletion handleDeleteService "\<lambda>n name. ServiceAt (nw_namespace n) name"
proof unfold_locales
  fix c :: "'a client" and n name r cs r'
  assume run: "run_state (handleDeleteService c n name) r = (cs, r')"
  let ?t = "ServiceAt (nw_namespace n) name"
  obtain g r1 where g: "run_state (get c ?t) r = (g, r1)" by fastforce
  show "deletionCalls ?t cs"
    using run g by (cases g rule: isOwned_cases)
      (auto simp: handleDeleteService_def Let_def deletionCalls_def split: prod.splits nextResult.splits)
  fix view
  assume laws: "registryLaws c view"
  show "callsOk (view r) cs (view r')"
    using run g registryLawsD(2) [OF laws g] registryLawsD(4) [OF laws, of ?t r1] registryLawsD(3) [OF laws, of ?t]
    by (cases g rule: isOwned_cases)
      (fastforce simp: handleDeleteService_def Let_def split: prod.splits nextResult.splits)+
qed

interpretation deleteNamespace: deletion handleDeleteNamespace "\<lambda>n name. NamespaceAt (nw_namespace n)"
proof unfold_locales
  fix c :: "'a client" and n name r cs r'
  assume run: "run_state (handleDeleteNamespace c n name) r = (cs, r')"
  let ?t = "NamespaceAt (nw_namespace n)"
  obtain g r1 where g: "run_state (get c ?t) r = (g, r1)" by fastforce
  show "deletionCalls ?t cs"
    using run g by (cases g rule: isOwned_cases)
      (auto simp: handleDeleteNamespace_def Let_def deletionCalls_def split: prod.splits nextResult.splits)
  fix view
  assume laws: "registryLaws c view"
  show "callsOk (view r) cs (view r')"
    using run g registryLawsD(2) [OF laws g] registryLawsD(4) [OF laws, of ?t r1] registryLawsD(3) [OF laws, of ?t]
    by (cases g rule: isOwned_cases)
      (fastforce simp: handleDeleteNamespace_def Let_def split: prod.splits nextResult.splits)+
qed

section \<open>What a worker does for any event\<close>

text \<open>The calls for one event: a registration without any question, or those of a deletion.\<close>

fun eventTarget :: "namespaceWorker \<Rightarrow> registryObject \<Rightarrow> target option" where
  "eventTarget n (NamespaceObject name) = Some (NamespaceAt (nw_namespace n))"
| "eventTarget n (ServiceObject ns name) = Some (ServiceAt (nw_namespace n) name)"
| "eventTarget n (EndpointObject ep) = Some (EndpointAt (nw_namespace n) (ep_Service ep) (ep_Name ep))"
| "eventTarget n OtherObject = None"

fun registerOptions :: "namespaceWorker \<Rightarrow> registryObject \<Rightarrow> registerOption list" where
  "registerOptions n (EndpointObject ep) =
     [WithAddress (ep_Address ep), WithPort (ep_Port ep), WithMetadata (ep_Metadata ep),
      WithMetadata (nw_persistentMeta n)]"
| "registerOptions n _ = [WithMetadata (nw_persistentMeta n)]"

lemma handleCreateUpdate_registers:
  "handleCreateUpdate c n e =
     (case eventTarget n (ev_Object e) of
        None \<Rightarrow> State_Monad.return []
      | Some t \<Rightarrow> registerAt c t (registerOptions n (ev_Object e)))"
  by (cases "ev_Object e") (simp_all add: handleCreateUpdate_def)

definition eventCalls :: "namespaceWorker \<Rightarrow> event \<Rightarrow> call list \<Rightarrow> bool" where
  "eventCalls n e calls \<longleftrightarrow>
     (case eventTarget n (ev_Object e) of
        None \<Rightarrow> calls = []
      | Some t \<Rightarrow>
          if ev_EventType e = EventDelete then deletionCalls t calls
          else \<exists>err. calls = [RegisterCall t (registerOptions n (ev_Object e)) err])"

lemma handleNamespacedEvent_delete:
  assumes "ev_EventType e = EventDelete"
  shows "handleNamespacedEvent c n e =
    (case ev_Object e of
       NamespaceObject name \<Rightarrow> handleDeleteNamespace c n name
     | ServiceObject namespace name \<Rightarrow> handleDeleteService c n name
     | EndpointObject ep \<Rightarrow> handleDeleteEndpoint c n ep
     | OtherObject \<Rightarrow> State_Monad.return [])"
  using assms by (simp add: handleNamespacedEvent_def)

lemma handleNamespacedEvent_register:
  "ev_EventType e \<noteq> EventDelete \<Longrightarrow> handleNamespacedEvent c n e = handleCreateUpdate c n e"
  by (cases "ev_EventType e") (simp_all add: handleNamespacedEvent_def)

lemma handleNamespacedEvent_calls:
  assumes "run_state (handleNamespacedEvent c n e) r = (cs, r')"
  shows "eventCalls n e cs"
proof (cases "ev_EventType e = EventDelete")
  case True
  with assms show ?thesis
    by (cases "ev_Object e")
      (auto simp: eventCalls_def handleNamespacedEvent_delete
        intro: deleteEndpoint.calls deleteService.calls deleteNamespace.calls)
next
  case False
  with assms show ?thesis
    by (cases "ev_Object e")
      (auto simp: eventCalls_def handleNamespacedEvent_register handleCreateUpdate_registers registerAt_def
        split: prod.splits)
qed

lemma handleNamespacedEvent_honest:
  assumes "registryLaws c view" and "run_state (handleNamespacedEvent c n e) r = (cs, r')"
  shows "callsOk (view r) cs (view r')"
proof (cases "ev_EventType e = EventDelete")
  case True
  with assms(2) show ?thesis
    by (cases "ev_Object e")
      (auto simp: handleNamespacedEvent_delete
        intro: deleteEndpoint.honest [OF assms(1)] deleteService.honest [OF assms(1)] deleteNamespace.honest [OF assms(1)])
next
  case False
  with assms(2) show ?thesis
    by (cases "ev_Object e")
      (auto simp: handleNamespacedEvent_register handleCreateUpdate_registers registerAt_def
        split: prod.splits dest!: registryLawsD(1) [OF assms(1)])
qed

lemma deletionCalls_target: "deletionCalls t cs \<Longrightarrow> cl \<in> set cs \<Longrightarrow> callTarget cl = t"
  by (auto simp: deletionCalls_def split: if_splits)

lemma eventTarget_namespace: "eventTarget n obj = Some t \<Longrightarrow> targetNamespace t = nw_namespace n"
  by (cases obj) auto

lemma eventCalls_namespace:
  assumes "eventCalls n e cs" and "cl \<in> set cs"
  shows "targetNamespace (callTarget cl) = nw_namespace n"
  using assms eventTarget_namespace [of n "ev_Object e"] deletionCalls_target
  by (auto simp: eventCalls_def split: option.splits if_splits)

lemma handleAll_calls:
  assumes "run_state (handleAll c n es) r = (cs, r')"
  shows "\<exists>css. cs = concat css \<and> list_all2 (eventCalls n) es css"
  using assms
proof (induction es arbitrary: r cs)
  case (Cons e es)
  obtain cs1 r1 where 1: "run_state (handleNamespacedEvent c n e) r = (cs1, r1)" by fastforce
  obtain cs2 r2 where 2: "run_state (handleAll c n es) r1 = (cs2, r2)" by fastforce
  from Cons.prems 1 2 have eq: "cs = cs1 @ cs2" "r' = r2" by auto
  from Cons.IH [of r1 cs2] 2 eq obtain css where "cs2 = concat css" "list_all2 (eventCalls n) es css" by auto
  with eq handleNamespacedEvent_calls [OF 1] show ?case by (intro exI [where x = "cs1 # css"]) simp
qed (auto intro: exI [where x = "[]"])

text \<open>In the calls for a list of events every deregistration comes last in those of a deletion.\<close>

lemma guarded_in_calls:
  assumes "list_all2 (eventCalls n) es css" and "DeregisterCall t err \<in> set (concat css)"
  shows "\<exists>pre md post. concat css = pre @ [GetCall t (Inr md)] @ (if mayHold t then [ListCall t NextDone] else [])
      @ [DeregisterCall t err] @ post
    \<and> isOwnedByOperator md
    \<and> (\<exists>e \<in> set es. ev_EventType e = EventDelete \<and> eventTarget n (ev_Object e) = Some t)"
proof -
  from assms(2) obtain cs1 where cs1: "cs1 \<in> set css" "DeregisterCall t err \<in> set cs1" by auto
  then obtain before after where sp: "css = before @ cs1 # after" by (auto dest: split_list)
  from assms(1) cs1(1) obtain e where e: "e \<in> set es" "eventCalls n e cs1"
    by (auto simp: list_all2_conv_all_nth in_set_conv_nth) metis
  then have "ev_EventType e = EventDelete \<and> eventTarget n (ev_Object e) = Some t \<and> deletionCalls t cs1"
    using cs1(2) deletionCalls_target [of _ cs1 "DeregisterCall t err"]
    by (auto simp: eventCalls_def split: option.splits if_splits)
  moreover from this obtain md where "isOwnedByOperator md"
      "cs1 = [GetCall t (Inr md)] @ (if mayHold t then [ListCall t NextDone] else []) @ [DeregisterCall t err]"
    using cs1(2) by (auto simp: deletionCalls_def split: if_splits)
  ultimately show ?thesis
    using e(1) sp
    by (intro exI [where x = "concat before"] exI [where x = md] exI [where x = "concat after"]) auto
qed

lemma handleAll_honest:
  assumes "registryLaws c view" and "run_state (handleAll c n es) r = (cs, r')"
  shows "callsOk (view r) cs (view r')"
  using assms(2)
proof (induction es arbitrary: r cs)
  case (Cons e es)
  obtain cs1 r1 where 1: "run_state (handleNamespacedEvent c n e) r = (cs1, r1)" by fastforce
  obtain cs2 r2 where 2: "run_state (handleAll c n es) r1 = (cs2, r2)" by fastforce
  with Cons.prems 1 have "cs = cs1 @ cs2" "r' = r2" by auto
  with Cons.IH [of r1 cs2] 2 handleNamespacedEvent_honest [OF assms(1) 1] show ?case
    by (auto simp: callsOk_append)
qed auto

text \<open>No call changes anything outside the namespace of its target.\<close>

lemma removed_namespace:
  "removed m t m' \<Longrightarrow> targetNamespace u \<noteq> targetNamespace t \<Longrightarrow> m' u = m u"
  unfolding removed_def using enclosing_namespace by metis

lemma callOk_namespace:
  assumes "callOk m cl m'" and "targetNamespace u \<noteq> targetNamespace (callTarget cl)"
  shows "m' u = m u"
  using assms by (auto elim!: callOk.elims simp: registered_def intro: removed_namespace)

lemma callsOk_namespace:
  assumes "callsOk m cs m'" and "\<And>cl. cl \<in> set cs \<Longrightarrow> targetNamespace (callTarget cl) \<noteq> targetNamespace u"
  shows "m' u = m u"
  using assms
proof (induction cs arbitrary: m)
  case (Cons cl cs)
  then obtain m1 where "callOk m cl m1" "callsOk m1 cs m'" by auto
  with Cons.IH [of m1] Cons.prems(2) callOk_namespace [of m cl m1 u] show ?case by force
qed simp

text \<open>Deletions keep the contents well formed and keep what the operator does not own.\<close>

definition keepsForeign :: "contents \<Rightarrow> contents \<Rightarrow> bool" where
  "keepsForeign m m' \<longleftrightarrow> (\<forall>u md. m u = Some md \<longrightarrow> \<not> isOwnedByOperator md \<longrightarrow> m' u = Some md)"

lemma delete_event_kept:
  assumes "registryLaws c view" and "noOrphans (view r)" and "ev_EventType e = EventDelete"
    and "run_state (handleNamespacedEvent c n e) r = (cs, r')"
  shows "noOrphans (view r') \<and> keepsForeign (view r) (view r')"
proof (cases "ev_Object e")
  case (NamespaceObject name)
  with assms(3,4) have "run_state (handleDeleteNamespace c n name) r = (cs, r')"
    by (simp add: handleNamespacedEvent_delete)
  with assms(1,2) show ?thesis
    unfolding keepsForeign_def by (blast intro: deleteNamespace.keeps_noOrphans deleteNamespace.keeps_unowned)
next
  case (ServiceObject ns name)
  with assms(3,4) have "run_state (handleDeleteService c n name) r = (cs, r')"
    by (simp add: handleNamespacedEvent_delete)
  with assms(1,2) show ?thesis
    unfolding keepsForeign_def by (blast intro: deleteService.keeps_noOrphans deleteService.keeps_unowned)
next
  case (EndpointObject ep)
  with assms(3,4) have "run_state (handleDeleteEndpoint c n ep) r = (cs, r')"
    by (simp add: handleNamespacedEvent_delete)
  with assms(1,2) show ?thesis
    unfolding keepsForeign_def by (blast intro: deleteEndpoint.keeps_noOrphans deleteEndpoint.keeps_unowned)
next
  case OtherObject
  with assms show ?thesis by (auto simp: handleNamespacedEvent_delete keepsForeign_def)
qed

lemma delete_events_kept:
  assumes "registryLaws c view" and "noOrphans (view r)" and "list_all (\<lambda>e. ev_EventType e = EventDelete) es"
    and "run_state (handleAll c n es) r = (cs, r')"
  shows "noOrphans (view r') \<and> keepsForeign (view r) (view r')"
  using assms(2-)
proof (induction es arbitrary: r cs)
  case (Cons e es)
  obtain cs1 r1 where 1: "run_state (handleNamespacedEvent c n e) r = (cs1, r1)" by fastforce
  obtain cs2 r2 where 2: "run_state (handleAll c n es) r1 = (cs2, r2)" by fastforce
  have "noOrphans (view r1) \<and> keepsForeign (view r) (view r1)"
    using delete_event_kept [OF assms(1) Cons.prems(1) _ 1] Cons.prems(2) by simp
  moreover from this have "noOrphans (view r2) \<and> keepsForeign (view r1) (view r2)"
    using Cons.IH [of r1 cs2] Cons.prems 1 2 by auto
  ultimately show ?case using Cons.prems(3) 1 2 by (auto simp: keepsForeign_def)
qed (auto simp: keepsForeign_def)

section \<open>Properties\<close>

definition exampleWorker :: namespaceWorker where
  "exampleWorker = \<lparr>nw_namespace = ''shop'', nw_persistentMeta = fmap_of_list [(''owner'', ''cnwan-operator'')]\<rparr>"

definition exampleEndpoint :: endpoint where
  "exampleEndpoint = \<lparr>ep_Namespace = ''shop'', ep_Service = ''web'', ep_Name = ''web-1'',
     ep_Address = ''10.0.0.1'', ep_Port = 80, ep_Metadata = fmap_of_list [(''owner'', ''someone'')]\<rparr>"

text \<open>A registry whose namespace the operator owns, with a service that it does not own.\<close>

definition exampleMemory :: memory where
  "exampleMemory = fmap_of_list
     [(NamespaceAt ''shop'', fmap_of_list [(''owner'', ''cnwan-operator'')]), (ServiceAt ''shop'' ''web'', fmempty)]"

text \<open>
  A worker deregisters an object only while it handles a deletion event, only after it has
  read the object and found the operator named as its owner, and, for a service or a
  namespace, only after it has seen that nothing is registered in it. This holds for
  any client and any list of events.
\<close>

theorem deregister_guarded:
  assumes "run_state (handleAll c n es) r = (cs, r')" and "DeregisterCall t err \<in> set cs"
  shows "\<exists>pre md post. cs = pre @ [GetCall t (Inr md)] @ (if mayHold t then [ListCall t NextDone] else [])
      @ [DeregisterCall t err] @ post
    \<and> isOwnedByOperator md
    \<and> (\<exists>e \<in> set es. ev_EventType e = EventDelete \<and> eventTarget n (ev_Object e) = Some t)"
proof -
  obtain css where css: "cs = concat css" "list_all2 (eventCalls n) es css"
    using handleAll_calls [OF assms(1)] by blast
  from guarded_in_calls [OF this(2)] assms(2) show ?thesis unfolding css(1) by blast
qed

lemma exampleDelete:
  "run_state (handleAll memoryClient exampleWorker
     [mkEvent EventDelete (NamespaceObject ''shop'')]) (fmdrop (ServiceAt ''shop'' ''web'') exampleMemory) =
   ([GetCall (NamespaceAt ''shop'') (Inr (fmap_of_list [(''owner'', ''cnwan-operator'')])),
     ListCall (NamespaceAt ''shop'') NextDone, DeregisterCall (NamespaceAt ''shop'') None], fmempty)"
  by code_simp

theorem deregister_guarded_witness:
  "\<exists>pre md post. fst (run_state (handleAll memoryClient exampleWorker
       [mkEvent EventDelete (NamespaceObject ''shop'')]) (fmdrop (ServiceAt ''shop'' ''web'') exampleMemory)) =
     pre @ [GetCall (NamespaceAt ''shop'') (Inr md)] @ [ListCall (NamespaceAt ''shop'') NextDone]
      @ [DeregisterCall (NamespaceAt ''shop'') None] @ post \<and> isOwnedByOperator md"
  using deregister_guarded [OF exampleDelete, of "NamespaceAt ''shop''" None] unfolding exampleDelete
  by auto

text \<open>
  C24. A worker never touches another namespace: whatever events it is given, every call
  points into its own namespace and the rest of the registry stays as it was.
\<close>

theorem worker_own_namespace:
  assumes "registryLaws c view" and "run_state (handleAll c n es) r = (cs, r')"
  shows "targetNamespace ` callTarget ` set cs \<subseteq> {nw_namespace n}
    \<and> (\<forall>u. targetNamespace u = nw_namespace n \<or> view r' u = view r u)"
proof -
  obtain css where css: "cs = concat css" "list_all2 (eventCalls n) es css"
    using handleAll_calls [OF assms(2)] by blast
  have own: "targetNamespace (callTarget cl) = nw_namespace n" if "cl \<in> set cs" for cl
    using that css eventCalls_namespace by (auto simp: list_all2_conv_all_nth in_set_conv_nth) metis
  have "view r' u = view r u" if "targetNamespace u \<noteq> nw_namespace n" for u
    using callsOk_namespace [OF handleAll_honest [OF assms], of u] own that by metis
  with own show ?thesis by auto
qed

theorem worker_own_namespace_witness:
  "fmlookup (snd (run_state (handleAll memoryClient (exampleWorker\<lparr>nw_namespace := ''other''\<rparr>)
     [mkEvent EventDelete (NamespaceObject ''shop'')]) exampleMemory)) (NamespaceAt ''shop'') \<noteq> None"
proof -
  let ?w = "exampleWorker\<lparr>nw_namespace := ''other''\<rparr>"
  obtain cs r' where run: "run_state (handleAll memoryClient ?w
     [mkEvent EventDelete (NamespaceObject ''shop'')]) exampleMemory = (cs, r')" by fastforce
  have "fmlookup r' (NamespaceAt ''shop'') = fmlookup exampleMemory (NamespaceAt ''shop'')"
    using worker_own_namespace [OF memoryClient_laws run] by (auto dest: spec [where x = "NamespaceAt ''shop''"])
  then show ?thesis unfolding run snd_conv by (simp add: exampleMemory_def)
qed

text \<open>
  Deletion events leave alone what the operator does not own: in a registry where
  every object lies in registered ones, any list of them keeps that so, and keeps every object
  that does not name the operator as its owner, with its metadata.
\<close>

theorem deletions_keep_foreign:
  assumes "registryLaws c view" and "noOrphans (view r)" and "list_all (\<lambda>e. ev_EventType e = EventDelete) es"
    and "run_state (handleAll c n es) r = (cs, r')"
  shows "noOrphans (view r') \<and> keepsForeign (view r) (view r')"
  by (rule delete_events_kept [OF assms])

lemma exampleMemory_noOrphans: "noOrphans (fmlookup exampleMemory)"
  unfolding noOrphans_def
proof (intro allI impI)
  fix u p
  assume "fmlookup exampleMemory u \<noteq> None" and "parent u = Some p"
  then show "fmlookup exampleMemory p \<noteq> None"
    by (cases u) (auto simp: exampleMemory_def split: if_splits)
qed

theorem deletions_keep_foreign_witness:
  "fmlookup (snd (run_state (handleAll memoryClient exampleWorker
     [mkEvent EventDelete (ServiceObject ''shop'' ''web''), mkEvent EventDelete (NamespaceObject ''shop'')])
     exampleMemory)) (ServiceAt ''shop'' ''web'') = Some fmempty"
proof -
  obtain cs r' where run: "run_state (handleAll memoryClient exampleWorker
     [mkEvent EventDelete (ServiceObject ''shop'' ''web''), mkEvent EventDelete (NamespaceObject ''shop'')])
     exampleMemory = (cs, r')" by fastforce
  have "keepsForeign (fmlookup exampleMemory) (fmlookup r')"
    using deletions_keep_foreign [OF memoryClient_laws exampleMemory_noOrphans _ run] by simp
  moreover have "\<not> isOwnedByOperator fmempty" by (simp add: isOwnedByOperator_def)
  moreover have "fmlookup exampleMemory (ServiceAt ''shop'' ''web'') = Some fmempty" by (simp add: exampleMemory_def)
  ultimately show ?thesis unfolding run snd_conv keepsForeign_def by blast
qed

text \<open>
  A creation or an update asks nobody: it is one registration, whoever owns the object, and
  when that succeeds and the worker's metadata name the operator as owner, so does
  the object, whatever it was before. The metadata of the operator win over those of the
  endpoint.
\<close>

theorem registration_takes_over:
  assumes "registryLaws c view" and "ev_EventType e \<noteq> EventDelete" and "eventTarget n (ev_Object e) = Some t"
    and "isOwnedByOperator (nw_persistentMeta n)"
    and "run_state (handleNamespacedEvent c n e) r = (cs, r')"
  shows "\<exists>opts err. cs = [RegisterCall t opts err]
    \<and> (err \<noteq> None \<or> (\<exists>md. view r' t = Some md \<and> isOwnedByOperator md))"
proof -
  let ?opts = "registerOptions n (ev_Object e)"
  have owner: "fmlookup (givenMetadata ?opts) ''owner'' = Some ''cnwan-operator''"
    using assms(4) by (cases "ev_Object e") (auto simp: isOwnedByOperator_def fmlookup_dom_iff)
  obtain err where cs: "cs = [RegisterCall t ?opts err]"
    using handleNamespacedEvent_calls [OF assms(5)] assms(2,3) by (auto simp: eventCalls_def)
  with handleNamespacedEvent_honest [OF assms(1,5)] have "callOk (view r) (RegisterCall t ?opts err) (view r')" by simp
  then have "err \<noteq> None \<or> (\<exists>md. view r' t = Some md \<and> isOwnedByOperator md)"
    using registered_carries [OF _ owner] by (cases err) (auto simp: isOwnedByOperator_def)
  with cs show ?thesis by blast
qed

theorem registration_takes_over_witness:
  "\<exists>md. fmlookup (snd (run_state (handleNamespacedEvent memoryClient exampleWorker
     (mkEvent EventUpdate (ServiceObject ''shop'' ''web''))) exampleMemory)) (ServiceAt ''shop'' ''web'') = Some md
   \<and> isOwnedByOperator md"
proof -
  obtain cs r' where run: "run_state (handleNamespacedEvent memoryClient exampleWorker
     (mkEvent EventUpdate (ServiceObject ''shop'' ''web''))) exampleMemory = (cs, r')" by fastforce
  have "isOwnedByOperator (nw_persistentMeta exampleWorker)"
    by (simp add: exampleWorker_def isOwnedByOperator_def)
  moreover have "RegisterCall t opts err \<in> set cs \<Longrightarrow> err = None" for t opts err
    using run by (auto simp: handleNamespacedEvent_def handleCreateUpdate_def registerAt_def memoryClient_def)
  ultimately show ?thesis
    using registration_takes_over [OF memoryClient_laws _ _ _ run] run
    by (auto simp: exampleWorker_def)
qed

end
