(* ===== verification/Event_Dispatcher.thy ===== *)
theory Event_Dispatcher
  imports Namespace_Worker
begin

text \<open>
  The dispatcher of events (package \<open>pkg/serviceregistry\<close>, \<open>events_handler.go\<close>) with
  the goroutines of its workers, as a labelled step relation. \<open>WatchForEvents\<close> is the
  dispatcher, \<open>handleNamespacedEvents\<close> each worker; both choose freely among the ready
  cases of their \<open>select\<close>. The time that passes between two steps is arbitrary.
\<close>

section \<open>Channels\<close>

text \<open>
  A buffered channel is the list of the values in its buffer: a send needs a free place, a
  receive a value. The contract says that values come out once each, in the order of the sends.
\<close>

definition eventsChanSize :: nat where
  "eventsChanSize = 25"

definition chanSend :: "'a list \<Rightarrow> 'a \<Rightarrow> 'a list option" where
  "chanSend q x = (if length q < eventsChanSize then Some (q @ [x]) else None)"

fun chanRecv :: "'a list \<Rightarrow> ('a \<times> 'a list) option" where
  "chanRecv [] = None"
| "chanRecv (x # q) = Some (x, q)"

locale fifo_channel =
  fixes send :: "'q \<Rightarrow> 'a \<Rightarrow> 'q option"
    and recv :: "'q \<Rightarrow> ('a \<times> 'q) option"
    and buffer :: "'q \<Rightarrow> 'a list"
    and capacity :: nat
  assumes send_buffer: "send q x = Some q' \<Longrightarrow> buffer q' = buffer q @ [x] \<and> length (buffer q') \<le> capacity"
    and send_blocks: "send q x = None \<longleftrightarrow> capacity \<le> length (buffer q)"
    and recv_buffer: "recv q = Some (x, q') \<Longrightarrow> buffer q = x # buffer q'"
    and recv_blocks: "recv q = None \<longleftrightarrow> buffer q = []"
begin

text \<open>What was received and what is in the buffer is what was sent, and a step keeps that.\<close>

lemma send_keeps_history:
  "received @ buffer q = sent \<Longrightarrow> send q x = Some q' \<Longrightarrow> received @ buffer q' = sent @ [x]"
  using send_buffer by auto

lemma recv_keeps_history:
  "received @ buffer q = sent \<Longrightarrow> recv q = Some (x, q') \<Longrightarrow> (received @ [x]) @ buffer q' = sent"
  using recv_buffer by fastforce

lemma recv_unblocks_send:
  "length (buffer q) \<le> capacity \<Longrightarrow> recv q = Some (x, q') \<Longrightarrow> send q' y \<noteq> None"
  using recv_buffer [of q x q'] send_blocks [of q' y] by auto

end

interpretation eventsChan: fifo_channel chanSend chanRecv id eventsChanSize
proof unfold_locales
  show "chanRecv q = Some (x, q') \<Longrightarrow> id q = x # id q'" for q q' :: "'a list" and x
    by (cases q) auto
  show "(chanRecv q = None) = (id q = [])" for q :: "'a list"
    by (cases q) auto
qed (auto simp: chanSend_def split: if_splits)

section \<open>State\<close>

text \<open>
  A worker lives in \<open>d_pool\<close> from its creation on, also after it was removed from the map
  \<open>e.workers\<close>, which holds indices of the pool. \<open>wd_lastEvent\<close> is \<open>None\<close> for the
  zero time. \<open>wd_canceled\<close> is set by \<open>canc\<close>; the context is done, too, when the main
  context is, as it derives from it. Times are in nanoseconds.
\<close>

datatype workerStatus = Idle | Handling event | Exited

record namespaceWorkerData =
  wd_namespace :: string
  wd_queue :: "event list"
  wd_canceled :: bool
  wd_lastEvent :: "int option"
  wd_status :: workerStatus

datatype dispatcherPc = Selecting | Sending nat event | Waiting | Returned

record dispatcher =
  d_now :: int
  d_mainDone :: bool
  d_pc :: dispatcherPc
  d_workers :: "nat gomap"
  d_pool :: "namespaceWorkerData list"
  d_waitGroup :: int

definition maximumIdleDuration :: int where
  "maximumIdleDuration = 5 * 60 * 1000000000"

definition newEventHandler :: dispatcher where
  "newEventHandler = \<lparr>d_now = 0, d_mainDone = False, d_pc = Selecting, d_workers = fmempty,
     d_pool = [], d_waitGroup = 0\<rparr>"

section \<open>Operations\<close>

definition getOrCreateNamespaceWorker :: "dispatcher \<Rightarrow> string \<Rightarrow> nat \<times> dispatcher" where
  "getOrCreateNamespaceWorker s name =
     (case fmlookup (d_workers s) name of
        Some i \<Rightarrow> (i, s)
      | None \<Rightarrow>
          let data = \<lparr>wd_namespace = name, wd_queue = [], wd_canceled = False, wd_lastEvent = None,
                      wd_status = Idle\<rparr>;
              i = length (d_pool s)
          in (i, s\<lparr>d_pool := d_pool s @ [data], d_workers := fmupd name i (d_workers s),
                   d_waitGroup := d_waitGroup s + 1\<rparr>))"

definition setWorker :: "nat \<Rightarrow> namespaceWorkerData \<Rightarrow> dispatcher \<Rightarrow> dispatcher" where
  "setWorker i w s = s\<lparr>d_pool := (d_pool s)[i := w]\<rparr>"

text \<open>\<open>canc\<close> of the workers with the given indices.\<close>

definition cancelWorkers :: "nat fset \<Rightarrow> namespaceWorkerData list \<Rightarrow> namespaceWorkerData list" where
  "cancelWorkers is ws =
     map (\<lambda>(i, w). if i |\<in>| is then w\<lparr>wd_canceled := True\<rparr> else w) (List.enumerate 0 ws)"

definition exceedsIdle :: "int \<Rightarrow> namespaceWorkerData \<Rightarrow> bool" where
  "exceedsIdle now w =
     (case wd_lastEvent w of None \<Rightarrow> True | Some t \<Rightarrow> maximumIdleDuration < now - t)"

definition toRemove :: "dispatcher \<Rightarrow> nat gomap" where
  "toRemove s = fmfilter (\<lambda>name.
     case fmlookup (d_workers s) name of
       None \<Rightarrow> False | Some i \<Rightarrow> exceedsIdle (d_now s) (d_pool s ! i)) (d_workers s)"

definition cleanUp :: "dispatcher \<Rightarrow> dispatcher" where
  "cleanUp s = s\<lparr>d_workers := fmdrop_fset (fmdom (toRemove s)) (d_workers s),
     d_pool := cancelWorkers (fmran (toRemove s)) (d_pool s)\<rparr>"

definition cancelRequested :: "dispatcher \<Rightarrow> dispatcher" where
  "cancelRequested s =
     (if d_workers s = fmempty then s\<lparr>d_pc := Returned\<rparr>
      else s\<lparr>d_pool := cancelWorkers (fmran (d_workers s)) (d_pool s), d_pc := Waiting\<rparr>)"

section \<open>Steps\<close>

datatype action =
    Tick int | MainCancel
  | Receive event | SendTo nat event | CleanUp | Stop | WaitDone
  | Take nat event | Finish nat | Exit nat

inductive dispatchStep :: "dispatcher \<Rightarrow> action \<Rightarrow> dispatcher \<Rightarrow> bool" where
  tick: "0 \<le> t \<Longrightarrow> dispatchStep s (Tick t) (s\<lparr>d_now := d_now s + t\<rparr>)"
| mainCancel: "dispatchStep s MainCancel (s\<lparr>d_mainDone := True\<rparr>)"
| skip: "d_pc s = Selecting \<Longrightarrow> getNamespaceNameFromEventObject e = '''' \<Longrightarrow> dispatchStep s (Receive e) s"
| receive: "d_pc s = Selecting \<Longrightarrow> getNamespaceNameFromEventObject e \<noteq> '''' \<Longrightarrow>
    getOrCreateNamespaceWorker s (getNamespaceNameFromEventObject e) = (i, s1) \<Longrightarrow>
    dispatchStep s (Receive e) (s1\<lparr>d_pc := Sending i e\<rparr>)"
| send: "d_pc s = Sending i e \<Longrightarrow> chanSend (wd_queue (d_pool s ! i)) e = Some q \<Longrightarrow>
    dispatchStep s (SendTo i e)
      ((setWorker i ((d_pool s ! i)\<lparr>wd_queue := q, wd_lastEvent := Some (d_now s)\<rparr>) s)\<lparr>d_pc := Selecting\<rparr>)"
| cleanUpTicker: "d_pc s = Selecting \<Longrightarrow> dispatchStep s CleanUp (cleanUp s)"
| stop: "d_pc s = Selecting \<Longrightarrow> d_mainDone s \<Longrightarrow> dispatchStep s Stop (cancelRequested s)"
| waitDone: "d_pc s = Waiting \<Longrightarrow> d_waitGroup s = 0 \<Longrightarrow> dispatchStep s WaitDone (s\<lparr>d_pc := Returned\<rparr>)"
| take: "i < length (d_pool s) \<Longrightarrow> wd_status (d_pool s ! i) = Idle \<Longrightarrow>
    chanRecv (wd_queue (d_pool s ! i)) = Some (e, q) \<Longrightarrow>
    dispatchStep s (Take i e) (setWorker i ((d_pool s ! i)\<lparr>wd_queue := q, wd_status := Handling e\<rparr>) s)"
| finish: "i < length (d_pool s) \<Longrightarrow> wd_status (d_pool s ! i) = Handling e \<Longrightarrow>
    dispatchStep s (Finish i) (setWorker i ((d_pool s ! i)\<lparr>wd_status := Idle\<rparr>) s)"
| exit: "i < length (d_pool s) \<Longrightarrow> wd_status (d_pool s ! i) = Idle \<Longrightarrow>
    wd_canceled (d_pool s ! i) \<or> d_mainDone s \<Longrightarrow>
    dispatchStep s (Exit i)
      ((setWorker i ((d_pool s ! i)\<lparr>wd_status := Exited\<rparr>) s)\<lparr>d_waitGroup := d_waitGroup s - 1\<rparr>)"

inductive_cases dispatchStepE: "dispatchStep s a s'"
inductive_simps dispatchStep_simps:
  "dispatchStep s (Tick t) s'" "dispatchStep s MainCancel s'" "dispatchStep s (Receive e) s'"
  "dispatchStep s (SendTo i e) s'" "dispatchStep s CleanUp s'" "dispatchStep s Stop s'"
  "dispatchStep s WaitDone s'" "dispatchStep s (Take i e) s'" "dispatchStep s (Finish i) s'"
  "dispatchStep s (Exit i) s'"

inductive execution :: "dispatcher \<Rightarrow> action list \<Rightarrow> dispatcher \<Rightarrow> bool" where
  start: "execution s [] s"
| step: "execution s tr s1 \<Longrightarrow> dispatchStep s1 a s2 \<Longrightarrow> execution s (tr @ [a]) s2"

text \<open>The step relation is a partial function of the action; this one computes it.\<close>

definition guarded :: "bool \<Rightarrow> 'a \<Rightarrow> 'a option" where
  "guarded b x = (if b then Some x else None)"

fun fire :: "action \<Rightarrow> dispatcher \<Rightarrow> dispatcher option" where
  "fire (Tick t) s = guarded (0 \<le> t) (s\<lparr>d_now := d_now s + t\<rparr>)"
| "fire MainCancel s = Some (s\<lparr>d_mainDone := True\<rparr>)"
| "fire (Receive e) s = guarded (d_pc s = Selecting)
     (if getNamespaceNameFromEventObject e = '''' then s
      else let (i, s1) = getOrCreateNamespaceWorker s (getNamespaceNameFromEventObject e)
           in s1\<lparr>d_pc := Sending i e\<rparr>)"
| "fire (SendTo i e) s =
     (if d_pc s = Sending i e
      then map_option (\<lambda>q. (setWorker i ((d_pool s ! i)\<lparr>wd_queue := q, wd_lastEvent := Some (d_now s)\<rparr>) s)\<lparr>d_pc := Selecting\<rparr>)
        (chanSend (wd_queue (d_pool s ! i)) e)
      else None)"
| "fire CleanUp s = guarded (d_pc s = Selecting) (cleanUp s)"
| "fire Stop s = guarded (d_pc s = Selecting \<and> d_mainDone s) (cancelRequested s)"
| "fire WaitDone s = guarded (d_pc s = Waiting \<and> d_waitGroup s = 0) (s\<lparr>d_pc := Returned\<rparr>)"
| "fire (Take i e) s =
     (if i < length (d_pool s) \<and> wd_status (d_pool s ! i) = Idle
      then (case chanRecv (wd_queue (d_pool s ! i)) of
              None \<Rightarrow> None
            | Some (e', q) \<Rightarrow> guarded (e' = e)
                (setWorker i ((d_pool s ! i)\<lparr>wd_queue := q, wd_status := Handling e\<rparr>) s))
      else None)"
| "fire (Finish i) s =
     (if i < length (d_pool s)
      then (case wd_status (d_pool s ! i) of
              Handling e \<Rightarrow> Some (setWorker i ((d_pool s ! i)\<lparr>wd_status := Idle\<rparr>) s)
            | _ \<Rightarrow> None)
      else None)"
| "fire (Exit i) s =
     guarded (i < length (d_pool s) \<and> wd_status (d_pool s ! i) = Idle \<and> (wd_canceled (d_pool s ! i) \<or> d_mainDone s))
       ((setWorker i ((d_pool s ! i)\<lparr>wd_status := Exited\<rparr>) s)\<lparr>d_waitGroup := d_waitGroup s - 1\<rparr>)"

fun fireAll :: "action list \<Rightarrow> dispatcher \<Rightarrow> dispatcher option" where
  "fireAll [] s = Some s"
| "fireAll (a # as) s = (case fire a s of None \<Rightarrow> None | Some s1 \<Rightarrow> fireAll as s1)"

lemma fire_iff: "fire a s = Some s' \<longleftrightarrow> dispatchStep s a s'"
  by (cases a) (auto simp: dispatchStep_simps guarded_def split: if_splits option.splits prod.splits workerStatus.splits)

lemma execution_cons:
  assumes "execution s1 tr s2" and "dispatchStep s a s1"
  shows "execution s (a # tr) s2"
  using assms
proof (induction rule: execution.induct)
  case (start s1)
  then show ?case using execution.step [OF execution.start] by fastforce
next
  case (step s1 tr s2 b s3)
  then show ?case using execution.step [of s "a # tr" s2 b s3] by simp
qed

lemma fireAll_execution: "fireAll as s = Some s' \<Longrightarrow> execution s as s'"
  by (induction as arbitrary: s) (auto intro: execution.start execution_cons simp: fire_iff split: option.splits)

lemma execution_append: "execution s1 tr' s2 \<Longrightarrow> execution s tr s1 \<Longrightarrow> execution s (tr @ tr') s2"
  by (induction rule: execution.induct) (auto intro: execution.step simp flip: append_assoc)

section \<open>Invariants\<close>

definition workerOk :: "dispatcher \<Rightarrow> namespaceWorkerData \<Rightarrow> bool" where
  "workerOk s w \<longleftrightarrow>
     wd_namespace w \<noteq> '''' \<and> length (wd_queue w) \<le> eventsChanSize
     \<and> (\<forall>e \<in> set (wd_queue w). getNamespaceNameFromEventObject e = wd_namespace w)
     \<and> (\<forall>e. wd_status w = Handling e \<longrightarrow> getNamespaceNameFromEventObject e = wd_namespace w)
     \<and> (wd_status w = Exited \<longrightarrow> wd_canceled w \<or> d_mainDone s)
     \<and> (\<forall>t. wd_lastEvent w = Some t \<longrightarrow> t \<le> d_now s)"

definition workersInv :: "dispatcher \<Rightarrow> bool" where
  "workersInv s \<longleftrightarrow> (\<forall>i < length (d_pool s). workerOk s (d_pool s ! i))"

text \<open>The map holds exactly the workers that were not cancelled, each under its namespace.\<close>

definition mapInv :: "dispatcher \<Rightarrow> bool" where
  "mapInv s \<longleftrightarrow>
     (\<forall>name i. fmlookup (d_workers s) name = Some i \<longrightarrow>
        i < length (d_pool s) \<and> wd_namespace (d_pool s ! i) = name
        \<and> (wd_canceled (d_pool s ! i) \<longrightarrow> d_pc s = Waiting \<or> d_pc s = Returned)
        \<and> (wd_lastEvent (d_pool s ! i) = None \<longrightarrow> (\<exists>e. d_pc s = Sending i e)))
     \<and> (\<forall>i < length (d_pool s). \<not> wd_canceled (d_pool s ! i) \<longrightarrow>
          fmlookup (d_workers s) (wd_namespace (d_pool s ! i)) = Some i)"

definition pcInv :: "dispatcher \<Rightarrow> bool" where
  "pcInv s \<longleftrightarrow>
     (case d_pc s of
        Selecting \<Rightarrow> True
      | Sending i e \<Rightarrow> fmlookup (d_workers s) (getNamespaceNameFromEventObject e) = Some i
      | Waiting \<Rightarrow> d_mainDone s
      | Returned \<Rightarrow> d_mainDone s)"

definition running :: "namespaceWorkerData \<Rightarrow> bool" where
  "running w \<longleftrightarrow> wd_status w \<noteq> Exited"

definition countInv :: "dispatcher \<Rightarrow> bool" where
  "countInv s \<longleftrightarrow> d_waitGroup s = int (length (filter running (d_pool s)))"

definition returnInv :: "dispatcher \<Rightarrow> bool" where
  "returnInv s \<longleftrightarrow> (d_pc s = Returned \<longrightarrow> d_workers s = fmempty \<or> filter running (d_pool s) = [])"

definition dispatcherInv :: "dispatcher \<Rightarrow> bool" where
  "dispatcherInv s \<longleftrightarrow> workersInv s \<and> mapInv s \<and> pcInv s \<and> countInv s \<and> returnInv s"

lemma setWorker_simps [simp]:
  "d_now (setWorker i w s) = d_now s" "d_mainDone (setWorker i w s) = d_mainDone s"
  "d_pc (setWorker i w s) = d_pc s" "d_workers (setWorker i w s) = d_workers s"
  "d_pool (setWorker i w s) = (d_pool s)[i := w]" "d_waitGroup (setWorker i w s) = d_waitGroup s"
  by (simp_all add: setWorker_def)

lemma length_cancelWorkers [simp]: "length (cancelWorkers is ws) = length ws"
  by (simp add: cancelWorkers_def)

lemma nth_cancelWorkers [simp]:
  "i < length ws \<Longrightarrow> cancelWorkers is ws ! i = (if i |\<in>| is then (ws ! i)\<lparr>wd_canceled := True\<rparr> else ws ! i)"
  by (simp add: cancelWorkers_def nth_enumerate_eq)

lemma getOrCreate_cases:
  assumes "getOrCreateNamespaceWorker s name = (i, s1)"
  obtains (old) "fmlookup (d_workers s) name = Some i" "s1 = s"
    | (new) "fmlookup (d_workers s) name = None" "i = length (d_pool s)"
        "s1 = s\<lparr>d_pool := d_pool s @ [\<lparr>wd_namespace = name, wd_queue = [], wd_canceled = False,
                  wd_lastEvent = None, wd_status = Idle\<rparr>],
                d_workers := fmupd name i (d_workers s), d_waitGroup := d_waitGroup s + 1\<rparr>"
  using assms by (auto simp: getOrCreateNamespaceWorker_def Let_def split: option.splits)

lemma filter_length_update:
  "i < length xs \<Longrightarrow> int (length (filter P (xs[i := x]))) =
     int (length (filter P xs)) - (if P (xs ! i) then 1 else 0) + (if P x then 1 else 0)"
proof (induction xs arbitrary: i)
  case (Cons y ys)
  show ?case
  proof (cases i)
    case (Suc j)
    with Cons.prems Cons.IH [of j] show ?thesis by (simp split: if_split_asm)
  qed simp
qed simp

lemma filter_running_cancelWorkers: "length (filter running (cancelWorkers is ws)) = length (filter running ws)"
proof -
  have "map running (cancelWorkers is ws) = map running ws"
    by (rule nth_equalityI) (auto simp: running_def)
  then have "filter id (map running (cancelWorkers is ws)) = filter id (map running ws)" by simp
  then show ?thesis by (simp add: filter_map) (metis length_map)
qed

lemma chanSend_Some: "chanSend q x = Some q' \<longleftrightarrow> length q < eventsChanSize \<and> q' = q @ [x]"
  by (auto simp: chanSend_def)

lemma chanRecv_Some: "chanRecv q = Some (x, q') \<longleftrightarrow> q = x # q'"
  by (cases q) auto

lemma workersInv_step:
  assumes "dispatchStep s a s'" and "workersInv s" and "mapInv s" and "pcInv s"
  shows "workersInv s'"
  using assms(1)
proof (cases rule: dispatchStep.cases)
  case (receive e i s1)
  then show ?thesis
    using assms(2) by (elim getOrCreate_cases)
      (auto simp: workersInv_def workerOk_def nth_append less_Suc_eq)
next
  case (send i e q)
  then show ?thesis
    using assms(2-4)
    by (auto simp: workersInv_def workerOk_def mapInv_def pcInv_def chanSend_Some nth_list_update)
next
  case (take i e q)
  then show ?thesis
    using assms(2) by (auto simp: workersInv_def workerOk_def chanRecv_Some nth_list_update)
qed (use assms(2) in \<open>force simp: workersInv_def workerOk_def nth_list_update cleanUp_def cancelRequested_def\<close>)+

lemma mapInvD:
  assumes "mapInv s" and "fmlookup (d_workers s) name = Some i"
  shows "i < length (d_pool s)" "wd_namespace (d_pool s ! i) = name"
    "wd_canceled (d_pool s ! i) \<Longrightarrow> d_pc s = Waiting \<or> d_pc s = Returned"
    "wd_lastEvent (d_pool s ! i) = None \<Longrightarrow> \<exists>e. d_pc s = Sending i e"
  using assms unfolding mapInv_def by blast+

lemma mapInvD_live:
  "mapInv s \<Longrightarrow> i < length (d_pool s) \<Longrightarrow> \<not> wd_canceled (d_pool s ! i) \<Longrightarrow>
     fmlookup (d_workers s) (wd_namespace (d_pool s ! i)) = Some i"
  unfolding mapInv_def by blast

lemma mapInvI:
  assumes "\<And>name i. fmlookup (d_workers s) name = Some i \<Longrightarrow>
        i < length (d_pool s) \<and> wd_namespace (d_pool s ! i) = name
        \<and> (wd_canceled (d_pool s ! i) \<longrightarrow> d_pc s = Waiting \<or> d_pc s = Returned)
        \<and> (wd_lastEvent (d_pool s ! i) = None \<longrightarrow> (\<exists>e. d_pc s = Sending i e))"
    and "\<And>i. i < length (d_pool s) \<Longrightarrow> \<not> wd_canceled (d_pool s ! i) \<Longrightarrow>
          fmlookup (d_workers s) (wd_namespace (d_pool s ! i)) = Some i"
  shows "mapInv s"
  using assms unfolding mapInv_def by blast

lemma mapInvD_selecting:
  assumes "mapInv s" and "fmlookup (d_workers s) name = Some i" and "d_pc s = Selecting"
  shows "\<not> wd_canceled (d_pool s ! i)" "wd_lastEvent (d_pool s ! i) \<noteq> None"
  using mapInvD(3,4) [OF assms(1,2)] assms(3) by auto

lemma mapInv_cong:
  assumes "mapInv s" and "d_workers s' = d_workers s" and "length (d_pool s') = length (d_pool s)"
    and "\<And>i. i < length (d_pool s) \<Longrightarrow> wd_namespace (d_pool s' ! i) = wd_namespace (d_pool s ! i)
           \<and> wd_canceled (d_pool s' ! i) = wd_canceled (d_pool s ! i)
           \<and> wd_lastEvent (d_pool s' ! i) = wd_lastEvent (d_pool s ! i)"
    and "d_pc s' = d_pc s \<or> d_pc s = Waiting \<and> d_pc s' = Returned"
  shows "mapInv s'"
proof (rule mapInvI)
  fix name i
  assume "fmlookup (d_workers s') name = Some i"
  then have look: "fmlookup (d_workers s) name = Some i" using assms(2) by simp
  from mapInvD [OF assms(1) look] assms(3,5) assms(4) [of i]
  show "i < length (d_pool s') \<and> wd_namespace (d_pool s' ! i) = name
      \<and> (wd_canceled (d_pool s' ! i) \<longrightarrow> d_pc s' = Waiting \<or> d_pc s' = Returned)
      \<and> (wd_lastEvent (d_pool s' ! i) = None \<longrightarrow> (\<exists>e. d_pc s' = Sending i e))" by auto
next
  fix i
  assume "i < length (d_pool s')" "\<not> wd_canceled (d_pool s' ! i)"
  with mapInvD_live [OF assms(1), of i] assms(2,3) assms(4) [of i]
  show "fmlookup (d_workers s') (wd_namespace (d_pool s' ! i)) = Some i" by simp
qed

lemma mapInv_new:
  assumes "mapInv s" and "d_pc s = Selecting" and "fmlookup (d_workers s) name = None"
  shows "mapInv (s\<lparr>d_pool := d_pool s @ [\<lparr>wd_namespace = name, wd_queue = [], wd_canceled = False,
                  wd_lastEvent = None, wd_status = Idle\<rparr>],
                d_workers := fmupd name (length (d_pool s)) (d_workers s), d_waitGroup := n,
                d_pc := Sending (length (d_pool s)) e\<rparr>)" (is "mapInv ?s")
proof (rule mapInvI)
  fix nm i
  assume "fmlookup (d_workers ?s) nm = Some i"
  then consider "nm = name" "i = length (d_pool s)" | "nm \<noteq> name" "fmlookup (d_workers s) nm = Some i"
    by (auto split: if_splits)
  then show "i < length (d_pool ?s) \<and> wd_namespace (d_pool ?s ! i) = nm
      \<and> (wd_canceled (d_pool ?s ! i) \<longrightarrow> d_pc ?s = Waiting \<or> d_pc ?s = Returned)
      \<and> (wd_lastEvent (d_pool ?s ! i) = None \<longrightarrow> (\<exists>e. d_pc ?s = Sending i e))"
  proof cases
    case 2
    then show ?thesis
      using mapInvD(1,2) [OF assms(1) 2(2)] mapInvD_selecting [OF assms(1) 2(2) assms(2)] by (simp add: nth_append)
  qed simp
next
  fix i
  assume i: "i < length (d_pool ?s)" "\<not> wd_canceled (d_pool ?s ! i)"
  show "fmlookup (d_workers ?s) (wd_namespace (d_pool ?s ! i)) = Some i"
  proof (cases "i = length (d_pool s)")
    case False
    with i have "i < length (d_pool s)" "\<not> wd_canceled (d_pool s ! i)" by (simp_all add: nth_append)
    with mapInvD_live [OF assms(1) this] assms(3) show ?thesis by (auto simp: nth_append)
  qed simp
qed

lemma mapInv_send:
  assumes "mapInv s" and "d_pc s = Sending i e" and "fmlookup (d_workers s) name = Some i"
  shows "mapInv ((setWorker i ((d_pool s ! i)\<lparr>wd_queue := q, wd_lastEvent := Some t\<rparr>) s)\<lparr>d_pc := Selecting\<rparr>)"
    (is "mapInv ?s")
proof (rule mapInvI)
  have i: "i < length (d_pool s)" using mapInvD(1) [OF assms(1,3)] .
  fix nm j
  assume "fmlookup (d_workers ?s) nm = Some j"
  then have "fmlookup (d_workers s) nm = Some j" by simp
  with i mapInvD [OF assms(1) this] assms(2) show "j < length (d_pool ?s) \<and> wd_namespace (d_pool ?s ! j) = nm
      \<and> (wd_canceled (d_pool ?s ! j) \<longrightarrow> d_pc ?s = Waiting \<or> d_pc ?s = Returned)
      \<and> (wd_lastEvent (d_pool ?s ! j) = None \<longrightarrow> (\<exists>e. d_pc ?s = Sending j e))"
    by (auto simp: nth_list_update)
next
  have i: "i < length (d_pool s)" using mapInvD(1) [OF assms(1,3)] .
  fix j
  assume "j < length (d_pool ?s)" "\<not> wd_canceled (d_pool ?s ! j)"
  with i have "j < length (d_pool s)" "\<not> wd_canceled (d_pool s ! j)"
    by (auto simp: nth_list_update split: if_splits)
  from mapInvD_live [OF assms(1) this] i show "fmlookup (d_workers ?s) (wd_namespace (d_pool ?s ! j)) = Some j"
    by (auto simp: nth_list_update)
qed

lemma fmlookup_toRemove:
  "fmlookup (toRemove s) name = Some i \<longleftrightarrow>
     fmlookup (d_workers s) name = Some i \<and> exceedsIdle (d_now s) (d_pool s ! i)"
  by (auto simp: toRemove_def)

lemma fmlookup_cleanUp:
  "fmlookup (d_workers (cleanUp s)) name = Some i \<longleftrightarrow>
     fmlookup (d_workers s) name = Some i \<and> \<not> exceedsIdle (d_now s) (d_pool s ! i)"
  by (auto simp: cleanUp_def fmlookup_dom_iff fmlookup_toRemove)

lemma mapInv_unique: "mapInv s \<Longrightarrow> fmlookup (d_workers s) name = Some i \<Longrightarrow> fmlookup (d_workers s) name' = Some i \<Longrightarrow> name' = name"
  using mapInvD(2) by metis

lemma mapInv_cleanUp:
  assumes "mapInv s" and "d_pc s = Selecting"
  shows "mapInv (cleanUp s)"
proof -
  have removed: "i |\<in>| fmran (toRemove s) \<longleftrightarrow> exceedsIdle (d_now s) (d_pool s ! i)"
    if "fmlookup (d_workers s) name = Some i" for name i
    using that by (auto simp: fmlookup_ran_iff fmlookup_toRemove)
  have pool: "d_pool (cleanUp s) = cancelWorkers (fmran (toRemove s)) (d_pool s)" "d_pc (cleanUp s) = Selecting"
    using assms(2) by (simp_all add: cleanUp_def)
  have a: "i < length (d_pool s) \<and> wd_namespace (d_pool (cleanUp s) ! i) = name
      \<and> \<not> wd_canceled (d_pool (cleanUp s) ! i) \<and> wd_lastEvent (d_pool (cleanUp s) ! i) \<noteq> None"
    if "fmlookup (d_workers (cleanUp s)) name = Some i" for name i
  proof -
    from that have "fmlookup (d_workers s) name = Some i" "\<not> exceedsIdle (d_now s) (d_pool s ! i)"
      by (simp_all add: fmlookup_cleanUp)
    with mapInvD(1,2) [OF assms(1) this(1)] mapInvD_selecting [OF assms(1) this(1) assms(2)] removed [OF this(1)]
    show ?thesis by (simp add: pool)
  qed
  have b: "fmlookup (d_workers (cleanUp s)) (wd_namespace (d_pool (cleanUp s) ! i)) = Some i"
    if "i < length (d_pool s)" "\<not> wd_canceled (d_pool (cleanUp s) ! i)" for i
  proof -
    from that have "i |\<notin>| fmran (toRemove s)" "\<not> wd_canceled (d_pool s ! i)" by (auto simp: pool split: if_splits)
    with mapInvD_live [OF assms(1) that(1)] removed show ?thesis using that(1) by (simp add: fmlookup_cleanUp pool)
  qed
  show ?thesis
    using a b by (intro mapInvI) (fastforce simp: pool(1) simp del: nth_cancelWorkers)+
qed

lemma mapInv_cancel:
  assumes "mapInv s" and "d_pc s = Selecting"
  shows "mapInv (cancelRequested s)"
proof (cases "d_workers s = fmempty")
  case True
  then show ?thesis
    using mapInvD_live [OF assms(1)] by (intro mapInvI) (auto simp: cancelRequested_def)
next
  case False
  have "i |\<in>| fmran (d_workers s)" if "i < length (d_pool s)" "\<not> wd_canceled (d_pool s ! i)" for i
    using mapInvD_live [OF assms(1) that] by (auto simp: fmlookup_ran_iff)
  then show ?thesis
    using False mapInvD(1,2) [OF assms(1)] mapInvD_selecting(2) [OF assms(1) _ assms(2)]
    by (intro mapInvI) (auto simp: cancelRequested_def split: if_split_asm)
qed

lemma mapInv_step:
  assumes "dispatchStep s a s'" and "mapInv s" and "pcInv s"
  shows "mapInv s'"
  using assms(1)
proof (cases rule: dispatchStep.cases)
  case (receive e i s1)
  from receive(5) show ?thesis
  proof (cases rule: getOrCreate_cases)
    case old
    then show ?thesis
      using mapInvD(1,2) [OF assms(2)] mapInvD_selecting [OF assms(2) _ receive(3)] mapInvD_live [OF assms(2)] receive(2)
      by (intro mapInvI) (fastforce dest: mapInvD_selecting)+
  next
    case new
    then show ?thesis using mapInv_new [OF assms(2) receive(3) new(1)] receive(2) by simp
  qed
next
  case (send i e q)
  then show ?thesis using assms(3) mapInv_send [OF assms(2) send(3)] by (auto simp: pcInv_def)
qed (auto intro: mapInv_cleanUp [OF assms(2)] mapInv_cancel [OF assms(2)],
     (rule mapInv_cong [OF assms(2)]; auto simp: nth_list_update)+)

lemma pcInv_step:
  assumes "dispatchStep s a s'" and "pcInv s"
  shows "pcInv s'"
  using assms(1)
proof (cases rule: dispatchStep.cases)
  case (receive e i s1)
  from receive(5) show ?thesis
    by (cases rule: getOrCreate_cases) (auto simp: receive(2) pcInv_def)
qed (use assms(2) in \<open>auto simp: pcInv_def cleanUp_def cancelRequested_def split: dispatcherPc.splits\<close>)

lemma countInv_step:
  assumes "dispatchStep s a s'" and "countInv s" and "pcInv s" and "mapInv s"
  shows "countInv s'"
  using assms(1)
proof (cases rule: dispatchStep.cases)
  case (receive e i s1)
  from receive(5) show ?thesis
    using assms(2) by (cases rule: getOrCreate_cases) (auto simp: receive(2) countInv_def running_def)
next
  case (send i e q)
  then have "i < length (d_pool s)" using assms(3,4) by (auto simp: pcInv_def mapInv_def)
  with send assms(2) show ?thesis by (simp add: countInv_def filter_length_update running_def)
next
  case cleanUpTicker
  then show ?thesis using assms(2) by (simp add: countInv_def cleanUp_def filter_running_cancelWorkers)
next
  case stop
  then show ?thesis using assms(2) by (simp add: countInv_def cancelRequested_def filter_running_cancelWorkers)
qed (use assms(2) in \<open>auto simp: countInv_def running_def filter_length_update\<close>)

lemma returnInv_step:
  assumes "dispatchStep s a s'" and "returnInv s" and "countInv s" and "countInv s'"
  shows "returnInv s'"
  using assms(1)
proof (cases rule: dispatchStep.cases)
  case (receive e i s1)
  from receive(5) show ?thesis by (cases rule: getOrCreate_cases) (auto simp: receive(2) returnInv_def)
qed (use assms(2-) in \<open>auto simp: returnInv_def countInv_def running_def cleanUp_def cancelRequested_def
      filter_empty_conv set_update_subset_insert [THEN subsetD] dest!: set_update_subset_insert [THEN subsetD]\<close>)

lemma dispatcherInv_new: "dispatcherInv newEventHandler"
  by (simp add: dispatcherInv_def newEventHandler_def workersInv_def mapInv_def pcInv_def countInv_def returnInv_def)

lemma dispatcherInv_step: "dispatchStep s a s' \<Longrightarrow> dispatcherInv s \<Longrightarrow> dispatcherInv s'"
  unfolding dispatcherInv_def
  by (blast intro: workersInv_step mapInv_step pcInv_step countInv_step returnInv_step)

lemma dispatcherInv_execution: "execution s tr s' \<Longrightarrow> dispatcherInv s \<Longrightarrow> dispatcherInv s'"
  by (induction rule: execution.induct) (auto intro: dispatcherInv_step)

section \<open>The history of events\<close>

text \<open>What a list of actions received for some namespace, sent to a worker, and took from its queue.\<close>

definition received :: "action list \<Rightarrow> event list" where
  "received = List.map_filter (\<lambda>a. case a of
     Receive e \<Rightarrow> if getNamespaceNameFromEventObject e = '''' then None else Some e | _ \<Rightarrow> None)"

definition sentAll :: "action list \<Rightarrow> event list" where
  "sentAll = List.map_filter (\<lambda>a. case a of SendTo i e \<Rightarrow> Some e | _ \<Rightarrow> None)"

definition sentTo :: "nat \<Rightarrow> action list \<Rightarrow> event list" where
  "sentTo j = List.map_filter (\<lambda>a. case a of SendTo i e \<Rightarrow> if i = j then Some e else None | _ \<Rightarrow> None)"

definition takenBy :: "nat \<Rightarrow> action list \<Rightarrow> event list" where
  "takenBy j = List.map_filter (\<lambda>a. case a of Take i e \<Rightarrow> if i = j then Some e else None | _ \<Rightarrow> None)"

lemmas history_defs = received_def sentAll_def sentTo_def takenBy_def

lemma map_filter_append: "List.map_filter f (xs @ ys) = List.map_filter f xs @ List.map_filter f ys"
  by (simp add: List.map_filter_def)

lemma history_append [simp]:
  "received (xs @ ys) = received xs @ received ys" "sentAll (xs @ ys) = sentAll xs @ sentAll ys"
  "sentTo j (xs @ ys) = sentTo j xs @ sentTo j ys" "takenBy j (xs @ ys) = takenBy j xs @ takenBy j ys"
  by (simp_all add: history_defs map_filter_append)

lemma history_single [simp]:
  "received [a] = (case a of
     Receive e \<Rightarrow> if getNamespaceNameFromEventObject e = '''' then [] else [e] | _ \<Rightarrow> [])"
  "sentAll [a] = (case a of SendTo i e \<Rightarrow> [e] | _ \<Rightarrow> [])"
  "sentTo j [a] = (case a of SendTo i e \<Rightarrow> if i = j then [e] else [] | _ \<Rightarrow> [])"
  "takenBy j [a] = (case a of Take i e \<Rightarrow> if i = j then [e] else [] | _ \<Rightarrow> [])"
  by (simp_all add: history_defs List.map_filter_def split: action.split)

lemma history_Nil [simp]: "received [] = []" "sentAll [] = []" "sentTo j [] = []" "takenBy j [] = []"
  by (simp_all add: history_defs List.map_filter_def)

definition pending :: "dispatcher \<Rightarrow> event list" where
  "pending s = (case d_pc s of Sending i e \<Rightarrow> [e] | _ \<Rightarrow> [])"

definition queueInv :: "action list \<Rightarrow> dispatcher \<Rightarrow> bool" where
  "queueInv tr s \<longleftrightarrow>
     (\<forall>i < length (d_pool s). takenBy i tr @ wd_queue (d_pool s ! i) = sentTo i tr
        \<and> (\<forall>e \<in> set (sentTo i tr). getNamespaceNameFromEventObject e = wd_namespace (d_pool s ! i)))
     \<and> (\<forall>i \<ge> length (d_pool s). sentTo i tr = [] \<and> takenBy i tr = [])"

definition orderInv :: "action list \<Rightarrow> dispatcher \<Rightarrow> bool" where
  "orderInv tr s \<longleftrightarrow> sentAll tr @ pending s = received tr"

lemma orderInv_step:
  assumes "dispatchStep s a s'" and "orderInv tr s"
  shows "orderInv (tr @ [a]) s'"
  using assms(1)
proof (cases rule: dispatchStep.cases)
  case (receive e i s1)
  from receive(5) show ?thesis
    using assms(2) receive(1-4) by (cases rule: getOrCreate_cases) (auto simp: orderInv_def pending_def)
next
  case (send i e q)
  then show ?thesis using assms(2) by (auto simp: orderInv_def pending_def)
next
  case stop
  then show ?thesis using assms(2) by (auto simp: orderInv_def pending_def cancelRequested_def)
qed (use assms(2) in \<open>auto simp: orderInv_def pending_def cleanUp_def\<close>)

lemma queueInvD:
  assumes "queueInv tr s"
  shows "i < length (d_pool s) \<Longrightarrow> takenBy i tr @ wd_queue (d_pool s ! i) = sentTo i tr"
    and "i < length (d_pool s) \<Longrightarrow> e \<in> set (sentTo i tr) \<Longrightarrow>
      getNamespaceNameFromEventObject e = wd_namespace (d_pool s ! i)"
    and "length (d_pool s) \<le> i \<Longrightarrow> sentTo i tr = []" "length (d_pool s) \<le> i \<Longrightarrow> takenBy i tr = []"
  using assms unfolding queueInv_def by blast+

lemma queueInv_cong:
  assumes "queueInv tr s" and "length (d_pool s') = length (d_pool s)"
    and "\<And>i. i < length (d_pool s) \<Longrightarrow> wd_namespace (d_pool s' ! i) = wd_namespace (d_pool s ! i)
           \<and> wd_queue (d_pool s' ! i) = wd_queue (d_pool s ! i)"
    and "\<And>i. sentTo i [a] = []" and "\<And>i. takenBy i [a] = []"
  shows "queueInv (tr @ [a]) s'"
  using assms unfolding queueInv_def history_append by simp

lemma queueInv_step:
  assumes "dispatchStep s a s'" and "queueInv tr s" and "mapInv s" and "pcInv s"
  shows "queueInv (tr @ [a]) s'"
  using assms(1)
proof (cases rule: dispatchStep.cases)
  case (receive e i s1)
  from receive(5) show ?thesis
  proof (cases rule: getOrCreate_cases)
    case old
    then show ?thesis using receive(1,2) by (intro queueInv_cong [OF assms(2)]) auto
  next
    case new
    then show ?thesis
      using queueInvD [OF assms(2)] receive(1,2) by (auto simp: queueInv_def nth_append less_Suc_eq)
  qed
next
  case (send i e q)
  have look: "fmlookup (d_workers s) (getNamespaceNameFromEventObject e) = Some i"
    using assms(4) send(3) by (simp add: pcInv_def)
  note i = mapInvD(1,2) [OF assms(3) look]
  have "takenBy i tr @ q = sentTo i tr @ [e]"
    using eventsChan.send_keeps_history [OF _ send(4)] queueInvD(1) [OF assms(2) i(1)] by simp
  then show ?thesis
    using queueInvD [OF assms(2)] send(1,2) i by (auto simp: queueInv_def nth_list_update)
next
  case (take i e q)
  have "(takenBy i tr @ [e]) @ q = sentTo i tr"
    using eventsChan.recv_keeps_history [OF _ take(5)] queueInvD(1) [OF assms(2) take(3)] by simp
  then show ?thesis
    using queueInvD [OF assms(2)] take(1-3) by (auto simp: queueInv_def nth_list_update)
qed (rule queueInv_cong [OF assms(2)]; auto simp: nth_list_update cleanUp_def cancelRequested_def)+

lemma reachable_invariants:
  assumes "execution newEventHandler tr s"
  shows "dispatcherInv s \<and> orderInv tr s \<and> queueInv tr s"
  using assms
proof (induction newEventHandler tr s rule: execution.induct)
  case start
  then show ?case
    by (intro conjI dispatcherInv_new) (simp_all add: orderInv_def queueInv_def pending_def newEventHandler_def)
next
  case (step tr s1 a s2)
  then show ?case
    using dispatcherInv_step [OF step(3)] orderInv_step [OF step(3)] queueInv_step [OF step(3)]
    by (simp add: dispatcherInv_def)
qed

section \<open>Shutdown\<close>

text \<open>
  The dispatcher is stuck when it waits for a place in the queue of a worker that has exited:
  nobody takes from that queue any more.
\<close>

definition stuck :: "dispatcher \<Rightarrow> bool" where
  "stuck s \<longleftrightarrow>
     (case d_pc s of
        Sending i e \<Rightarrow> i < length (d_pool s) \<and> wd_status (d_pool s ! i) = Exited
          \<and> eventsChanSize \<le> length (wd_queue (d_pool s ! i))
      | _ \<Rightarrow> False)"

lemma stuck_step:
  assumes "dispatchStep s a s'" and "stuck s"
  shows "stuck s'"
  using assms(1)
proof (cases rule: dispatchStep.cases)
  case (receive e i s1)
  then show ?thesis using assms(2) by (simp add: stuck_def)
qed (use assms(2) in \<open>auto simp: stuck_def chanSend_Some nth_list_update split: dispatcherPc.splits\<close>)

lemma stuck_execution: "execution s tr s' \<Longrightarrow> stuck s \<Longrightarrow> stuck s'"
  by (induction rule: execution.induct) (auto intro: stuck_step)

text \<open>Where the dispatcher may get to by steps of its own and of its workers.\<close>

definition internal :: "action \<Rightarrow> bool" where
  "internal a \<longleftrightarrow> (case a of Tick t \<Rightarrow> False | MainCancel \<Rightarrow> False | Receive e \<Rightarrow> False | _ \<Rightarrow> True)"

definition leadsTo :: "dispatcher \<Rightarrow> dispatcher \<Rightarrow> bool" where
  "leadsTo s s' \<longleftrightarrow> (\<exists>tr. execution s tr s' \<and> list_all internal tr)"

lemma leadsTo_refl: "leadsTo s s"
  unfolding leadsTo_def by (intro exI [where x = "[]"]) (simp add: execution.start)

lemma leadsTo_step: "dispatchStep s a s' \<Longrightarrow> internal a \<Longrightarrow> leadsTo s' s'' \<Longrightarrow> leadsTo s s''"
  unfolding leadsTo_def by (metis execution_cons list.pred_inject(2))

lemma leadsTo_trans: "leadsTo s s' \<Longrightarrow> leadsTo s' s'' \<Longrightarrow> leadsTo s s''"
  unfolding leadsTo_def by (metis execution_append list_all_append)

lemma finish_leadsTo:
  assumes "i < length (d_pool s)" and "running (d_pool s ! i)"
  shows "\<exists>w. leadsTo s (setWorker i w s) \<and> wd_status w = Idle \<and> wd_queue w = wd_queue (d_pool s ! i) \<and> running w"
proof (cases "wd_status (d_pool s ! i)")
  case Idle
  then show ?thesis
    using leadsTo_refl [of s] assms by (intro exI [where x = "d_pool s ! i"]) (simp add: setWorker_def)
next
  case (Handling e)
  then show ?thesis
    using leadsTo_step [OF finish [OF assms(1) Handling] _ leadsTo_refl]
    by (intro exI [where x = "(d_pool s ! i)\<lparr>wd_status := Idle\<rparr>"]) (simp add: internal_def running_def)
qed (use assms in \<open>simp add: running_def\<close>)

lemma exit_leadsTo:
  assumes "i < length (d_pool s)" and "running (d_pool s ! i)" and "d_mainDone s" and "countInv s"
  shows "\<exists>s'. leadsTo s s' \<and> d_pc s' = d_pc s \<and> d_mainDone s' \<and> countInv s'
    \<and> length (filter running (d_pool s')) < length (filter running (d_pool s))"
proof -
  obtain w where w: "leadsTo s (setWorker i w s)" "wd_status w = Idle" "running w"
    using finish_leadsTo [OF assms(1,2)] by blast
  let ?s1 = "setWorker i w s"
  let ?s2 = "(setWorker i (w\<lparr>wd_status := Exited\<rparr>) ?s1)\<lparr>d_waitGroup := d_waitGroup ?s1 - 1\<rparr>"
  have "dispatchStep ?s1 (Exit i) ?s2"
    using dispatchStep.exit [of i ?s1] assms(1,3) w(2) by simp
  then have "leadsTo s ?s2"
    using leadsTo_trans [OF w(1)] leadsTo_step [OF _ _ leadsTo_refl] by (simp add: internal_def)
  moreover have "int (length (filter running (d_pool ?s2))) = int (length (filter running (d_pool s))) - 1"
    using assms(1,2) by (simp add: filter_length_update) (simp add: running_def)
  ultimately show ?thesis
    using assms(3,4) by (intro exI [where x = ?s2]) (simp add: countInv_def)
qed

lemma drain_leadsTo:
  assumes "d_pc s = Waiting" and "d_mainDone s" and "countInv s"
  shows "\<exists>s'. leadsTo s s' \<and> d_pc s' = Returned"
  using assms
proof (induction "length (filter running (d_pool s))" arbitrary: s rule: less_induct)
  case less
  show ?case
  proof (cases "filter running (d_pool s) = []")
    case True
    then show ?thesis
      using less.prems leadsTo_step [OF waitDone [of s] _ leadsTo_refl] by (auto simp: countInv_def internal_def)
  next
    case False
    then obtain i where "i < length (d_pool s)" "running (d_pool s ! i)"
      by (auto simp: filter_empty_conv in_set_conv_nth)
    from exit_leadsTo [OF this less.prems(2,3)] less.prems(1) obtain s1 where
      "leadsTo s s1" "d_pc s1 = Waiting" "d_mainDone s1" "countInv s1"
      "length (filter running (d_pool s1)) < length (filter running (d_pool s))" by auto
    with less.hyps [of s1] leadsTo_trans show ?thesis by blast
  qed
qed

lemma selecting_leadsTo:
  assumes "d_pc s = Selecting" and "d_mainDone s" and "dispatcherInv s"
  shows "\<exists>s'. leadsTo s s' \<and> d_pc s' = Returned"
proof -
  have st: "dispatchStep s Stop (cancelRequested s)" using assms by (intro stop)
  then have inv: "dispatcherInv (cancelRequested s)" using dispatcherInv_step assms(3) by blast
  have go: "leadsTo (cancelRequested s) s' \<Longrightarrow> leadsTo s s'" for s'
    using leadsTo_step [OF st] by (simp add: internal_def)
  show ?thesis
  proof (cases "d_workers s = fmempty")
    case True
    then have "d_pc (cancelRequested s) = Returned" by (simp add: cancelRequested_def)
    with go leadsTo_refl show ?thesis by blast
  next
    case False
    then have "d_pc (cancelRequested s) = Waiting" "d_mainDone (cancelRequested s)"
      using assms(2) by (simp_all add: cancelRequested_def)
    with drain_leadsTo inv go show ?thesis unfolding dispatcherInv_def by blast
  qed
qed

lemma sending_leadsTo:
  assumes "d_pc s = Sending i e" and "i < length (d_pool s)" and "\<not> stuck s" and "workersInv s"
  shows "\<exists>s'. leadsTo s s' \<and> d_pc s' = Selecting \<and> d_mainDone s' = d_mainDone s"
proof (cases "length (wd_queue (d_pool s ! i)) < eventsChanSize")
  case True
  then show ?thesis
    using leadsTo_step [OF send [OF assms(1)] _ leadsTo_refl] by (fastforce simp: chanSend_Some internal_def)
next
  case False
  with assms have "running (d_pool s ! i)" by (auto simp: stuck_def running_def)
  then obtain w where w: "leadsTo s (setWorker i w s)" "wd_status w = Idle" "wd_queue w = wd_queue (d_pool s ! i)"
    using finish_leadsTo [OF assms(2)] by blast
  let ?s1 = "setWorker i w s"
  from False w(3) obtain e' q where q: "wd_queue w = e' # q"
    by (cases "wd_queue (d_pool s ! i)") (auto simp: eventsChanSize_def)
  let ?s2 = "setWorker i (w\<lparr>wd_queue := q, wd_status := Handling e'\<rparr>) ?s1"
  have "dispatchStep ?s1 (Take i e') ?s2"
    using dispatchStep.take [of i ?s1 e' q] assms(2) w(2) q by simp
  then have s2: "leadsTo s ?s2"
    using leadsTo_trans [OF w(1)] leadsTo_step [OF _ _ leadsTo_refl] by (simp add: internal_def)
  have "length (e' # q) \<le> eventsChanSize"
    using assms(2,4) unfolding q [symmetric] w(3) workersInv_def workerOk_def by blast
  then have "chanSend q e = Some (q @ [e])" by (simp add: chanSend_Some)
  then show ?thesis
    using leadsTo_step [OF send [of ?s2 i e "q @ [e]"] _ leadsTo_refl] assms(1,2)
    by (fastforce simp: internal_def intro: leadsTo_trans [OF s2])
qed

lemma unstuck_leadsTo:
  assumes inv: "dispatcherInv s" and "d_mainDone s" and that: "\<not> stuck s"
  shows "\<exists>s'. leadsTo s s' \<and> d_pc s' = Returned"
proof (cases "d_pc s")
  case Selecting
  then show ?thesis by (rule selecting_leadsTo [OF _ assms(2) inv])
next
  case (Sending i e)
  with inv have "i < length (d_pool s)" "workersInv s"
    using mapInvD(1) [of s] by (auto simp: dispatcherInv_def pcInv_def)
  from sending_leadsTo [OF Sending this(1) that this(2)] obtain s1 where
    s1: "leadsTo s s1" "d_pc s1 = Selecting" "d_mainDone s1" using assms(2) by auto
  then have "dispatcherInv s1" using dispatcherInv_execution inv unfolding leadsTo_def by blast
  with selecting_leadsTo s1 leadsTo_trans show ?thesis by blast
next
  case Waiting
  then show ?thesis using drain_leadsTo assms(2) inv by (simp add: dispatcherInv_def)
qed (use leadsTo_refl in blast)

lemma unstuck_returns:
  assumes "execution newEventHandler tr s" and "d_mainDone s" and "\<not> stuck s"
  shows "\<exists>tr' s'. execution s tr' s' \<and> list_all internal tr' \<and> d_pc s' = Returned"
  using unstuck_leadsTo [OF _ assms(2,3)] reachable_invariants [OF assms(1)] unfolding leadsTo_def by blast

section \<open>Properties\<close>

definition exampleEvent :: event where
  "exampleEvent = mkEvent EventCreate (NamespaceObject ''shop'')"

definition dispatchExample :: "action list" where
  "dispatchExample = [Receive exampleEvent, SendTo 0 exampleEvent]"

text \<open>The worker handles one event, its queue is full, and the dispatcher holds one more when the end comes.\<close>

definition deadlockExample :: "action list" where
  "deadlockExample = dispatchExample @ [Take 0 exampleEvent] @ concat (replicate 25 dispatchExample)
     @ [Receive exampleEvent, MainCancel, Finish 0, Exit 0]"

text \<open>Eight events arrive at once and each keeps the worker busy for fifty seconds.\<close>

definition slowExample :: "action list" where
  "slowExample = concat (replicate 8 dispatchExample) @ [Take 0 exampleEvent]
     @ concat (replicate 6 [Tick 50000000000, Finish 0, Take 0 exampleEvent])
     @ [Tick 10000000000, CleanUp]"

definition afterActions :: "action list \<Rightarrow> dispatcher" where
  "afterActions tr = (case fireAll tr newEventHandler of Some s \<Rightarrow> s | None \<Rightarrow> newEventHandler)"

lemma afterActions_execution:
  "fireAll tr newEventHandler \<noteq> None \<Longrightarrow> execution newEventHandler tr (afterActions tr)"
  by (auto simp: afterActions_def intro: fireAll_execution)

lemma afterActions_Some: "fireAll tr newEventHandler = Some s \<Longrightarrow> afterActions tr = s"
  by (simp add: afterActions_def)

lemma dispatchExample_runs:
  "fireAll dispatchExample newEventHandler = Some
     \<lparr>d_now = 0, d_mainDone = False, d_pc = Selecting, d_workers = fmap_of_list [(''shop'', 0)],
      d_pool = [\<lparr>wd_namespace = ''shop'', wd_queue = [exampleEvent], wd_canceled = False,
                 wd_lastEvent = Some 0, wd_status = Idle\<rparr>],
      d_waitGroup = 1\<rparr>"
  by code_simp

lemma deadlockExample_runs:
  "(case fireAll deadlockExample newEventHandler of
      None \<Rightarrow> False
    | Some s \<Rightarrow> d_mainDone s \<and> stuck s)"
  by code_simp

lemma slowExample_runs:
  "(case fireAll (slowExample @ [Finish 0, Exit 0]) newEventHandler of
      None \<Rightarrow> False
    | Some s \<Rightarrow> \<not> d_mainDone s \<and> length (d_pool s) = 1 \<and> wd_status (d_pool s ! 0) = Exited
        \<and> wd_queue (d_pool s ! 0) = [exampleEvent])"
  by code_simp

lemma slowExample_returns:
  "(case fireAll (slowExample @ [MainCancel, Stop]) newEventHandler of
      None \<Rightarrow> False
    | Some s \<Rightarrow> d_pc s = Returned \<and> length (d_pool s) = 1 \<and> wd_status (d_pool s ! 0) = Handling exampleEvent)"
  by code_simp

text \<open>
  C16. Events are neither lost, repeated nor reordered between the channel of the operator and
  the workers: the events sent to workers, and the one that waits for a place, are those
  received that name a namespace, in their order; and what each worker took, followed by
  its queue, is what was sent to it, all of it for its own namespace.
\<close>

theorem dispatch_fifo:
  assumes "execution newEventHandler tr s"
  shows "sentAll tr @ pending s = received tr
    \<and> (\<forall>i < length (d_pool s). takenBy i tr @ wd_queue (d_pool s ! i) = sentTo i tr
        \<and> (\<forall>e \<in> set (sentTo i tr). getNamespaceNameFromEventObject e = wd_namespace (d_pool s ! i)))"
  using reachable_invariants [OF assms] unfolding orderInv_def queueInv_def by blast

theorem dispatch_fifo_witness:
  "takenBy 0 dispatchExample @ wd_queue (d_pool (afterActions dispatchExample) ! 0) = sentTo 0 dispatchExample
   \<and> wd_queue (d_pool (afterActions dispatchExample) ! 0) = [exampleEvent]"
proof -
  have "execution newEventHandler dispatchExample (afterActions dispatchExample)"
    by (rule afterActions_execution) (simp add: dispatchExample_runs)
  moreover have "0 < length (d_pool (afterActions dispatchExample))"
    by (simp add: afterActions_Some [OF dispatchExample_runs])
  ultimately show ?thesis
    using dispatch_fifo [of dispatchExample "afterActions dispatchExample"]
    by (simp add: afterActions_Some [OF dispatchExample_runs])
qed

text \<open>
  C20. At any time a namespace has at most one worker that was not told to stop, and it is the
  one in the map \<open>e.workers\<close>: two live workers never share a namespace.
\<close>

theorem one_live_worker:
  assumes "execution newEventHandler tr s"
    and "i < length (d_pool s)" and "\<not> wd_canceled (d_pool s ! i)"
    and "j < length (d_pool s)" and "\<not> wd_canceled (d_pool s ! j)"
    and "wd_namespace (d_pool s ! i) = wd_namespace (d_pool s ! j)"
  shows "i = j \<and> fmlookup (d_workers s) (wd_namespace (d_pool s ! i)) = Some i"
proof -
  have m: "mapInv s" using reachable_invariants [OF assms(1)] by (simp add: dispatcherInv_def)
  have "Some i = Some j"
    using mapInvD_live [OF m assms(2,3)] mapInvD_live [OF m assms(4,5)] unfolding assms(6) by (rule trans [OF sym])
  with mapInvD_live [OF m assms(2,3)] show ?thesis by blast
qed

theorem one_live_worker_witness:
  "fmlookup (d_workers (afterActions dispatchExample)) ''shop'' = Some 0"
proof -
  have "execution newEventHandler dispatchExample (afterActions dispatchExample)"
    by (rule afterActions_execution) (simp add: dispatchExample_runs)
  from one_live_worker [OF this, of 0 0] show ?thesis
    by (simp add: afterActions_Some [OF dispatchExample_runs])
qed

text \<open>
  C29. Bounds and bookkeeping: no queue ever holds more than 25 events; the wait group counts
  the goroutines that have not ended; a worker ends only after it was told to, itself or with
  the whole program; and \<open>WatchForEvents\<close> returns only with the main context done, and then
  either its map was empty or every worker has ended.
\<close>

theorem dispatcher_bookkeeping:
  assumes "execution newEventHandler tr s"
  shows "(\<forall>i < length (d_pool s). length (wd_queue (d_pool s ! i)) \<le> eventsChanSize
        \<and> (wd_status (d_pool s ! i) = Exited \<longrightarrow> wd_canceled (d_pool s ! i) \<or> d_mainDone s))
    \<and> d_waitGroup s = int (length (filter running (d_pool s)))
    \<and> (d_pc s = Returned \<longrightarrow> d_mainDone s \<and> (d_workers s = fmempty \<or> filter running (d_pool s) = []))"
proof -
  have inv: "workersInv s" "pcInv s" "countInv s" "returnInv s"
    using reachable_invariants [OF assms] by (simp_all add: dispatcherInv_def)
  from inv(1) have "\<forall>i < length (d_pool s). length (wd_queue (d_pool s ! i)) \<le> eventsChanSize
        \<and> (wd_status (d_pool s ! i) = Exited \<longrightarrow> wd_canceled (d_pool s ! i) \<or> d_mainDone s)"
    unfolding workersInv_def workerOk_def by blast
  moreover from inv(2,4) have "d_pc s = Returned \<longrightarrow> d_mainDone s \<and> (d_workers s = fmempty \<or> filter running (d_pool s) = [])"
    by (auto simp: pcInv_def returnInv_def)
  ultimately show ?thesis using inv(3) by (simp add: countInv_def)
qed

theorem dispatcher_bookkeeping_witness:
  "d_waitGroup (afterActions dispatchExample) = int (length (filter running (d_pool (afterActions dispatchExample))))
   \<and> d_waitGroup (afterActions dispatchExample) = 1"
proof -
  have "execution newEventHandler dispatchExample (afterActions dispatchExample)"
    by (rule afterActions_execution) (simp add: dispatchExample_runs)
  from dispatcher_bookkeeping [OF this] show ?thesis
    by (simp add: afterActions_Some [OF dispatchExample_runs])
qed

text \<open>
  C28. The clean-up stops and forgets exactly the workers in the map whose last event is more
  than five minutes old, and touches neither their queues nor the other workers.
\<close>

theorem cleanUp_exact:
  assumes "execution newEventHandler tr s" and "dispatchStep s CleanUp s'"
  shows "(fmlookup (d_workers s') name = Some i \<longleftrightarrow>
        fmlookup (d_workers s) name = Some i
        \<and> (\<exists>t. wd_lastEvent (d_pool s ! i) = Some t \<and> d_now s - t \<le> maximumIdleDuration))
    \<and> (i < length (d_pool s) \<longrightarrow>
        wd_queue (d_pool s' ! i) = wd_queue (d_pool s ! i)
        \<and> (wd_canceled (d_pool s' ! i) \<longleftrightarrow> wd_canceled (d_pool s ! i)
             \<or> fmlookup (d_workers s) (wd_namespace (d_pool s ! i)) = Some i
                \<and> (\<exists>t. wd_lastEvent (d_pool s ! i) = Some t \<and> maximumIdleDuration < d_now s - t)))"
proof -
  have m: "mapInv s" using reachable_invariants [OF assms(1)] by (simp add: dispatcherInv_def)
  have pc: "d_pc s = Selecting" and s': "s' = cleanUp s"
    using assms(2) by (simp_all add: dispatchStep_simps)
  have idle: "exceedsIdle (d_now s) (d_pool s ! k) \<longleftrightarrow>
      (\<exists>t. wd_lastEvent (d_pool s ! k) = Some t \<and> maximumIdleDuration < d_now s - t)"
    if "fmlookup (d_workers s) nm = Some k" for nm k
    using mapInvD_selecting(2) [OF m that pc] by (auto simp: exceedsIdle_def)
  have "fmlookup (d_workers s') name = Some i \<longleftrightarrow>
        fmlookup (d_workers s) name = Some i
        \<and> (\<exists>t. wd_lastEvent (d_pool s ! i) = Some t \<and> d_now s - t \<le> maximumIdleDuration)"
    using idle [of name i] mapInvD_selecting(2) [OF m _ pc, of name i] by (fastforce simp: s' fmlookup_cleanUp)
  moreover have "i |\<in>| fmran (toRemove s) \<longleftrightarrow> fmlookup (d_workers s) (wd_namespace (d_pool s ! i)) = Some i
                \<and> (\<exists>t. wd_lastEvent (d_pool s ! i) = Some t \<and> maximumIdleDuration < d_now s - t)"
    using idle mapInvD(2) [OF m] by (auto simp: fmlookup_ran_iff fmlookup_toRemove)
  moreover have "d_pool s' = cancelWorkers (fmran (toRemove s)) (d_pool s)" by (simp add: s' cleanUp_def)
  ultimately show ?thesis by auto
qed

theorem cleanUp_exact_witness:
  "\<exists>s'. dispatchStep (afterActions dispatchExample) CleanUp s' \<and> fmlookup (d_workers s') ''shop'' = Some 0"
proof -
  have ex: "execution newEventHandler dispatchExample (afterActions dispatchExample)"
    by (rule afterActions_execution) (simp add: dispatchExample_runs)
  have "dispatchStep (afterActions dispatchExample) CleanUp (cleanUp (afterActions dispatchExample))"
    by (rule cleanUpTicker) (simp add: afterActions_Some [OF dispatchExample_runs])
  with cleanUp_exact [OF ex this, of "''shop''" 0] show ?thesis
    by (auto simp: afterActions_Some [OF dispatchExample_runs] maximumIdleDuration_def)
qed

text \<open>
  Shutdown: once the main context is done, the dispatcher can always return, by steps
  of its own and of its workers, unless it waits for a place in the queue of a worker that
  has ended; and in that case it never returns, whatever happens.
\<close>

theorem shutdown_unless_stuck:
  assumes "execution newEventHandler tr s" and "d_mainDone s"
  shows "((\<exists>tr' s'. execution s tr' s' \<and> list_all internal tr' \<and> d_pc s' = Returned) \<longleftrightarrow> \<not> stuck s)
    \<and> ((\<exists>tr' s'. execution s tr' s' \<and> d_pc s' = Returned) \<longleftrightarrow> \<not> stuck s)"
proof -
  have inv: "dispatcherInv s" using reachable_invariants [OF assms(1)] by simp
  have never: "d_pc s' \<noteq> Returned" if "stuck s" "execution s tr' s'" for tr' s'
    using stuck_execution [OF that(2,1)] by (auto simp: stuck_def split: dispatcherPc.splits)
  show ?thesis using never unstuck_leadsTo [OF inv assms(2)] unfolding leadsTo_def by blast
qed

theorem shutdown_unless_stuck_witness:
  "\<exists>tr' s'. execution (afterActions (dispatchExample @ [MainCancel])) tr' s' \<and> d_pc s' = Returned"
proof -
  let ?tr = "dispatchExample @ [MainCancel]"
  have "case fireAll ?tr newEventHandler of None \<Rightarrow> False | Some s \<Rightarrow> d_mainDone s \<and> \<not> stuck s" by code_simp
  then obtain s where s: "fireAll ?tr newEventHandler = Some s" "d_mainDone s" "\<not> stuck s"
    by (auto split: option.splits)
  with shutdown_unless_stuck [OF fireAll_execution [OF s(1)] s(2)] show ?thesis
    unfolding afterActions_Some [OF s(1)] by blast
qed

text \<open>
  That deadlock can happen: there is a run of the operator in which the main context
  is done and \<open>WatchForEvents\<close> can never return, because its worker ended with a full queue
  while it was waiting to add an event.
\<close>

theorem shutdown_deadlock:
  "\<exists>tr s. execution newEventHandler tr s \<and> d_mainDone s \<and> \<not> (\<exists>tr' s'. execution s tr' s' \<and> d_pc s' = Returned)"
proof -
  obtain s where s: "fireAll deadlockExample newEventHandler = Some s" "d_mainDone s" "stuck s"
    using deadlockExample_runs by (auto split: option.splits)
  have "d_pc s' \<noteq> Returned" if "execution s tr' s'" for tr' s'
    using stuck_execution [OF that s(3)] by (auto simp: stuck_def split: dispatcherPc.splits)
  with s fireAll_execution show ?thesis by blast
qed

text \<open>
  The clean-up loses events: a worker that is busy for long enough is stopped although
  its queue holds events, and ends without handling them while the operator goes on.
\<close>

theorem cleanUp_drops_events:
  "\<exists>tr s i. execution newEventHandler tr s \<and> \<not> d_mainDone s \<and> i < length (d_pool s)
     \<and> wd_status (d_pool s ! i) = Exited \<and> wd_queue (d_pool s ! i) \<noteq> []"
proof -
  obtain s where "fireAll (slowExample @ [Finish 0, Exit 0]) newEventHandler = Some s" "\<not> d_mainDone s"
    "length (d_pool s) = 1" "wd_status (d_pool s ! 0) = Exited" "wd_queue (d_pool s ! 0) = [exampleEvent]"
    using slowExample_runs by (auto split: option.splits)
  then show ?thesis using fireAll_execution by (metis less_one list.distinct(1))
qed

text \<open>
  A worker that the clean-up stopped is not waited for: \<open>WatchForEvents\<close> can return while
  such a worker is still handling an event, as it does not wait when its map is empty.
\<close>

theorem returns_before_worker:
  "\<exists>tr s i e. execution newEventHandler tr s \<and> d_pc s = Returned \<and> i < length (d_pool s)
     \<and> wd_status (d_pool s ! i) = Handling e"
proof -
  obtain s where "fireAll (slowExample @ [MainCancel, Stop]) newEventHandler = Some s" "d_pc s = Returned"
    "length (d_pool s) = 1" "wd_status (d_pool s ! 0) = Handling exampleEvent"
    using slowExample_returns by (auto split: option.splits)
  then show ?thesis using fireAll_execution by (metis less_one)
qed

end
