(* ===== verification/Worker_Steps.thy ===== *)
theory Worker_Steps
  imports Namespace_Worker
begin

text \<open>
  A worker one registry call at a time. Between two calls of a handler of \<open>namespace_worker.go\<close>
  the other goroutines may run, so that the operator as a whole needs the handlers as a
  program counter: which call comes next. The section on equivalence shows that going on from
  one program counter to the next without interruption is what the handlers of
  \<open>Namespace_Worker\<close> do.
\<close>

section \<open>Program counters\<close>

text \<open>The call that a handler makes next; \<open>AtEnd\<close> is its return.\<close>

datatype workerPc =
    AtRegister target "registerOption list"
  | AtGet target
  | AtList target
  | AtDeregister target
  | AtEnd

text \<open>Where \<open>handleNamespacedEvents\<close> gets to with an event, before any call.\<close>

definition eventStart :: "namespaceWorker \<Rightarrow> event \<Rightarrow> workerPc" where
  "eventStart n e =
     (case ev_EventType e of
        EventDelete \<Rightarrow>
          (case ev_Object e of
             NamespaceObject name \<Rightarrow> AtGet (NamespaceAt (nw_namespace n))
           | ServiceObject namespace name \<Rightarrow> AtGet (ServiceAt (nw_namespace n) name)
           | EndpointObject ep \<Rightarrow> AtGet (EndpointAt (nw_namespace n) (ep_Service ep) (ep_Name ep))
           | OtherObject \<Rightarrow> AtEnd)
      | _ \<Rightarrow>
          (case ev_Object e of
             NamespaceObject name \<Rightarrow>
               AtRegister (NamespaceAt (nw_namespace n)) [WithMetadata (nw_persistentMeta n)]
           | ServiceObject namespace name \<Rightarrow>
               AtRegister (ServiceAt (nw_namespace n) name) [WithMetadata (nw_persistentMeta n)]
           | EndpointObject ep \<Rightarrow>
               AtRegister (EndpointAt (nw_namespace n) (ep_Service ep) (ep_Name ep))
                 [WithAddress (ep_Address ep), WithPort (ep_Port ep), WithMetadata (ep_Metadata ep),
                  WithMetadata (nw_persistentMeta n)]
           | OtherObject \<Rightarrow> AtEnd))"

text \<open>The rest of a deletion after the answer of \<open>Get\<close>; only an endpoint is removed without a look inside.\<close>

definition afterGet :: "target \<Rightarrow> string + string gomap \<Rightarrow> workerPc" where
  "afterGet t g =
     (case g of
        Inl err \<Rightarrow> AtEnd
      | Inr metadata \<Rightarrow>
          if \<not> isOwnedByOperator metadata then AtEnd
          else (case t of EndpointAt ns s e \<Rightarrow> AtDeregister t | _ \<Rightarrow> AtList t))"

definition afterList :: "target \<Rightarrow> nextResult \<Rightarrow> workerPc" where
  "afterList t x = (case x of NextError err \<Rightarrow> AtEnd | NextFound \<Rightarrow> AtEnd | NextDone \<Rightarrow> AtDeregister t)"

text \<open>The next program counter, provided that the call is the one that the program counter asks for.\<close>

fun pcNext :: "workerPc \<Rightarrow> call \<Rightarrow> workerPc option" where
  "pcNext (AtRegister t opts) (RegisterCall t' opts' err) = (if t' = t \<and> opts' = opts then Some AtEnd else None)"
| "pcNext (AtGet t) (GetCall t' g) = (if t' = t then Some (afterGet t g) else None)"
| "pcNext (AtList t) (ListCall t' x) = (if t' = t then Some (afterList t x) else None)"
| "pcNext (AtDeregister t) (DeregisterCall t' err) = (if t' = t then Some AtEnd else None)"
| "pcNext _ _ = None"

fun pcRun :: "workerPc \<Rightarrow> call list \<Rightarrow> workerPc option" where
  "pcRun pc [] = Some pc"
| "pcRun pc (cl # cs) = (case pcNext pc cl of None \<Rightarrow> None | Some pc' \<Rightarrow> pcRun pc' cs)"

text \<open>The calls that a handler has left at most.\<close>

fun callsLeft :: "workerPc \<Rightarrow> nat" where
  "callsLeft (AtGet t) = 3"
| "callsLeft (AtList t) = 2"
| "callsLeft (AtDeregister t) = 1"
| "callsLeft (AtRegister t opts) = 1"
| "callsLeft AtEnd = 0"

section \<open>Registries that answer one call at a time\<close>

text \<open>
  A registry is a relation between its states, labelled with the call and its outcome: an
  error, such as a cancelled context, may come at any time. A client is one such registry.
\<close>

type_synonym 'r registry = "'r \<Rightarrow> call \<Rightarrow> 'r \<Rightarrow> bool"

fun clientAnswers :: "'r client \<Rightarrow> 'r registry" where
  "clientAnswers c r (RegisterCall t opts err) r' \<longleftrightarrow> run_state (register c t opts) r = (err, r')"
| "clientAnswers c r (GetCall t g) r' \<longleftrightarrow> run_state (get c t) r = (g, r')"
| "clientAnswers c r (DeregisterCall t err) r' \<longleftrightarrow> run_state (deregister c t) r = (err, r')"
| "clientAnswers c r (ListCall t x) r' \<longleftrightarrow> run_state (listNext c t) r = (x, r')"

fun answersAll :: "'r registry \<Rightarrow> 'r \<Rightarrow> call list \<Rightarrow> 'r \<Rightarrow> bool" where
  "answersAll reg r [] r' \<longleftrightarrow> r' = r"
| "answersAll reg r (cl # cs) r' \<longleftrightarrow> (\<exists>r1. reg r cl r1 \<and> answersAll reg r1 cs r')"

lemma answersAll_append:
  "answersAll reg r (cs @ ds) r' \<longleftrightarrow> (\<exists>r1. answersAll reg r cs r1 \<and> answersAll reg r1 ds r')"
  by (induction cs arbitrary: r) auto

section \<open>Complete runs\<close>

lemma pcRun_append: "pcRun pc (cs @ ds) = (case pcRun pc cs of None \<Rightarrow> None | Some pc' \<Rightarrow> pcRun pc' ds)"
  by (induction cs arbitrary: pc) (auto split: option.splits)

lemma pcNext_callsLeft: "pcNext pc cl = Some pc' \<Longrightarrow> callsLeft pc' < callsLeft pc"
  by (induction pc cl rule: pcNext.induct)
    (auto simp: afterGet_def afterList_def split: if_splits sum.splits target.splits nextResult.splits)

lemma callsLeft_eventStart: "callsLeft (eventStart n e) \<le> 3"
  by (auto simp: eventStart_def split: eventType.split registryObject.split)

lemma callsLeft_0 [simp]: "callsLeft pc = 0 \<longleftrightarrow> pc = AtEnd"
  by (cases pc) auto

lemma eventStart_eq:
  "eventStart n e =
     (case eventTarget n (ev_Object e) of
        None \<Rightarrow> AtEnd
      | Some t \<Rightarrow> if ev_EventType e = EventDelete then AtGet t else AtRegister t (registerOptions n (ev_Object e)))"
  by (auto simp: eventStart_def split: eventType.split registryObject.split)

lemma pcRun_AtEnd [simp]: "pcRun AtEnd cs = Some AtEnd \<longleftrightarrow> cs = []"
  by (cases cs) auto

lemma pcRun_single [simp]:
  "pcRun (AtRegister t opts) cs = Some AtEnd \<longleftrightarrow> (\<exists>err. cs = [RegisterCall t opts err])"
  "pcRun (AtDeregister t) cs = Some AtEnd \<longleftrightarrow> (\<exists>err. cs = [DeregisterCall t err])"
proof -
  show "pcRun (AtRegister t opts) cs = Some AtEnd \<longleftrightarrow> (\<exists>err. cs = [RegisterCall t opts err])"
  proof (cases cs)
    case (Cons cl ds)
    then show ?thesis by (cases cl) auto
  qed auto
  show "pcRun (AtDeregister t) cs = Some AtEnd \<longleftrightarrow> (\<exists>err. cs = [DeregisterCall t err])"
  proof (cases cs)
    case (Cons cl ds)
    then show ?thesis by (cases cl) auto
  qed auto
qed

lemma pcRun_AtList:
  "pcRun (AtList t) cs = Some AtEnd \<longleftrightarrow>
     (\<exists>x. x \<noteq> NextDone \<and> cs = [ListCall t x]) \<or> (\<exists>err. cs = [ListCall t NextDone, DeregisterCall t err])"
proof (cases cs)
  case (Cons cl ds)
  show ?thesis
  proof (cases cl)
    case (ListCall u x)
    with Cons show ?thesis by (cases x) (auto simp: afterList_def)
  qed (use Cons in auto)
qed auto

lemma pcRun_AtGet: "pcRun (AtGet t) cs = Some AtEnd \<longleftrightarrow> deletionCalls t cs"
proof (cases cs)
  case Nil
  then show ?thesis by (auto simp: deletionCalls_def)
next
  case (Cons cl ds)
  show ?thesis
  proof (cases cl)
    case (GetCall u g)
    with Cons show ?thesis
      by (cases g rule: isOwned_cases; cases t)
        (auto simp: deletionCalls_def afterGet_def pcRun_AtList)
  qed (use Cons in \<open>auto simp: deletionCalls_def\<close>)
qed

text \<open>The complete runs for an event are the calls that the handlers may make for it, no more and no less.\<close>

lemma pcRun_eventCalls: "pcRun (eventStart n e) cs = Some AtEnd \<longleftrightarrow> eventCalls n e cs"
  by (auto simp: eventStart_eq eventCalls_def pcRun_AtGet split: option.splits)

text \<open>A registration is the first call of a handler, and its only one.\<close>

lemma pcNext_not_register: "pcNext pc cl \<noteq> Some (AtRegister t opts)"
  by (cases "(pc, cl)" rule: pcNext.cases)
    (auto simp: afterGet_def afterList_def split: sum.split target.split nextResult.split)

lemma pcRun_register: "pcRun pc cs = Some (AtRegister t opts) \<Longrightarrow> pc = AtRegister t opts"
  by (cases cs rule: rev_cases) (auto simp: pcRun_append pcNext_not_register split: option.splits)

lemma pcRun_registers: "pcRun pc cs = Some pc' \<Longrightarrow> RegisterCall t opts err \<in> set cs \<Longrightarrow> pc = AtRegister t opts"
proof (induction cs arbitrary: pc)
  case (Cons cl cs)
  then obtain pc1 where 1: "pcNext pc cl = Some pc1" "pcRun pc1 cs = Some pc'" by (auto split: option.splits)
  show ?case
  proof (cases "cl = RegisterCall t opts err")
    case True
    with 1(1) show ?thesis by (cases pc) (auto split: if_splits)
  next
    case False
    with Cons.prems(2) Cons.IH [OF 1(2)] 1(1) pcNext_not_register show ?thesis by auto
  qed
qed simp

lemma eventStart_register:
  "eventStart n e = AtRegister t opts \<Longrightarrow>
     ev_EventType e \<noteq> EventDelete \<and> eventTarget n (ev_Object e) = Some t \<and> opts = registerOptions n (ev_Object e)"
  by (auto simp: eventStart_eq split: option.splits if_splits)

lemma pcRun_targets: "pcRun pc cs = Some pc' \<Longrightarrow> cl \<in> set cs \<Longrightarrow>
   \<exists>t. callTarget cl = t \<and> (pc = AtGet t \<or> pc = AtList t \<or> pc = AtDeregister t \<or> (\<exists>opts. pc = AtRegister t opts))"
proof (induction cs arbitrary: pc)
  case (Cons d ds)
  then obtain pc1 where 1: "pcNext pc d = Some pc1" "pcRun pc1 ds = Some pc'" by (auto split: option.splits)
  show ?case
  proof (cases "cl = d")
    case True
    with 1(1) show ?thesis by (cases pc; cases d) (auto split: if_splits)
  next
    case False
    with Cons 1 have "\<exists>t. callTarget cl = t \<and> (pc1 = AtGet t \<or> pc1 = AtList t \<or> pc1 = AtDeregister t \<or> (\<exists>opts. pc1 = AtRegister t opts))"
      by auto
    with 1(1) show ?thesis
      by (cases pc; cases d)
        (auto simp: afterGet_def afterList_def split: if_splits sum.splits target.splits nextResult.splits)
  qed
qed simp

lemma pcRun_eventStart_namespace:
  assumes "pcRun (eventStart n e) cs = Some pc" and "cl \<in> set cs"
  shows "targetNamespace (callTarget cl) = nw_namespace n"
  using pcRun_targets [OF assms] eventTarget_namespace [of n "ev_Object e"]
  by (auto simp: eventStart_eq split: option.splits if_splits)

section \<open>Equivalence\<close>

text \<open>A client leaves no choice: from a program counter there is one complete run that it answers.\<close>

lemma answered_call_unique:
  assumes "pcNext pc cl = Some pc1" and "clientAnswers c r cl r1"
    and "pcNext pc cl' = Some pc2" and "clientAnswers c r cl' r2"
  shows "cl' = cl \<and> r2 = r1 \<and> pc2 = pc1"
  using assms by (cases pc; cases cl; cases cl') (auto split: if_splits)

lemma answered_unique:
  assumes "pcRun pc cs = Some AtEnd" and "answersAll (clientAnswers c) r cs r'"
    and "pcRun pc ds = Some AtEnd" and "answersAll (clientAnswers c) r ds r''"
  shows "cs = ds \<and> r' = r''"
  using assms
proof (induction cs arbitrary: pc r ds)
  case Nil
  then show ?case by auto
next
  case (Cons cl cs)
  then obtain pc1 r1 where 1: "pcNext pc cl = Some pc1" "pcRun pc1 cs = Some AtEnd"
    "clientAnswers c r cl r1" "answersAll (clientAnswers c) r1 cs r'" by (auto split: option.splits)
  then have "pc \<noteq> AtEnd" by auto
  with Cons.prems(3) obtain cl' ds' where ds: "ds = cl' # ds'" by (cases ds) auto
  with Cons.prems(3,4) obtain pc2 r2 where 2: "pcNext pc cl' = Some pc2" "pcRun pc2 ds' = Some AtEnd"
    "clientAnswers c r cl' r2" "answersAll (clientAnswers c) r2 ds' r''" by (auto split: option.splits)
  from answered_call_unique [OF 1(1,3) 2(1,3)] 2 ds Cons.IH [OF 1(2,4)] show ?case by auto
qed

lemma handled_answered:
  assumes "run_state (handleNamespacedEvent c n e) r = (cs, r')"
  shows "answersAll (clientAnswers c) r cs r'"
proof (cases "ev_EventType e = EventDelete")
  case True
  with assms show ?thesis
    by (cases "ev_Object e")
      (auto simp: handleNamespacedEvent_delete handleDeleteNamespace_def handleDeleteService_def
        handleDeleteEndpoint_def Let_def split: prod.splits sum.splits if_splits nextResult.splits)
next
  case False
  with assms show ?thesis
    by (cases "eventTarget n (ev_Object e)")
      (auto simp: handleNamespacedEvent_register handleCreateUpdate_registers registerAt_def split: prod.splits)
qed


end
