(* ===== verification/Operator_System.thy ===== *)
theory Operator_System
  imports Event_Dispatcher Worker_Steps
begin

text \<open>
  The running operator, as the goroutine of \<open>run\<close> in \<open>main.go\<close> puts it together: the handlers of
  the two controllers send events into one channel with a hundred places, the dispatcher
  receives from it, and the workers handle their events one registry call at a time, on
  one registry. All of them run concurrently: a step of the operator is a step of any one of them.
\<close>

section \<open>The channel of the operator\<close>

definition operatorChanSize :: nat where
  "operatorChanSize = 100"

definition operatorSend :: "event list \<Rightarrow> event \<Rightarrow> event list option" where
  "operatorSend q e = (if length q < operatorChanSize then Some (q @ [e]) else None)"

interpretation operatorChan: fifo_channel operatorSend chanRecv id operatorChanSize
proof unfold_locales
  show "chanRecv q = Some (x, q') \<Longrightarrow> id q = x # id q'" for q q' :: "event list" and x
    by (cases q) auto
  show "(chanRecv q = None) = (id q = [])" for q :: "event list"
    by (cases q) auto
qed (auto simp: operatorSend_def split: if_splits)

section \<open>State and steps\<close>

text \<open>
  \<open>op_pcs\<close> holds the program counter of each worker of the pool, which matters while it handles an
  event. The metadata \<open>md\<close> are those given to \<open>NewEventHandler\<close>.
\<close>

record 'r operator =
  op_channel :: "event list"
  op_dispatcher :: dispatcher
  op_pcs :: "nat \<Rightarrow> workerPc"
  op_registry :: 'r

definition newOperator :: "'r \<Rightarrow> 'r operator" where
  "newOperator r = \<lparr>op_channel = [], op_dispatcher = newEventHandler, op_pcs = (\<lambda>i. AtEnd), op_registry = r\<rparr>"

definition workerOf :: "string gomap \<Rightarrow> namespaceWorkerData \<Rightarrow> namespaceWorker" where
  "workerOf md w = \<lparr>nw_namespace = wd_namespace w, nw_persistentMeta = md\<rparr>"

datatype operatorAction = Produce event | Dispatch action | Call nat call

text \<open>The actions of the dispatcher and the workers that concern nothing but their own state.\<close>

fun standalone :: "action \<Rightarrow> bool" where
  "standalone (Receive e) = False"
| "standalone (Take i e) = False"
| "standalone (Finish i) = False"
| "standalone _ = True"

inductive operatorStep :: "'r registry \<Rightarrow> string gomap \<Rightarrow> 'r operator \<Rightarrow> operatorAction \<Rightarrow> 'r operator \<Rightarrow> bool"
  for reg md where
  produce: "operatorSend (op_channel s) e = Some q \<Longrightarrow> operatorStep reg md s (Produce e) (s\<lparr>op_channel := q\<rparr>)"
| receives: "chanRecv (op_channel s) = Some (e, q) \<Longrightarrow> dispatchStep (op_dispatcher s) (Receive e) d \<Longrightarrow>
    operatorStep reg md s (Dispatch (Receive e)) (s\<lparr>op_channel := q, op_dispatcher := d\<rparr>)"
| takes: "dispatchStep (op_dispatcher s) (Take i e) d \<Longrightarrow>
    operatorStep reg md s (Dispatch (Take i e))
      (s\<lparr>op_dispatcher := d,
         op_pcs := (op_pcs s)(i := eventStart (workerOf md (d_pool (op_dispatcher s) ! i)) e)\<rparr>)"
| calls: "i < length (d_pool (op_dispatcher s)) \<Longrightarrow> wd_status (d_pool (op_dispatcher s) ! i) = Handling e \<Longrightarrow>
    pcNext (op_pcs s i) cl = Some pc \<Longrightarrow> reg (op_registry s) cl r \<Longrightarrow>
    operatorStep reg md s (Call i cl) (s\<lparr>op_pcs := (op_pcs s)(i := pc), op_registry := r\<rparr>)"
| finishes: "op_pcs s i = AtEnd \<Longrightarrow> dispatchStep (op_dispatcher s) (Finish i) d \<Longrightarrow>
    operatorStep reg md s (Dispatch (Finish i)) (s\<lparr>op_dispatcher := d\<rparr>)"
| alone: "standalone a \<Longrightarrow> dispatchStep (op_dispatcher s) a d \<Longrightarrow>
    operatorStep reg md s (Dispatch a) (s\<lparr>op_dispatcher := d\<rparr>)"

inductive_simps operatorStep_simps:
  "operatorStep reg md s (Produce e) s'" "operatorStep reg md s (Call i cl) s'" "operatorStep reg md s (Dispatch a) s'"

inductive operatorRun :: "'r registry \<Rightarrow> string gomap \<Rightarrow> 'r operator \<Rightarrow> operatorAction list \<Rightarrow> 'r operator \<Rightarrow> bool"
  for reg md s where
  none: "operatorRun reg md s [] s"
| more: "operatorRun reg md s tr s1 \<Longrightarrow> operatorStep reg md s1 a s2 \<Longrightarrow> operatorRun reg md s (tr @ [a]) s2"

text \<open>The same steps computed, with a client as the registry; \<open>Call\<close> is given the call that the client answers.\<close>

definition answer :: "'r client \<Rightarrow> workerPc \<Rightarrow> 'r \<Rightarrow> (call \<times> 'r) option" where
  "answer c pc r =
     (case pc of
        AtRegister t opts \<Rightarrow> (case run_state (register c t opts) r of (err, r') \<Rightarrow> Some (RegisterCall t opts err, r'))
      | AtGet t \<Rightarrow> (case run_state (get c t) r of (g, r') \<Rightarrow> Some (GetCall t g, r'))
      | AtList t \<Rightarrow> (case run_state (listNext c t) r of (x, r') \<Rightarrow> Some (ListCall t x, r'))
      | AtDeregister t \<Rightarrow> (case run_state (deregister c t) r of (err, r') \<Rightarrow> Some (DeregisterCall t err, r'))
      | AtEnd \<Rightarrow> None)"

datatype schedule = Send event | Do action | CallOf nat

fun operate :: "'r client \<Rightarrow> string gomap \<Rightarrow> schedule \<Rightarrow> 'r operator \<Rightarrow> (operatorAction \<times> 'r operator) option" where
  "operate c md (Send e) s = map_option (\<lambda>q. (Produce e, s\<lparr>op_channel := q\<rparr>)) (operatorSend (op_channel s) e)"
| "operate c md (CallOf i) s =
     (if i < length (d_pool (op_dispatcher s))
      then (case wd_status (d_pool (op_dispatcher s) ! i) of
              Handling e \<Rightarrow>
                (case answer c (op_pcs s i) (op_registry s) of
                   None \<Rightarrow> None
                 | Some (cl, r) \<Rightarrow>
                     map_option (\<lambda>pc. (Call i cl, s\<lparr>op_pcs := (op_pcs s)(i := pc), op_registry := r\<rparr>))
                       (pcNext (op_pcs s i) cl))
            | _ \<Rightarrow> None)
      else None)"
| "operate c md (Do a) s =
     (case fire a (op_dispatcher s) of
        None \<Rightarrow> None
      | Some d \<Rightarrow>
          (case a of
             Receive e \<Rightarrow>
               (case chanRecv (op_channel s) of
                  None \<Rightarrow> None
                | Some (e', q) \<Rightarrow> guarded (e' = e) (Dispatch a, s\<lparr>op_channel := q, op_dispatcher := d\<rparr>))
           | Take i e \<Rightarrow> Some (Dispatch a, s\<lparr>op_dispatcher := d,
               op_pcs := (op_pcs s)(i := eventStart (workerOf md (d_pool (op_dispatcher s) ! i)) e)\<rparr>)
           | Finish i \<Rightarrow> guarded (op_pcs s i = AtEnd) (Dispatch a, s\<lparr>op_dispatcher := d\<rparr>)
           | _ \<Rightarrow> Some (Dispatch a, s\<lparr>op_dispatcher := d\<rparr>)))"

fun operateAll :: "'r client \<Rightarrow> string gomap \<Rightarrow> schedule list \<Rightarrow> 'r operator \<Rightarrow> (operatorAction list \<times> 'r operator) option" where
  "operateAll c md [] s = Some ([], s)"
| "operateAll c md (x # xs) s =
     (case operate c md x s of
        None \<Rightarrow> None
      | Some (a, s1) \<Rightarrow> map_option (\<lambda>(tr, s2). (a # tr, s2)) (operateAll c md xs s1))"

lemma answer_clientAnswers: "answer c pc r = Some (cl, r') \<Longrightarrow> clientAnswers c r cl r'"
  by (cases pc) (auto simp: answer_def split: prod.splits)

lemma operate_step:
  assumes "operate c md x s = Some (a, s')"
  shows "operatorStep (clientAnswers c) md s a s'"
proof (cases x)
  case (Send e)
  with assms show ?thesis by (auto intro: produce)
next
  case (CallOf i)
  with assms show ?thesis
    by (auto split: if_splits workerStatus.splits option.splits intro: calls answer_clientAnswers)
next
  case (Do b)
  with assms obtain d where d: "fire b (op_dispatcher s) = Some d" by (auto split: option.splits)
  then have "dispatchStep (op_dispatcher s) b d" by (simp add: fire_iff)
  with assms Do d show ?thesis
    by (cases b)
      (auto simp: guarded_def simp del: fire.simps split: option.splits if_splits
        intro: receives takes finishes alone)
qed

lemma operatorRun_cons:
  "operatorRun reg md s1 tr s2 \<Longrightarrow> operatorStep reg md s a s1 \<Longrightarrow> operatorRun reg md s (a # tr) s2"
proof (induction rule: operatorRun.induct)
  case none
  then show ?case using operatorRun.more [OF operatorRun.none] by fastforce
next
  case (more tr s1 b s2)
  then show ?case using operatorRun.more [of reg md s "a # tr"] by simp
qed

lemma operateAll_run: "operateAll c md xs s = Some (tr, s') \<Longrightarrow> operatorRun (clientAnswers c) md s tr s'"
  by (induction xs arbitrary: s tr)
    (auto intro: operatorRun.none operatorRun_cons operate_step split: option.splits)

lemma operatorRun_append:
  "operatorRun reg md s1 tr' s2 \<Longrightarrow> operatorRun reg md s tr s1 \<Longrightarrow> operatorRun reg md s (tr @ tr') s2"
  by (induction rule: operatorRun.induct) (auto intro: operatorRun.more simp flip: append_assoc)

section \<open>History\<close>

definition dispatched :: "operatorAction list \<Rightarrow> action list" where
  "dispatched = List.map_filter (\<lambda>a. case a of Dispatch b \<Rightarrow> Some b | _ \<Rightarrow> None)"

definition produced :: "operatorAction list \<Rightarrow> event list" where
  "produced = List.map_filter (\<lambda>a. case a of Produce e \<Rightarrow> Some e | _ \<Rightarrow> None)"

definition callsBy :: "nat \<Rightarrow> operatorAction list \<Rightarrow> call list" where
  "callsBy j = List.map_filter (\<lambda>a. case a of Call i cl \<Rightarrow> if i = j then Some cl else None | _ \<Rightarrow> None)"

definition allCalls :: "operatorAction list \<Rightarrow> call list" where
  "allCalls = List.map_filter (\<lambda>a. case a of Call i cl \<Rightarrow> Some cl | _ \<Rightarrow> None)"

definition arrivals :: "action list \<Rightarrow> event list" where
  "arrivals = List.map_filter (\<lambda>a. case a of Receive e \<Rightarrow> Some e | _ \<Rightarrow> None)"

lemmas operator_history_defs = dispatched_def produced_def callsBy_def allCalls_def arrivals_def

lemma operator_history_append [simp]:
  "dispatched (xs @ ys) = dispatched xs @ dispatched ys" "produced (xs @ ys) = produced xs @ produced ys"
  "callsBy j (xs @ ys) = callsBy j xs @ callsBy j ys" "allCalls (xs @ ys) = allCalls xs @ allCalls ys"
  "arrivals (as @ bs) = arrivals as @ arrivals bs"
  by (simp_all add: operator_history_defs map_filter_append)

lemma operator_history_single [simp]:
  "dispatched [a] = (case a of Dispatch b \<Rightarrow> [b] | _ \<Rightarrow> [])"
  "produced [a] = (case a of Produce e \<Rightarrow> [e] | _ \<Rightarrow> [])"
  "callsBy j [a] = (case a of Call i cl \<Rightarrow> if i = j then [cl] else [] | _ \<Rightarrow> [])"
  "allCalls [a] = (case a of Call i cl \<Rightarrow> [cl] | _ \<Rightarrow> [])"
  "arrivals [b] = (case b of Receive e \<Rightarrow> [e] | _ \<Rightarrow> [])"
  by (simp_all add: operator_history_defs List.map_filter_def split: operatorAction.split action.split)

lemma operator_history_Nil [simp]:
  "dispatched [] = []" "produced [] = []" "callsBy j [] = []" "allCalls [] = []" "arrivals [] = []"
  by (simp_all add: operator_history_defs List.map_filter_def)

lemma received_arrivals: "received tr = filter (\<lambda>e. getNamespaceNameFromEventObject e \<noteq> '''') (arrivals tr)"
  by (induction tr) (auto simp: received_def arrivals_def List.map_filter_def split: action.splits)

lemma in_sentTo_iff: "e \<in> set (sentTo i tr) \<longleftrightarrow> SendTo i e \<in> set tr"
  by (induction tr) (auto simp: sentTo_def List.map_filter_def split: action.splits)

lemma SendTo_in_sentAll: "SendTo i e \<in> set tr \<Longrightarrow> e \<in> set (sentAll tr)"
  by (induction tr) (auto simp: sentAll_def List.map_filter_def split: action.splits)

section \<open>The operator refines its dispatcher\<close>

text \<open>A step of the operator is a step of the dispatcher or leaves the dispatcher alone.\<close>

lemma operatorStep_dispatches:
  assumes "operatorStep reg md s a s'"
  shows "execution (op_dispatcher s) (dispatched [a]) (op_dispatcher s')"
  using assms
  by (cases rule: operatorStep.cases)
    (auto intro: execution.start execution.step [OF execution.start, simplified])

lemma operatorRun_dispatches:
  "operatorRun reg md s tr s' \<Longrightarrow> execution (op_dispatcher s) (dispatched tr) (op_dispatcher s')"
  by (induction rule: operatorRun.induct)
    (auto intro: execution.start execution_append operatorStep_dispatches simp del: operator_history_single)

definition channelInv :: "operatorAction list \<Rightarrow> 'r operator \<Rightarrow> bool" where
  "channelInv tr s \<longleftrightarrow>
     arrivals (dispatched tr) @ op_channel s = produced tr \<and> length (op_channel s) \<le> operatorChanSize"

lemma channelInv_step:
  assumes "operatorStep reg md s a s'" and "channelInv tr s"
  shows "channelInv (tr @ [a]) s'"
  using assms(1)
proof (cases rule: operatorStep.cases)
  case (produce e q)
  then show ?thesis
    using operatorChan.send_keeps_history [OF _ produce(3)] operatorChan.send_buffer [OF produce(3)] assms(2)
    by (simp add: channelInv_def)
next
  case (receives e q d)
  then show ?thesis
    using operatorChan.recv_keeps_history [OF _ receives(3)] assms(2)
    by (cases "op_channel s") (simp_all add: channelInv_def)
next
  case (alone b d)
  then show ?thesis using assms(2) by (cases b) (simp_all add: channelInv_def)
qed (use assms(2) in \<open>simp_all add: channelInv_def\<close>)

lemma channelInv_run: "operatorRun reg md (newOperator r) tr s \<Longrightarrow> channelInv tr s"
  by (induction rule: operatorRun.induct) (simp add: channelInv_def newOperator_def, rule channelInv_step)

lemma registry_run:
  "operatorRun reg md s tr s' \<Longrightarrow> answersAll reg (op_registry s) (allCalls tr) (op_registry s')"
  by (induction rule: operatorRun.induct) (auto elim!: operatorStep.cases simp: answersAll_append)

section \<open>What each worker has called\<close>

text \<open>What a step of the dispatcher does to a worker that is there already, and when it adds one.\<close>

lemma dispatchStep_worker:
  assumes "dispatchStep d b d'" and "i < length (d_pool d)"
  shows "i < length (d_pool d')" and "wd_namespace (d_pool d' ! i) = wd_namespace (d_pool d ! i)"
    and "wd_status (d_pool d' ! i) =
      (case b of
         Take j e \<Rightarrow> if j = i then Handling e else wd_status (d_pool d ! i)
       | Finish j \<Rightarrow> if j = i then Idle else wd_status (d_pool d ! i)
       | Exit j \<Rightarrow> if j = i then Exited else wd_status (d_pool d ! i)
       | _ \<Rightarrow> wd_status (d_pool d ! i))"
proof -
  have "i < length (d_pool d') \<and> wd_namespace (d_pool d' ! i) = wd_namespace (d_pool d ! i)
    \<and> wd_status (d_pool d' ! i) =
      (case b of
         Take j e \<Rightarrow> if j = i then Handling e else wd_status (d_pool d ! i)
       | Finish j \<Rightarrow> if j = i then Idle else wd_status (d_pool d ! i)
       | Exit j \<Rightarrow> if j = i then Exited else wd_status (d_pool d ! i)
       | _ \<Rightarrow> wd_status (d_pool d ! i))"
    using assms(1)
  proof (cases rule: dispatchStep.cases)
    case (receive e j d1)
    from receive(5) show ?thesis
      using assms(2) receive(1,2) by (cases rule: getOrCreate_cases) (simp_all add: nth_append)
  next
    case (send j e q)
    with assms(2) show ?thesis by (cases "j = i") simp_all
  qed (use assms(2) in \<open>simp_all add: nth_list_update cleanUp_def cancelRequested_def\<close>)
  then show "i < length (d_pool d')" and "wd_namespace (d_pool d' ! i) = wd_namespace (d_pool d ! i)"
    and "wd_status (d_pool d' ! i) =
      (case b of
         Take j e \<Rightarrow> if j = i then Handling e else wd_status (d_pool d ! i)
       | Finish j \<Rightarrow> if j = i then Idle else wd_status (d_pool d ! i)
       | Exit j \<Rightarrow> if j = i then Exited else wd_status (d_pool d ! i)
       | _ \<Rightarrow> wd_status (d_pool d ! i))"
    by simp_all
qed

lemma dispatchStep_new_worker:
  assumes "dispatchStep d b d'" and "length (d_pool d) \<le> i" and "i < length (d_pool d')"
  shows "wd_status (d_pool d' ! i) = Idle \<and> (\<exists>e. b = Receive e)"
  using assms
  by (cases rule: dispatchStep.cases)
    (auto simp: nth_append cleanUp_def cancelRequested_def less_Suc_eq elim!: getOrCreate_cases split: if_splits)

lemma dispatchStep_enabled:
  "dispatchStep d (Take i e) d' \<Longrightarrow> i < length (d_pool d) \<and> wd_status (d_pool d ! i) = Idle"
  "dispatchStep d (Finish i) d' \<Longrightarrow> i < length (d_pool d) \<and> (\<exists>e. wd_status (d_pool d ! i) = Handling e)"
  "dispatchStep d (Exit i) d' \<Longrightarrow> i < length (d_pool d) \<and> wd_status (d_pool d ! i) = Idle"
  by (auto simp: dispatchStep_simps)

text \<open>
  How far a worker is, by the events it took, its status and its program counter, and by its
  calls so far: those of the events it has finished and a part of those for the event at hand.
\<close>

definition progress :: "namespaceWorker \<Rightarrow> event list \<Rightarrow> workerStatus \<Rightarrow> workerPc \<Rightarrow> call list \<Rightarrow> bool" where
  "progress n es st pc cs \<longleftrightarrow>
     (\<exists>finished css part. cs = concat css @ part \<and> list_all2 (eventCalls n) finished css
        \<and> (case st of
              Handling e \<Rightarrow> es = finished @ [e] \<and> pcRun (eventStart n e) part = Some pc
            | _ \<Rightarrow> es = finished \<and> part = []))"

lemma progress_start: "progress n [] Idle pc []"
  by (auto simp: progress_def)

lemma progress_take: "progress n es Idle pc cs \<Longrightarrow> progress n (es @ [e]) (Handling e) (eventStart n e) cs"
  unfolding progress_def by (elim exE conjE, intro exI conjI) auto

lemma progress_call:
  assumes "progress n es (Handling e) pc cs" and "pcNext pc cl = Some pc'"
  shows "progress n es (Handling e) pc' (cs @ [cl])"
proof -
  from assms(1) obtain finished css part where "cs = concat css @ part" "list_all2 (eventCalls n) finished css"
    "es = finished @ [e]" "pcRun (eventStart n e) part = Some pc" by (auto simp: progress_def)
  with assms(2) show ?thesis
    unfolding progress_def
    by (intro exI [where x = finished] exI [where x = css] exI [where x = "part @ [cl]"]) (simp add: pcRun_append)
qed

lemma progress_finish:
  assumes "progress n es (Handling e) AtEnd cs"
  shows "progress n es Idle pc cs"
proof -
  from assms obtain finished css part where "cs = concat css @ part" "list_all2 (eventCalls n) finished css"
    "es = finished @ [e]" "pcRun (eventStart n e) part = Some AtEnd" by (auto simp: progress_def)
  then show ?thesis
    unfolding progress_def
    by (intro exI [where x = es] exI [where x = "css @ [part]"] exI [where x = "[]"])
      (simp add: pcRun_eventCalls list_all2_appendI)
qed

lemma progress_exit: "progress n es Idle pc cs \<Longrightarrow> progress n es Exited pc' cs"
  by (auto simp: progress_def)

lemma progress_idle_pc: "progress n es Idle pc cs \<Longrightarrow> progress n es Idle pc' cs"
  by (auto simp: progress_def)

definition workerProgress :: "string gomap \<Rightarrow> operatorAction list \<Rightarrow> 'r operator \<Rightarrow> nat \<Rightarrow> bool" where
  "workerProgress md tr s i \<longleftrightarrow>
     (if i < length (d_pool (op_dispatcher s))
      then progress (workerOf md (d_pool (op_dispatcher s) ! i)) (takenBy i (dispatched tr))
             (wd_status (d_pool (op_dispatcher s) ! i)) (op_pcs s i) (callsBy i tr)
      else takenBy i (dispatched tr) = [] \<and> callsBy i tr = [])"

lemma workerProgress_dispatch:
  assumes "dispatchStep (op_dispatcher s) b d" and "workerProgress md tr s i"
    and "\<And>e. b = Take i e \<Longrightarrow> pcs i = eventStart (workerOf md (d_pool (op_dispatcher s) ! i)) e"
    and "b = Finish i \<Longrightarrow> op_pcs s i = AtEnd"
    and "(\<forall>e. b \<noteq> Take i e) \<Longrightarrow> pcs i = op_pcs s i"
  shows "workerProgress md (tr @ [Dispatch b]) (s\<lparr>op_channel := q, op_dispatcher := d, op_pcs := pcs\<rparr>) i"
proof (cases "i < length (d_pool (op_dispatcher s))")
  case True
  note w = dispatchStep_worker [OF assms(1) True]
  have same: "workerOf md (d_pool d ! i) = workerOf md (d_pool (op_dispatcher s) ! i)"
    using w(2) by (simp add: workerOf_def)
  from assms(2) True have now: "progress (workerOf md (d_pool (op_dispatcher s) ! i)) (takenBy i (dispatched tr))
      (wd_status (d_pool (op_dispatcher s) ! i)) (op_pcs s i) (callsBy i tr)"
    by (simp add: workerProgress_def)
  consider (take) e where "b = Take i e" | (finish) "b = Finish i" | (exit) "b = Exit i"
    | (other) "takenBy i [b] = []" "wd_status (d_pool d ! i) = wd_status (d_pool (op_dispatcher s) ! i)" "pcs i = op_pcs s i"
    using w(3) assms(5) by (cases b) (auto split: if_splits)
  then show ?thesis
  proof cases
    case take
    with dispatchStep_enabled(1) [of "op_dispatcher s" i e d] assms(1) now w(1,3) same assms(3) [OF take] progress_take
    show ?thesis by (simp add: workerProgress_def)
  next
    case finish
    with dispatchStep_enabled(2) [of "op_dispatcher s" i d] assms(1) now w(1,3) same assms(4) [OF finish]
    show ?thesis by (auto simp: workerProgress_def intro: progress_finish)
  next
    case exit
    with dispatchStep_enabled(3) [of "op_dispatcher s" i d] assms(1) now w(1,3) same
    show ?thesis by (auto simp: workerProgress_def intro: progress_exit)
  next
    case other
    with now w(1) same show ?thesis by (simp add: workerProgress_def)
  qed
next
  case False
  then have untouched: "takenBy i (dispatched tr) = []" "callsBy i tr = []"
    using assms(2) by (simp_all add: workerProgress_def)
  have "\<forall>e. b \<noteq> Take i e" using dispatchStep_enabled(1) [of "op_dispatcher s" i _ d] assms(1) False by blast
  then have "takenBy i [b] = []" by (simp split: action.split)
  with untouched have none: "takenBy i (dispatched (tr @ [Dispatch b])) = []" "callsBy i (tr @ [Dispatch b]) = []"
    by simp_all
  show ?thesis
    using dispatchStep_new_worker [OF assms(1), of i] False
    by (simp add: workerProgress_def none progress_start del: operator_history_append history_append)
qed

lemma workerProgress_step:
  assumes "operatorStep reg md s a s'" and "workerProgress md tr s i"
  shows "workerProgress md (tr @ [a]) s' i"
  using assms(1)
proof (cases rule: operatorStep.cases)
  case (produce e q)
  then show ?thesis using assms(2) by (simp add: workerProgress_def)
next
  case (receives e q d)
  then show ?thesis
    using workerProgress_dispatch [OF receives(4) assms(2), of "op_pcs s" q] by simp
next
  case (takes j e d)
  then show ?thesis
    using workerProgress_dispatch [OF takes(3) assms(2),
        of "(op_pcs s)(j := eventStart (workerOf md (d_pool (op_dispatcher s) ! j)) e)" "op_channel s"] by simp
next
  case (calls j e cl pc r)
  then show ?thesis
    using assms(2) progress_call by (auto simp: workerProgress_def)
next
  case (finishes j d)
  then show ?thesis
    using workerProgress_dispatch [OF finishes(4) assms(2), of "op_pcs s" "op_channel s"] by auto
next
  case (alone b d)
  then have "b \<noteq> Finish i" and "\<And>e. b \<noteq> Take i e" by auto
  then show ?thesis
    using workerProgress_dispatch [OF alone(4) assms(2), of "op_pcs s" "op_channel s"] alone(1,2) by simp
qed

lemma workerProgress_run: "operatorRun reg md (newOperator r) tr s \<Longrightarrow> workerProgress md tr s i"
  by (induction rule: operatorRun.induct)
    (simp add: workerProgress_def newOperator_def newEventHandler_def, rule workerProgress_step)

lemma callsBy_member: "Call i cl \<in> set tr \<longleftrightarrow> cl \<in> set (callsBy i tr)"
  by (induction tr) (auto simp: callsBy_def List.map_filter_def split: operatorAction.splits)

text \<open>The program counter is at its end after a deregistration.\<close>

lemma deregistered_AtEnd: "pcRun pc cs = Some pc' \<Longrightarrow> DeregisterCall t err \<in> set cs \<Longrightarrow> pc' = AtEnd"
proof (induction cs arbitrary: pc)
  case (Cons cl cs)
  then obtain pc1 where 1: "pcNext pc cl = Some pc1" "pcRun pc1 cs = Some pc'" by (auto split: option.splits)
  show ?case
  proof (cases "cl = DeregisterCall t err")
    case True
    with 1(1) have "pc1 = AtEnd" by (cases pc) (auto split: if_splits)
    with 1(2) show ?thesis by (cases cs) auto
  next
    case False
    with Cons 1 show ?thesis by simp
  qed
qed simp

lemma progress_guarded:
  assumes "progress n es st pc cs" and "DeregisterCall t err \<in> set cs"
  shows "\<exists>pre md post. cs = pre @ [GetCall t (Inr md)] @ (if mayHold t then [ListCall t NextDone] else [])
      @ [DeregisterCall t err] @ post
    \<and> isOwnedByOperator md
    \<and> (\<exists>e \<in> set es. ev_EventType e = EventDelete \<and> eventTarget n (ev_Object e) = Some t)"
proof -
  from assms(1) obtain finished css part where cs: "cs = concat css @ part" "list_all2 (eventCalls n) finished css"
    and st: "case st of Handling e \<Rightarrow> es = finished @ [e] \<and> pcRun (eventStart n e) part = Some pc
            | _ \<Rightarrow> es = finished \<and> part = []" by (auto simp: progress_def)
  show ?thesis
  proof (cases "DeregisterCall t err \<in> set part")
    case True
    with st obtain e where e: "es = finished @ [e]" "pcRun (eventStart n e) part = Some pc"
      by (cases st) auto
    with deregistered_AtEnd True have "eventCalls n e part" by (simp flip: pcRun_eventCalls)
    then have "list_all2 (eventCalls n) es (css @ [part])" by (simp add: e(1) cs(2) list_all2_appendI)
    from guarded_in_calls [OF this] True show ?thesis by (simp add: cs(1))
  next
    case False
    with assms(2) cs(1) have "DeregisterCall t err \<in> set (concat css)" by auto
    from guarded_in_calls [OF cs(2) this] obtain pre md post where
      "concat css = pre @ [GetCall t (Inr md)] @ (if mayHold t then [ListCall t NextDone] else []) @ [DeregisterCall t err] @ post"
      and rest: "isOwnedByOperator md" "\<exists>e \<in> set finished. ev_EventType e = EventDelete \<and> eventTarget n (ev_Object e) = Some t"
      by blast
    then have "cs = pre @ [GetCall t (Inr md)] @ (if mayHold t then [ListCall t NextDone] else [])
        @ [DeregisterCall t err] @ (post @ part)" by (simp add: cs(1))
    moreover have "set finished \<subseteq> set es" using st by (cases st) auto
    ultimately show ?thesis using rest by blast
  qed
qed

lemma progress_namespace:
  assumes "progress n es st pc cs" and "cl \<in> set cs"
  shows "targetNamespace (callTarget cl) = nw_namespace n"
proof -
  from assms(1) obtain finished css part where cs: "cs = concat css @ part" "list_all2 (eventCalls n) finished css"
    and st: "case st of Handling e \<Rightarrow> es = finished @ [e] \<and> pcRun (eventStart n e) part = Some pc
            | _ \<Rightarrow> es = finished \<and> part = []" by (auto simp: progress_def)
  show ?thesis
  proof (cases "cl \<in> set part")
    case True
    with st pcRun_eventStart_namespace show ?thesis by (cases st) auto
  next
    case False
    with assms(2) cs eventCalls_namespace show ?thesis
      by (auto simp: list_all2_conv_all_nth in_set_conv_nth) metis
  qed
qed

text \<open>A worker of the operator with its invariants, from the history of the operator.\<close>

lemma operatorRun_worker:
  assumes "operatorRun reg md (newOperator r) tr s"
  shows "execution newEventHandler (dispatched tr) (op_dispatcher s)"
    and "Call i cl \<in> set tr \<Longrightarrow> i < length (d_pool (op_dispatcher s))"
    and "i < length (d_pool (op_dispatcher s)) \<Longrightarrow>
      progress (workerOf md (d_pool (op_dispatcher s) ! i)) (takenBy i (dispatched tr))
        (wd_status (d_pool (op_dispatcher s) ! i)) (op_pcs s i) (callsBy i tr)"
proof -
  show "execution newEventHandler (dispatched tr) (op_dispatcher s)"
    using operatorRun_dispatches [OF assms] by (simp add: newOperator_def)
  note w = workerProgress_run [OF assms, of i]
  show "i < length (d_pool (op_dispatcher s))" if "Call i cl \<in> set tr"
    using that w by (cases "i < length (d_pool (op_dispatcher s))") (simp_all add: workerProgress_def callsBy_member)
  show "i < length (d_pool (op_dispatcher s)) \<Longrightarrow>
      progress (workerOf md (d_pool (op_dispatcher s) ! i)) (takenBy i (dispatched tr))
        (wd_status (d_pool (op_dispatcher s) ! i)) (op_pcs s i) (callsBy i tr)"
    using w by (simp add: workerProgress_def)
qed

lemma taken_produced:
  assumes "operatorRun reg md (newOperator r) tr s" and "e \<in> set (takenBy i (dispatched tr))"
  shows "e \<in> set (produced tr) \<and> i < length (d_pool (op_dispatcher s))
    \<and> getNamespaceNameFromEventObject e = wd_namespace (d_pool (op_dispatcher s) ! i)"
proof -
  note ex = operatorRun_worker(1) [OF assms(1)]
  note inv = reachable_invariants [OF ex]
  have i: "i < length (d_pool (op_dispatcher s))"
    using assms(2) queueInvD(4) [of "dispatched tr" "op_dispatcher s" i] inv by (fastforce simp: not_less [symmetric])
  then have sent: "e \<in> set (sentTo i (dispatched tr))"
    using queueInvD(1) [of "dispatched tr" "op_dispatcher s" i] inv assms(2) by (metis Un_iff set_append)
  then have "e \<in> set (sentAll (dispatched tr))" by (simp add: in_sentTo_iff SendTo_in_sentAll)
  then have "e \<in> set (received (dispatched tr))" using inv unfolding orderInv_def by (metis Un_iff set_append)
  then have "e \<in> set (arrivals (dispatched tr))" by (simp add: received_arrivals)
  moreover have "arrivals (dispatched tr) @ op_channel s = produced tr"
    using channelInv_run [OF assms(1)] by (simp add: channelInv_def)
  ultimately have "e \<in> set (produced tr)" by (metis Un_iff set_append)
  with i sent queueInvD(2) [of "dispatched tr" "op_dispatcher s" i e] inv show ?thesis by simp
qed

section \<open>Properties\<close>

text \<open>
  A run in which the namespace is created and then deleted; the clean-up comes while the
  second event waits, and changes nothing.
\<close>

definition exampleOwner :: "string gomap" where
  "exampleOwner = fmap_of_list [(''owner'', ''cnwan-operator'')]"

definition exampleDeletion :: event where
  "exampleDeletion = mkEvent EventDelete (NamespaceObject ''shop'')"

definition exampleSchedule :: "schedule list" where
  "exampleSchedule =
     [Send exampleEvent, Do (Receive exampleEvent), Send exampleDeletion, Do (SendTo 0 exampleEvent),
      Do (Take 0 exampleEvent), Do CleanUp, Do (Receive exampleDeletion), CallOf 0, Do (SendTo 0 exampleDeletion),
      Do (Finish 0), Do (Take 0 exampleDeletion), CallOf 0, CallOf 0, CallOf 0, Do (Finish 0)]"

lemma exampleSchedule_runs:
  "(case operateAll memoryClient exampleOwner exampleSchedule (newOperator fmempty) of
      None \<Rightarrow> False
    | Some (tr, s) \<Rightarrow>
        callsBy 0 tr = [RegisterCall (NamespaceAt ''shop'') [WithMetadata exampleOwner] None,
          GetCall (NamespaceAt ''shop'') (Inr exampleOwner), ListCall (NamespaceAt ''shop'') NextDone,
          DeregisterCall (NamespaceAt ''shop'') None]
        \<and> op_registry s = fmempty \<and> op_channel s = [] \<and> d_pc (op_dispatcher s) = Selecting
        \<and> length (d_pool (op_dispatcher s)) = 1 \<and> wd_status (d_pool (op_dispatcher s) ! 0) = Idle
        \<and> wd_queue (d_pool (op_dispatcher s) ! 0) = [] \<and> \<not> d_mainDone (op_dispatcher s))"
  by code_simp

lemma exampleRun:
  obtains tr s where "operatorRun (clientAnswers memoryClient) exampleOwner (newOperator fmempty) tr s"
    and "callsBy 0 tr = [RegisterCall (NamespaceAt ''shop'') [WithMetadata exampleOwner] None,
          GetCall (NamespaceAt ''shop'') (Inr exampleOwner), ListCall (NamespaceAt ''shop'') NextDone,
          DeregisterCall (NamespaceAt ''shop'') None]"
    and "op_registry s = fmempty" and "op_channel s = []" and "d_pc (op_dispatcher s) = Selecting"
    and "length (d_pool (op_dispatcher s)) = 1" and "wd_status (d_pool (op_dispatcher s) ! 0) = Idle"
    and "wd_queue (d_pool (op_dispatcher s) ! 0) = []" and "\<not> d_mainDone (op_dispatcher s)"
proof -
  obtain tr s where "operateAll memoryClient exampleOwner exampleSchedule (newOperator fmempty) = Some (tr, s)"
    using exampleSchedule_runs by (auto split: option.splits)
  with exampleSchedule_runs operateAll_run [OF this] that show thesis by simp
qed

text \<open>
  The operator refines its dispatcher: whatever the interleaving of controllers, dispatcher,
  workers and registry, the dispatcher and its workers run as they do on their own, so that
  every property of their executions holds of the operator. The events that were received, followed by
  those in the channel, at most a hundred, are those sent by the controllers, in their order,
  and the registry is where its answers to all calls have led it.
\<close>

theorem operator_refines_dispatcher:
  assumes "operatorRun reg md (newOperator r) tr s"
  shows "execution newEventHandler (dispatched tr) (op_dispatcher s)
    \<and> arrivals (dispatched tr) @ op_channel s = produced tr \<and> length (op_channel s) \<le> operatorChanSize
    \<and> answersAll reg r (allCalls tr) (op_registry s)"
  using operatorRun_worker(1) [OF assms] channelInv_run [OF assms] registry_run [OF assms]
  by (simp add: channelInv_def newOperator_def)

theorem operator_refines_dispatcher_witness:
  "\<exists>tr (s :: memory operator). execution newEventHandler (dispatched tr) (op_dispatcher s) \<and> arrivals (dispatched tr) = produced tr
     \<and> answersAll (clientAnswers memoryClient) fmempty (allCalls tr) fmempty
     \<and> callsBy 0 tr \<noteq> []"
proof -
  obtain tr s where run: "operatorRun (clientAnswers memoryClient) exampleOwner (newOperator fmempty) tr s"
    and "callsBy 0 tr \<noteq> []" "op_registry s = fmempty" "op_channel s = []"
    using exampleRun by (metis list.distinct(1))
  with operator_refines_dispatcher [OF run] show ?thesis
    by (intro exI [where x = tr] exI [where x = s]) simp
qed

text \<open>
  C4. Deregistrations of the running operator: each is on behalf of a deletion event that a
  controller sent, for that object in that namespace, is made by a worker of that namespace, and
  that worker has asked, directly before and with nothing else in between, for the object, which named the
  operator as its owner, and, for a service or a namespace, for objects in it, and found
  none. This holds for any registry and any interleaving.
\<close>

theorem operator_deregisters_guarded:
  assumes "operatorRun reg md (newOperator r) tr s" and "Call i (DeregisterCall t err) \<in> set tr"
  shows "(\<exists>pre found post. callsBy i tr = pre @ [GetCall t (Inr found)] @ (if mayHold t then [ListCall t NextDone] else [])
        @ [DeregisterCall t err] @ post \<and> isOwnedByOperator found)
    \<and> i < length (d_pool (op_dispatcher s)) \<and> wd_namespace (d_pool (op_dispatcher s) ! i) = targetNamespace t
    \<and> (\<exists>e \<in> set (produced tr). ev_EventType e = EventDelete \<and> getNamespaceNameFromEventObject e = targetNamespace t
         \<and> eventTarget (workerOf md (d_pool (op_dispatcher s) ! i)) (ev_Object e) = Some t)"
proof -
  let ?w = "d_pool (op_dispatcher s) ! i"
  note i = operatorRun_worker(2) [OF assms]
  have mem: "DeregisterCall t err \<in> set (callsBy i tr)" using assms(2) by (simp add: callsBy_member)
  note now = operatorRun_worker(3) [OF assms(1) i]
  from progress_guarded [OF now mem] obtain e where
    e: "e \<in> set (takenBy i (dispatched tr))" "ev_EventType e = EventDelete" "eventTarget (workerOf md ?w) (ev_Object e) = Some t"
    by blast
  have "targetNamespace t = wd_namespace ?w"
    using progress_namespace [OF now mem] by (simp add: workerOf_def)
  with i taken_produced [OF assms(1) e(1)] e(2,3) have "i < length (d_pool (op_dispatcher s)) \<and> wd_namespace ?w = targetNamespace t
    \<and> (\<exists>e \<in> set (produced tr). ev_EventType e = EventDelete \<and> getNamespaceNameFromEventObject e = targetNamespace t
         \<and> eventTarget (workerOf md ?w) (ev_Object e) = Some t)" by auto
  with progress_guarded [OF now mem] show ?thesis by blast
qed

theorem operator_deregisters_guarded_witness:
  "\<exists>tr pre found post. callsBy 0 tr = pre @ [GetCall (NamespaceAt ''shop'') (Inr found)]
      @ [ListCall (NamespaceAt ''shop'') NextDone] @ [DeregisterCall (NamespaceAt ''shop'') None] @ post
    \<and> isOwnedByOperator found \<and> (\<exists>e \<in> set (produced tr). ev_EventType e = EventDelete)"
proof -
  obtain tr s where run: "operatorRun (clientAnswers memoryClient) exampleOwner (newOperator fmempty) tr s"
    and "DeregisterCall (NamespaceAt ''shop'') None \<in> set (callsBy 0 tr)"
    using exampleRun by (metis list.set_intros)
  then have "Call 0 (DeregisterCall (NamespaceAt ''shop'') None) \<in> set tr" by (simp add: callsBy_member)
  from operator_deregisters_guarded [OF run this] show ?thesis by auto
qed

end
