(* ===== verification/Registry_Contract.thy ===== *)
theory Registry_Contract
  imports Worker_Steps
begin

text \<open>
  What a registry is relied upon to do, as a relation between the contents before and after a
  call with its outcome. A contract that speaks of one namespace at a time holds of the part
  of a registry in each namespace, with the calls that point into it: the locale
  \<open>namespaced_contract\<close>, met by the laws of a registry and by those of one that does all it is asked.
\<close>

section \<open>Contracts\<close>

text \<open>
  \<open>meets reg view obeys\<close>: every answer of the registry is one that the contract allows.
  \<open>answered\<close> says that a call was carried out, if it could be.
\<close>

definition meets :: "'r registry \<Rightarrow> ('r \<Rightarrow> contents) \<Rightarrow> contents registry \<Rightarrow> bool" where
  "meets reg view obeys \<longleftrightarrow> (\<forall>r cl r'. reg r cl r' \<longrightarrow> obeys (view r) cl (view r'))"

fun answered :: "contents \<Rightarrow> call \<Rightarrow> bool" where
  "answered m (RegisterCall t opts err) \<longleftrightarrow> err = None"
| "answered m (GetCall t g) \<longleftrightarrow> (m t \<noteq> None \<longrightarrow> (\<exists>md. g = Inr md))"
| "answered m (DeregisterCall t err) \<longleftrightarrow> (m t \<noteq> None \<longrightarrow> err = None)"
| "answered m (ListCall t x) \<longleftrightarrow> (x = NextFound \<or> x = NextDone)"

definition wellAnswered :: "contents registry" where
  "wellAnswered m cl m' \<longleftrightarrow> callOk m cl m' \<and> answered m cl"

text \<open>One worker that handles the events one after the other, on any registry that meets the contract.\<close>

definition handledInOrder :: "contents registry \<Rightarrow> namespaceWorker \<Rightarrow> event list \<Rightarrow> contents \<Rightarrow> contents \<Rightarrow> bool" where
  "handledInOrder obeys n es m m' \<longleftrightarrow> (\<exists>css. list_all2 (eventCalls n) es css \<and> answersAll obeys m (concat css) m')"

lemma answersAll_meets: "meets reg view obeys \<Longrightarrow> answersAll reg r cs r' \<Longrightarrow> answersAll obeys (view r) cs (view r')"
  unfolding meets_def by (induction cs arbitrary: r) (simp, fastforce)

lemma client_meets:
  assumes "registryLaws c view"
  shows "meets (clientAnswers c) view callOk"
  unfolding meets_def
proof (intro allI impI)
  fix r cl r'
  assume "clientAnswers c r cl r'"
  then show "callOk (view r) cl (view r')"
    by (cases cl) (auto intro: registryLawsD [OF assms])
qed

lemma handleAll_answered:
  assumes "run_state (handleAll c n es) r = (cs, r')"
  shows "\<exists>css. cs = concat css \<and> list_all2 (eventCalls n) es css \<and> answersAll (clientAnswers c) r cs r'"
  using assms
proof (induction es arbitrary: r cs)
  case (Cons e es)
  obtain cs1 r1 where 1: "run_state (handleNamespacedEvent c n e) r = (cs1, r1)" by fastforce
  obtain cs2 r2 where 2: "run_state (handleAll c n es) r1 = (cs2, r2)" by fastforce
  from Cons.prems 1 2 have eq: "cs = cs1 @ cs2" "r' = r2" by auto
  from Cons.IH [of r1 cs2] 2 eq obtain css where
    "cs2 = concat css" "list_all2 (eventCalls n) es css" "answersAll (clientAnswers c) r1 cs2 r'" by auto
  with eq handleNamespacedEvent_calls [OF 1] handled_answered [OF 1] show ?case
    by (intro exI [where x = "cs1 # css"]) (auto simp: answersAll_append)
qed (auto intro: exI [where x = "[]"])

lemma handleAll_inOrder:
  assumes "meets (clientAnswers c) view obeys" and "run_state (handleAll c n es) r = (cs, r')"
  shows "handledInOrder obeys n es (view r) (view r')"
  using handleAll_answered [OF assms(2)] answersAll_meets [OF assms(1)] unfolding handledInOrder_def by blast

lemma handledInOrder_append:
  "handledInOrder obeys n (es @ es') m m' \<longleftrightarrow> (\<exists>m1. handledInOrder obeys n es m m1 \<and> handledInOrder obeys n es' m1 m')"
proof
  assume "handledInOrder obeys n (es @ es') m m'"
  then show "\<exists>m1. handledInOrder obeys n es m m1 \<and> handledInOrder obeys n es' m1 m'"
    unfolding handledInOrder_def list_all2_append1 by (clarsimp simp: answersAll_append) blast
next
  assume "\<exists>m1. handledInOrder obeys n es m m1 \<and> handledInOrder obeys n es' m1 m'"
  then obtain m1 css css' where "list_all2 (eventCalls n) es css" "answersAll obeys m (concat css) m1"
    "list_all2 (eventCalls n) es' css'" "answersAll obeys m1 (concat css') m'" unfolding handledInOrder_def by blast
  then show "handledInOrder obeys n (es @ es') m m'"
    unfolding handledInOrder_def
    by (intro exI [where x = "css @ css'"]) (auto simp: answersAll_append list_all2_appendI)
qed

lemma handledInOrder_Nil [simp]: "handledInOrder obeys n [] m m' \<longleftrightarrow> m' = m"
  by (simp add: handledInOrder_def)

lemma handledInOrder_single: "handledInOrder obeys n [e] m m' \<longleftrightarrow> (\<exists>cs. eventCalls n e cs \<and> answersAll obeys m cs m')"
  unfolding handledInOrder_def list_all2_Cons1 by auto

lemma handledInOrder_ConsE:
  assumes "handledInOrder obeys n (e # es) m m'"
  obtains m1 where "handledInOrder obeys n [e] m m1" and "handledInOrder obeys n es m1 m'"
  using assms handledInOrder_append [of obeys n "[e]" es m m'] by auto

section \<open>One namespace of a registry\<close>

definition restrictTo :: "string \<Rightarrow> contents \<Rightarrow> contents" where
  "restrictTo ns m = (\<lambda>u. if targetNamespace u = ns then m u else None)"

definition callsIn :: "string \<Rightarrow> call list \<Rightarrow> call list" where
  "callsIn ns = filter (\<lambda>cl. targetNamespace (callTarget cl) = ns)"

lemma parent_namespace: "parent u = Some t \<Longrightarrow> targetNamespace u = targetNamespace t"
  by (cases u) auto

lemma childless_restrict: "targetNamespace t = ns \<Longrightarrow> childless (restrictTo ns m) t \<longleftrightarrow> childless m t"
  unfolding childless_def restrictTo_def using parent_namespace by fastforce

lemma registered_restrict:
  "registered m t opts m' \<Longrightarrow> targetNamespace t = ns \<Longrightarrow> registered (restrictTo ns m) t opts (restrictTo ns m')"
  unfolding registered_def restrictTo_def by (auto simp: fun_eq_iff)

lemma removed_restrict:
  "removed m t m' \<Longrightarrow> targetNamespace t = ns \<Longrightarrow> removed (restrictTo ns m) t (restrictTo ns m')"
  unfolding removed_def restrictTo_def by auto

locale namespaced_contract =
  fixes obeys :: "contents registry"
  assumes own_namespace: "obeys m cl m' \<Longrightarrow> targetNamespace (callTarget cl) = ns \<Longrightarrow>
      obeys (restrictTo ns m) cl (restrictTo ns m')"
    and other_namespace: "obeys m cl m' \<Longrightarrow> targetNamespace (callTarget cl) \<noteq> ns \<Longrightarrow>
      restrictTo ns m' = restrictTo ns m"
begin

lemma within:
  "answersAll obeys m cs m' \<Longrightarrow> answersAll obeys (restrictTo ns m) (callsIn ns cs) (restrictTo ns m')"
proof (induction cs arbitrary: m)
  case (Cons cl cs)
  then obtain m1 where 1: "obeys m cl m1" "answersAll obeys m1 cs m'" by auto
  show ?case
  proof (cases "targetNamespace (callTarget cl) = ns")
    case True
    with Cons.IH [OF 1(2)] own_namespace [OF 1(1) True] show ?thesis by (auto simp: callsIn_def)
  next
    case False
    with Cons.IH [OF 1(2)] other_namespace [OF 1(1) False] show ?thesis by (simp add: callsIn_def)
  qed
qed (simp add: callsIn_def)

end

lemma callOk_restrict:
  "callOk m cl m' \<Longrightarrow> targetNamespace (callTarget cl) = ns \<Longrightarrow> callOk (restrictTo ns m) cl (restrictTo ns m')"
  by (induction m cl m' rule: callOk.induct)
    (auto simp: childless_restrict registered_restrict removed_restrict; simp add: restrictTo_def)+

interpretation lawfulRegistry: namespaced_contract callOk
proof unfold_locales
  show "restrictTo ns m' = restrictTo ns m" if "callOk m cl m'" and "targetNamespace (callTarget cl) \<noteq> ns" for m cl m' ns
    using callOk_namespace [OF that(1)] that(2) by (auto simp: restrictTo_def fun_eq_iff)
qed (rule callOk_restrict)

interpretation dependableRegistry: namespaced_contract wellAnswered
proof unfold_locales
  fix m cl m' ns
  assume "wellAnswered m cl m'" and "targetNamespace (callTarget cl) = ns"
  moreover from this have "answered (restrictTo ns m) cl \<longleftrightarrow> answered m cl"
    by (cases cl) (simp_all add: restrictTo_def)
  ultimately show "wellAnswered (restrictTo ns m) cl (restrictTo ns m')"
    by (simp add: wellAnswered_def callOk_restrict)
qed (auto simp: wellAnswered_def intro: lawfulRegistry.other_namespace)

end
