(* ===== verification/Namespace_Order.thy ===== *)
theory Namespace_Order
  imports Operator_System Registry_Contract
begin

text \<open>
  What the operator promises for each namespace: its events are handled one after the other in
  the order in which the controllers sent them. The specification is a queue of events for each
  namespace; the operator refines it as long as the clean-up removes only workers with
  nothing to do, and then the calls for a namespace are those of a single worker on a
  registry of its own, whatever the others do meanwhile.
\<close>

section \<open>Specification\<close>

type_synonym queues = "string \<Rightarrow> event list"

datatype specAction = Accept event | Deliver event | Silent

inductive specStep :: "queues \<Rightarrow> specAction \<Rightarrow> queues \<Rightarrow> bool" where
  accept: "getNamespaceNameFromEventObject e = ns \<Longrightarrow> ns \<noteq> '''' \<Longrightarrow> specStep q (Accept e) (q(ns := q ns @ [e]))"
| ignore: "getNamespaceNameFromEventObject e = '''' \<Longrightarrow> specStep q (Accept e) q"
| deliver: "getNamespaceNameFromEventObject e = ns \<Longrightarrow> q ns = e # es \<Longrightarrow> specStep q (Deliver e) (q(ns := es))"
| silent: "specStep q Silent q"

inductive specRun :: "queues \<Rightarrow> specAction list \<Rightarrow> queues \<Rightarrow> bool" for q where
  spec_none: "specRun q [] q"
| spec_more: "specRun q as q1 \<Longrightarrow> specStep q1 a q2 \<Longrightarrow> specRun q (as @ [a]) q2"

fun specified :: "operatorAction \<Rightarrow> specAction" where
  "specified (Produce e) = Accept e"
| "specified (Dispatch (Take i e)) = Deliver e"
| "specified _ = Silent"

text \<open>The events of a namespace among those given, and those that its workers have taken.\<close>

definition ofNamespace :: "string \<Rightarrow> event list \<Rightarrow> event list" where
  "ofNamespace ns = filter (\<lambda>e. getNamespaceNameFromEventObject e = ns)"

definition takenAll :: "action list \<Rightarrow> event list" where
  "takenAll = List.map_filter (\<lambda>a. case a of Take i e \<Rightarrow> Some e | _ \<Rightarrow> None)"

lemma ofNamespace_simps [simp]:
  "ofNamespace ns [] = []" "ofNamespace ns (xs @ ys) = ofNamespace ns xs @ ofNamespace ns ys"
  "ofNamespace ns (e # es) = (if getNamespaceNameFromEventObject e = ns then e # ofNamespace ns es else ofNamespace ns es)"
  by (simp_all add: ofNamespace_def)

lemma takenAll_simps [simp]:
  "takenAll [] = []" "takenAll (xs @ ys) = takenAll xs @ takenAll ys"
  "takenAll [a] = (case a of Take i e \<Rightarrow> [e] | _ \<Rightarrow> [])"
  by (simp_all add: takenAll_def map_filter_append) (simp add: List.map_filter_def split: action.split)

text \<open>The specification is first in, first out.\<close>

lemma specStep_fifo:
  assumes "specStep (absq s) (specified a) (absq s')" and "ns \<noteq> ''''"
    and "ofNamespace ns (takenAll (dispatched tr)) @ absq s ns = ofNamespace ns (produced tr)"
  shows "ofNamespace ns (takenAll (dispatched (tr @ [a]))) @ absq s' ns = ofNamespace ns (produced (tr @ [a]))"
proof (cases a)
  case (Produce e)
  with assms show ?thesis by (auto elim!: specStep.cases)
next
  case (Dispatch b)
  with assms show ?thesis by (cases b) (auto elim!: specStep.cases)
next
  case (Call i cl)
  with assms show ?thesis by (auto elim!: specStep.cases)
qed

section \<open>Calm runs\<close>

definition quiet :: "namespaceWorkerData \<Rightarrow> bool" where
  "quiet w \<longleftrightarrow> wd_queue w = [] \<and> (\<forall>e. wd_status w \<noteq> Handling e)"

text \<open>A clean-up is calm if no worker that it removes has an event in its hands or in its queue.\<close>

definition calm :: "dispatcher \<Rightarrow> action \<Rightarrow> bool" where
  "calm d b \<longleftrightarrow> (b = CleanUp \<longrightarrow> (\<forall>i. i |\<in>| fmran (toRemove d) \<longrightarrow> quiet (d_pool d ! i)))"

inductive calmRun :: "'r registry \<Rightarrow> string gomap \<Rightarrow> 'r operator \<Rightarrow> operatorAction list \<Rightarrow> 'r operator \<Rightarrow> bool"
  for reg md s where
  calm_none: "calmRun reg md s [] s"
| calm_more: "calmRun reg md s tr s1 \<Longrightarrow> operatorStep reg md s1 a s2 \<Longrightarrow>
    (\<And>b. a = Dispatch b \<Longrightarrow> calm (op_dispatcher s1) b) \<Longrightarrow> calmRun reg md s (tr @ [a]) s2"

lemma calmRun_run: "calmRun reg md s tr s' \<Longrightarrow> operatorRun reg md s tr s'"
  by (induction rule: calmRun.induct) (auto intro: operatorRun.intros)

text \<open>Of several workers of a namespace only the last has anything to do.\<close>

definition calmInv :: "dispatcher \<Rightarrow> bool" where
  "calmInv d \<longleftrightarrow>
     (\<forall>i j. i < j \<longrightarrow> j < length (d_pool d) \<longrightarrow> wd_namespace (d_pool d ! i) = wd_namespace (d_pool d ! j) \<longrightarrow>
        wd_canceled (d_pool d ! i) \<and> quiet (d_pool d ! i))
     \<and> (d_pc d \<noteq> Waiting \<longrightarrow> d_pc d \<noteq> Returned \<longrightarrow>
         (\<forall>i < length (d_pool d). wd_canceled (d_pool d ! i) \<longrightarrow> quiet (d_pool d ! i)))"

lemma calmInvD:
  assumes "calmInv d"
  shows "i < j \<Longrightarrow> j < length (d_pool d) \<Longrightarrow> wd_namespace (d_pool d ! i) = wd_namespace (d_pool d ! j) \<Longrightarrow>
      wd_canceled (d_pool d ! i) \<and> quiet (d_pool d ! i)"
    and "d_pc d \<noteq> Waiting \<Longrightarrow> d_pc d \<noteq> Returned \<Longrightarrow> i < length (d_pool d) \<Longrightarrow> wd_canceled (d_pool d ! i) \<Longrightarrow> quiet (d_pool d ! i)"
  using assms unfolding calmInv_def by blast+

lemma calmInvI:
  assumes "\<And>i j. i < j \<Longrightarrow> j < length (d_pool d) \<Longrightarrow> wd_namespace (d_pool d ! i) = wd_namespace (d_pool d ! j) \<Longrightarrow>
      wd_canceled (d_pool d ! i) \<and> quiet (d_pool d ! i)"
    and "\<And>i. d_pc d \<noteq> Waiting \<Longrightarrow> d_pc d \<noteq> Returned \<Longrightarrow> i < length (d_pool d) \<Longrightarrow> wd_canceled (d_pool d ! i) \<Longrightarrow> quiet (d_pool d ! i)"
  shows "calmInv d"
  using assms unfolding calmInv_def by blast

lemma calmInv_unique:
  assumes "calmInv d" and "i < length (d_pool d)" and "j < length (d_pool d)"
    and "wd_namespace (d_pool d ! i) = wd_namespace (d_pool d ! j)"
    and "\<not> quiet (d_pool d ! i)" and "\<not> quiet (d_pool d ! j)"
  shows "i = j"
  using calmInvD(1) [OF assms(1), of i j] calmInvD(1) [OF assms(1), of j i] assms(2-) by (metis linorder_neqE_nat)

text \<open>A step that keeps who is cancelled keeps the invariant, if it wakes up only workers that it may.\<close>

lemma calmInv_cong:
  assumes "calmInv d" and "length (d_pool d') = length (d_pool d)"
    and "\<And>i. i < length (d_pool d) \<Longrightarrow> wd_namespace (d_pool d' ! i) = wd_namespace (d_pool d ! i)
        \<and> (wd_canceled (d_pool d ! i) \<longrightarrow> wd_canceled (d_pool d' ! i))
        \<and> (quiet (d_pool d ! i) \<longrightarrow> quiet (d_pool d' ! i) \<or> \<not> wd_canceled (d_pool d ! i))
        \<and> (wd_canceled (d_pool d' ! i) \<longrightarrow> wd_canceled (d_pool d ! i) \<or> d_pc d' = Waiting \<or> d_pc d' = Returned
             \<or> quiet (d_pool d' ! i))"
    and "d_pc d = Waiting \<or> d_pc d = Returned \<Longrightarrow> d_pc d' = Waiting \<or> d_pc d' = Returned"
  shows "calmInv d'"
proof (rule calmInvI)
  fix i j
  assume "i < j" "j < length (d_pool d')" "wd_namespace (d_pool d' ! i) = wd_namespace (d_pool d' ! j)"
  with calmInvD(1) [OF assms(1), of i j] assms(2) assms(3) [of i] assms(3) [of j]
  show "wd_canceled (d_pool d' ! i) \<and> quiet (d_pool d' ! i)" by auto
next
  fix i
  assume "d_pc d' \<noteq> Waiting" "d_pc d' \<noteq> Returned" "i < length (d_pool d')" "wd_canceled (d_pool d' ! i)"
  with calmInvD(2) [OF assms(1), of i] assms(2) assms(3) [of i] assms(4) show "quiet (d_pool d' ! i)" by auto
qed

lemma calmInv_new:
  assumes "calmInv d" and "mapInv d" and "d_pc d = Selecting" and "fmlookup (d_workers d) name = None"
    and "d_pool d' = d_pool d @ [w]" and "wd_namespace w = name" and "quiet w" and "\<not> wd_canceled w"
  shows "calmInv d'"
proof (rule calmInvI)
  fix i j
  assume ij: "i < j" "j < length (d_pool d')" "wd_namespace (d_pool d' ! i) = wd_namespace (d_pool d' ! j)"
  show "wd_canceled (d_pool d' ! i) \<and> quiet (d_pool d' ! i)"
  proof (cases "j = length (d_pool d)")
    case True
    with ij assms(5,6) have i: "i < length (d_pool d)" "wd_namespace (d_pool d ! i) = name"
      by (simp_all add: nth_append)
    then have "wd_canceled (d_pool d ! i)" using mapInvD_live [OF assms(2) i(1)] assms(4) by auto
    with calmInvD(2) [OF assms(1) _ _ i(1)] assms(3,5) i(1) show ?thesis by (simp add: nth_append)
  next
    case False
    with ij assms(5) calmInvD(1) [OF assms(1), of i j] show ?thesis by (simp add: nth_append)
  qed
next
  fix i
  assume "i < length (d_pool d')" "wd_canceled (d_pool d' ! i)"
  with assms(3,5,7,8) calmInvD(2) [OF assms(1), of i] show "quiet (d_pool d' ! i)"
    by (cases "i < length (d_pool d)") (auto simp: nth_append less_Suc_eq)
qed

lemma calmInv_step:
  assumes "dispatchStep d b d'" and "calm d b" and "calmInv d" and "mapInv d" and "pcInv d"
  shows "calmInv d'"
  using assms(1)
proof (cases rule: dispatchStep.cases)
  case (receive e i d1)
  from receive(5) show ?thesis
  proof (cases rule: getOrCreate_cases)
    case old
    then show ?thesis using receive(2) by (intro calmInv_cong [OF assms(3)]) (simp_all add: receive(3))
  next
    case new
    define w where "w = \<lparr>wd_namespace = getNamespaceNameFromEventObject e, wd_queue = [], wd_canceled = False,
      wd_lastEvent = None, wd_status = Idle\<rparr>"
    have "d_pool d' = d_pool d @ [w]" by (simp add: receive(2) new(3) w_def)
    then show ?thesis
      by (rule calmInv_new [OF assms(3,4) receive(3) new(1)]) (simp_all add: quiet_def w_def)
  qed
next
  case (send i e q)
  have "\<not> wd_canceled (d_pool d ! i)" "i < length (d_pool d)"
    using mapInvD(1,3) [OF assms(4)] assms(5) send(3) by (auto simp: pcInv_def)
  then show ?thesis
    using send(2,3) by (intro calmInv_cong [OF assms(3)]) (auto simp: nth_list_update quiet_def)
next
  case cleanUpTicker
  then show ?thesis
    using assms(2) by (intro calmInv_cong [OF assms(3)]) (auto simp: cleanUp_def calm_def quiet_def)
next
  case stop
  then show ?thesis
    by (intro calmInv_cong [OF assms(3)]) (auto simp: cancelRequested_def quiet_def)
next
  case (take i e q)
  then have "\<not> quiet (d_pool d ! i)" by (auto simp: quiet_def)
  then show ?thesis
    using take(2,3) by (intro calmInv_cong [OF assms(3)]) (auto simp: nth_list_update quiet_def)
qed (intro calmInv_cong [OF assms(3)]; auto simp: nth_list_update quiet_def)+

lemma calmRun_invariants:
  assumes "calmRun reg md (newOperator r) tr s"
  shows "calmInv (op_dispatcher s) \<and> dispatcherInv (op_dispatcher s)"
  using assms
proof (induction rule: calmRun.induct)
  case calm_none
  show ?case using dispatcherInv_new by (simp add: newOperator_def calmInv_def newEventHandler_def)
next
  case (calm_more tr s1 a s2)
  have inv: "mapInv (op_dispatcher s1)" "pcInv (op_dispatcher s1)" using calm_more.IH by (simp_all add: dispatcherInv_def)
  have "calmInv (op_dispatcher s2)"
    using calm_more(2)
  proof (cases rule: operatorStep.cases)
    case (receives e q d)
    with calm_more calmInv_step [OF receives(4) _ _ inv] show ?thesis by simp
  next
    case (takes i e d)
    with calm_more calmInv_step [OF takes(3) _ _ inv] show ?thesis by simp
  next
    case (finishes i d)
    with calm_more calmInv_step [OF finishes(4) _ _ inv] show ?thesis by simp
  next
    case (alone b d)
    with calm_more calmInv_step [OF alone(4) _ _ inv] show ?thesis by simp
  qed (use calm_more in simp_all)
  then show ?case
    using dispatcherInv_execution [OF operatorStep_dispatches [OF calm_more(2)]] calm_more.IH by simp
qed

section \<open>Refinement\<close>

text \<open>The queue of a namespace: in its workers, in the hands of the dispatcher, in the channel.\<close>

definition poolQueue :: "string \<Rightarrow> namespaceWorkerData list \<Rightarrow> event list" where
  "poolQueue ns ws = concat (map (\<lambda>w. if wd_namespace w = ns then wd_queue w else []) ws)"

definition absQueues :: "'r operator \<Rightarrow> queues" where
  "absQueues s ns =
     (if ns = '''' then []
      else poolQueue ns (d_pool (op_dispatcher s)) @ ofNamespace ns (pending (op_dispatcher s))
             @ ofNamespace ns (op_channel s))"

lemma poolQueue_split:
  assumes "i < length ws"
  shows "poolQueue ns (ws[i := w]) =
    poolQueue ns (take i ws) @ (if wd_namespace w = ns then wd_queue w else []) @ poolQueue ns (drop (Suc i) ws)"
  using assms by (simp add: poolQueue_def upd_conv_take_nth_drop)

lemma poolQueue_nil: "(\<And>w. w \<in> set ws \<Longrightarrow> wd_namespace w = ns \<Longrightarrow> wd_queue w = []) \<Longrightarrow> poolQueue ns ws = []"
  by (auto simp: poolQueue_def)

lemma poolQueue_same:
  assumes "length ws' = length ws"
    and "\<And>i. i < length ws \<Longrightarrow> wd_namespace (ws' ! i) = wd_namespace (ws ! i) \<and> wd_queue (ws' ! i) = wd_queue (ws ! i)"
  shows "poolQueue ns ws' = poolQueue ns ws"
proof -
  have "map (\<lambda>w. if wd_namespace w = ns then wd_queue w else []) ws' = map (\<lambda>w. if wd_namespace w = ns then wd_queue w else []) ws"
    by (rule nth_equalityI) (use assms in auto)
  then show ?thesis by (simp add: poolQueue_def)
qed

text \<open>A worker that takes an event has the whole queue of its namespace.\<close>

lemma poolQueue_take:
  assumes "calmInv d" and "i < length (d_pool d)" and "wd_queue (d_pool d ! i) = e # q" and "wd_namespace (d_pool d ! i) = ns"
  shows "poolQueue ns (take i (d_pool d)) = []"
proof (rule poolQueue_nil)
  fix w
  assume "w \<in> set (take i (d_pool d))" "wd_namespace w = ns"
  then obtain k where "k < i" "w = d_pool d ! k" by (auto simp: in_set_conv_nth)
  with calmInvD(1) [OF assms(1), of k i] assms(2,4) \<open>wd_namespace w = ns\<close> show "wd_queue w = []"
    by (simp add: quiet_def)
qed

lemma poolQueue_last:
  assumes "calmInv d" and "i < length (d_pool d)" and "\<not> wd_canceled (d_pool d ! i)" and "wd_namespace (d_pool d ! i) = ns"
  shows "poolQueue ns (drop (Suc i) (d_pool d)) = []"
proof (rule poolQueue_nil)
  fix w
  assume "w \<in> set (drop (Suc i) (d_pool d))" "wd_namespace w = ns"
  then obtain k where "k < length (drop (Suc i) (d_pool d))" "w = drop (Suc i) (d_pool d) ! k"
    by (metis in_set_conv_nth)
  then have "Suc i + k < length (d_pool d)" "w = d_pool d ! (Suc i + k)" by simp_all
  with calmInvD(1) [OF assms(1), of i "Suc i + k"] assms(3,4) \<open>wd_namespace w = ns\<close> show "wd_queue w = []" by simp
qed

lemma absQueues_cong:
  assumes "op_channel s' = op_channel s" and "pending (op_dispatcher s') = pending (op_dispatcher s)"
    and "\<And>ns. poolQueue ns (d_pool (op_dispatcher s')) = poolQueue ns (d_pool (op_dispatcher s))"
  shows "absQueues s' = absQueues s"
  using assms by (simp add: absQueues_def fun_eq_iff)

lemma absQueues_receive:
  assumes "chanRecv (op_channel s) = Some (e, q)" and "dispatchStep (op_dispatcher s) (Receive e) d"
  shows "absQueues (s\<lparr>op_channel := q, op_dispatcher := d\<rparr>) = absQueues s"
  using assms(2)
proof (cases rule: dispatchStep.cases)
  case skip
  with assms(1) show ?thesis by (auto simp: absQueues_def fun_eq_iff chanRecv_Some)
next
  case (receive i d1)
  have "poolQueue ns (d_pool d) = poolQueue ns (d_pool (op_dispatcher s))" for ns
    using receive(4) by (cases rule: getOrCreate_cases) (simp_all add: receive(1) poolQueue_def)
  with assms(1) receive(1,2) show ?thesis by (auto simp: absQueues_def fun_eq_iff chanRecv_Some pending_def)
qed

lemma SendTo_iff:
  "dispatchStep d (SendTo i e) d' \<longleftrightarrow>
     d_pc d = Sending i e \<and> length (wd_queue (d_pool d ! i)) < eventsChanSize
     \<and> d' = (setWorker i ((d_pool d ! i)\<lparr>wd_queue := wd_queue (d_pool d ! i) @ [e], wd_lastEvent := Some (d_now d)\<rparr>) d)
             \<lparr>d_pc := Selecting\<rparr>"
  by (auto simp: dispatchStep_simps chanSend_Some)

lemma absQueues_send:
  assumes "calmInv (op_dispatcher s)" and "mapInv (op_dispatcher s)" and "pcInv (op_dispatcher s)"
    and "dispatchStep (op_dispatcher s) (SendTo i e) d"
  shows "absQueues (s\<lparr>op_dispatcher := d\<rparr>) = absQueues s"
proof -
  let ?d = "op_dispatcher s" let ?w = "d_pool ?d ! i" let ?ns = "getNamespaceNameFromEventObject e"
  define w where "w = ?w\<lparr>wd_queue := wd_queue ?w @ [e], wd_lastEvent := Some (d_now ?d)\<rparr>"
  from assms(4) have pc: "d_pc ?d = Sending i e" and d: "d = (setWorker i w ?d)\<lparr>d_pc := Selecting\<rparr>"
    by (simp_all add: SendTo_iff w_def)
  have look: "fmlookup (d_workers ?d) ?ns = Some i" using assms(3) pc by (simp add: pcInv_def)
  note i = mapInvD(1,2) [OF assms(2) look]
  have live: "\<not> wd_canceled ?w" using mapInvD(3) [OF assms(2) look] pc by auto
  have w: "wd_namespace w = ?ns" "wd_queue w = wd_queue ?w @ [e]" using i(2) by (simp_all add: w_def)
  have pool: "poolQueue ns (d_pool d) = poolQueue ns (d_pool ?d) @ (if ?ns = ns then [e] else [])" for ns
  proof (cases "?ns = ns")
    case True
    then have "poolQueue ns (drop (Suc i) (d_pool ?d)) = []" using poolQueue_last [OF assms(1) i(1) live] i(2) by simp
    then show ?thesis
      using poolQueue_split [OF i(1), of ns w] poolQueue_split [OF i(1), of ns ?w] i(2) w True by (simp add: d)
  next
    case False
    then show ?thesis
      using poolQueue_split [OF i(1), of ns w] poolQueue_split [OF i(1), of ns ?w] i(2) w by (simp add: d)
  qed
  have "pending ?d = [e]" "pending d = []" by (simp_all add: pending_def pc) (simp add: d)
  then show ?thesis by (simp add: absQueues_def fun_eq_iff pool)
qed

lemma absQueues_take:
  assumes "calmInv (op_dispatcher s)" and "workersInv (op_dispatcher s)"
    and "dispatchStep (op_dispatcher s) (Take i e) d"
  shows "specStep (absQueues s) (Deliver e) (absQueues (s\<lparr>op_dispatcher := d, op_pcs := pcs\<rparr>))"
proof -
  let ?d = "op_dispatcher s" let ?w = "d_pool ?d ! i" let ?ns = "getNamespaceNameFromEventObject e"
  from assms(3) obtain q where i: "i < length (d_pool ?d)" and q: "wd_queue ?w = e # q"
    and d: "d = setWorker i (?w\<lparr>wd_queue := q, wd_status := Handling e\<rparr>) ?d"
    by (auto simp: dispatchStep_simps chanRecv_Some)
  have ns: "?ns = wd_namespace ?w" "?ns \<noteq> ''''"
    using assms(2) i q unfolding workersInv_def workerOk_def by (metis list.set_intros(1))+
  have "wd_namespace ?w = ns \<Longrightarrow> poolQueue ns (take i (d_pool ?d)) = []" for ns
    by (rule poolQueue_take [OF assms(1) i q])
  then have pool: "poolQueue ns (d_pool ?d) = (if ?ns = ns then [e] else []) @ poolQueue ns (d_pool d)" for ns
    using poolQueue_split [OF i, of ns "?w\<lparr>wd_queue := q, wd_status := Handling e\<rparr>"]
      poolQueue_split [OF i, of ns ?w] ns(1) q by (auto simp add: d)
  have pend: "pending d = pending ?d" by (simp add: pending_def d)
  let ?s' = "s\<lparr>op_dispatcher := d, op_pcs := pcs\<rparr>"
  have "absQueues s ?ns = e # absQueues ?s' ?ns"
    using pool [of ?ns] ns(2) by (simp add: absQueues_def pend)
  moreover have "absQueues ?s' = (absQueues s)(?ns := absQueues ?s' ?ns)"
    using pool by (auto simp: absQueues_def fun_eq_iff pend)
  ultimately show ?thesis using deliver [OF refl, of "absQueues s" e] by simp
qed

text \<open>Every step of the operator is a step of the specification.\<close>

lemma operatorStep_specified:
  assumes "operatorStep reg md s a s'" and "calmInv (op_dispatcher s)" and "dispatcherInv (op_dispatcher s)"
  shows "specStep (absQueues s) (specified a) (absQueues s')"
  using assms(1)
proof (cases rule: operatorStep.cases)
  case (produce e q)
  then have "q = op_channel s @ [e]" by (auto simp: operatorSend_def split: if_splits)
  then have "absQueues s' = (if getNamespaceNameFromEventObject e = '''' then absQueues s
      else (absQueues s)(getNamespaceNameFromEventObject e := absQueues s (getNamespaceNameFromEventObject e) @ [e]))"
    by (auto simp: produce(2) absQueues_def fun_eq_iff)
  with produce(1) show ?thesis by (auto intro: accept ignore)
next
  case (receives e q d)
  with absQueues_receive [OF receives(3,4)] show ?thesis by (simp add: silent)
next
  case (takes i e d)
  with absQueues_take [OF assms(2) _ takes(3)] assms(3) show ?thesis by (simp add: dispatcherInv_def)
next
  case (calls i e cl pc r)
  then have "absQueues s' = absQueues s" by (intro absQueues_cong) simp_all
  with calls(1) show ?thesis by (simp add: silent)
next
  case (finishes i d)
  have "absQueues s' = absQueues s"
    using finishes(2,4)
    by (intro absQueues_cong) (auto simp: dispatchStep_simps pending_def nth_list_update intro!: poolQueue_same)
  with finishes(1) show ?thesis by (simp add: silent)
next
  case (alone b d)
  have "absQueues s' = absQueues s"
  proof (cases b)
    case (SendTo i e)
    with absQueues_send [OF assms(2)] alone(2,4) assms(3) show ?thesis by (simp add: dispatcherInv_def)
  qed (use alone(2-4) in \<open>auto intro!: absQueues_cong poolQueue_same
      simp: dispatchStep_simps pending_def nth_list_update cleanUp_def cancelRequested_def\<close>)
  with alone(1,3) show ?thesis by (cases b) (simp_all add: silent)
qed

lemma calmRun_specified:
  assumes "calmRun reg md (newOperator r) tr s"
  shows "specRun (\<lambda>ns. []) (map specified tr) (absQueues s)"
  using assms
proof (induction rule: calmRun.induct)
  case calm_none
  have "absQueues (newOperator r) = (\<lambda>ns. [])"
    by (simp add: fun_eq_iff absQueues_def newOperator_def newEventHandler_def poolQueue_def pending_def)
  then show ?case by (simp add: spec_none)
next
  case (calm_more tr s1 a s2)
  with operatorStep_specified [OF calm_more(2)] calmRun_invariants [OF calm_more(1)] show ?case
    by (auto intro: spec_more)
qed

lemma calmRun_fifo:
  assumes "calmRun reg md (newOperator r) tr s" and "ns \<noteq> ''''"
  shows "ofNamespace ns (takenAll (dispatched tr)) @ absQueues s ns = ofNamespace ns (produced tr)"
  using assms(1)
proof (induction rule: calmRun.induct)
  case calm_none
  show ?case by (simp add: absQueues_def newOperator_def newEventHandler_def poolQueue_def pending_def)
next
  case (calm_more tr s1 a s2)
  show ?case
    using specStep_fifo [OF operatorStep_specified [OF calm_more(2)] assms(2) calm_more.IH]
      calmRun_invariants [OF calm_more(1)] by blast
qed

section \<open>Each namespace on its own\<close>

definition busy :: "dispatcher \<Rightarrow> string \<Rightarrow> event \<Rightarrow> nat \<Rightarrow> bool" where
  "busy d ns e i \<longleftrightarrow>
     i < length (d_pool d) \<and> wd_namespace (d_pool d ! i) = ns \<and> wd_status (d_pool d ! i) = Handling e"

definition nsWorker :: "string gomap \<Rightarrow> string \<Rightarrow> namespaceWorker" where
  "nsWorker md ns = \<lparr>nw_namespace = ns, nw_persistentMeta = md\<rparr>"

text \<open>The calls of a namespace so far are those of its events in the order in which they were taken.\<close>

definition serialInv :: "string gomap \<Rightarrow> operatorAction list \<Rightarrow> 'r operator \<Rightarrow> string \<Rightarrow> bool" where
  "serialInv md tr s ns \<longleftrightarrow>
     (let es = ofNamespace ns (takenAll (dispatched tr)); cs = callsIn ns (allCalls tr); n = nsWorker md ns in
       (\<exists>e i. busy (op_dispatcher s) ns e i \<and> progress n es (Handling e) (op_pcs s i) cs)
       \<or> (\<forall>e i. \<not> busy (op_dispatcher s) ns e i) \<and> progress n es Idle AtEnd cs)"

lemma busy_unique:
  assumes "calmInv d" and "busy d ns e i" and "busy d ns e' j"
  shows "i = j \<and> e = e'"
  using calmInv_unique [OF assms(1), of i j] assms(2,3) by (auto simp: busy_def quiet_def)

lemma busy_same:
  assumes "dispatchStep d b d'" and "\<And>j e. b = Take j e \<Longrightarrow> wd_namespace (d_pool d ! j) \<noteq> ns"
    and "\<And>j. b = Finish j \<Longrightarrow> wd_namespace (d_pool d ! j) \<noteq> ns"
  shows "busy d' ns e i \<longleftrightarrow> busy d ns e i"
proof (cases "i < length (d_pool d)")
  case True
  note w = dispatchStep_worker [OF assms(1) True]
  have "wd_status (d_pool d' ! i) = Handling e \<longleftrightarrow> wd_status (d_pool d ! i) = Handling e" if "wd_namespace (d_pool d ! i) = ns"
    using w(3) assms that dispatchStep_enabled(3) [of d i d'] by (cases b) auto
  with w True show ?thesis by (auto simp: busy_def)
next
  case False
  with dispatchStep_new_worker [OF assms(1), of i] show ?thesis by (auto simp: busy_def)
qed

lemma serialInv_cong:
  assumes "serialInv md tr s ns" and "\<And>e i. busy (op_dispatcher s') ns e i \<longleftrightarrow> busy (op_dispatcher s) ns e i"
    and "\<And>e i. busy (op_dispatcher s) ns e i \<Longrightarrow> op_pcs s' i = op_pcs s i"
    and "ofNamespace ns (takenAll (dispatched [a])) = []" and "callsIn ns (allCalls [a]) = []"
  shows "serialInv md (tr @ [a]) s' ns"
proof -
  have same: "ofNamespace ns (takenAll (dispatched (tr @ [a]))) = ofNamespace ns (takenAll (dispatched tr))"
    "callsIn ns (allCalls (tr @ [a])) = callsIn ns (allCalls tr)"
    unfolding operator_history_append takenAll_simps ofNamespace_simps assms(4)
    using assms(5) by (simp_all add: callsIn_def)
  from assms(1-3) show ?thesis unfolding serialInv_def Let_def same by metis
qed

lemma serialInv_idle:
  assumes "serialInv md tr s ns" and "\<And>e i. \<not> busy (op_dispatcher s) ns e i"
  shows "progress (nsWorker md ns) (ofNamespace ns (takenAll (dispatched tr))) Idle AtEnd (callsIn ns (allCalls tr))"
  using assms unfolding serialInv_def Let_def by blast

lemma serialInv_busy:
  assumes "serialInv md tr s ns" and "calmInv (op_dispatcher s)" and "busy (op_dispatcher s) ns e i"
  shows "progress (nsWorker md ns) (ofNamespace ns (takenAll (dispatched tr))) (Handling e) (op_pcs s i) (callsIn ns (allCalls tr))"
  using assms busy_unique [OF assms(2,3)] unfolding serialInv_def Let_def by blast

lemma serialInv_take:
  assumes "serialInv md tr s ns" and "calmInv (op_dispatcher s)" and "workersInv (op_dispatcher s)"
    and "dispatchStep (op_dispatcher s) (Take i e) d"
    and "s' = s\<lparr>op_dispatcher := d, op_pcs := (op_pcs s)(i := eventStart (workerOf md (d_pool (op_dispatcher s) ! i)) e)\<rparr>"
  shows "serialInv md (tr @ [Dispatch (Take i e)]) s' ns"
proof (cases "wd_namespace (d_pool (op_dispatcher s) ! i) = ns")
  case True
  from assms(4) have i: "i < length (d_pool (op_dispatcher s))" "wd_status (d_pool (op_dispatcher s) ! i) = Idle"
    and q: "e \<in> set (wd_queue (d_pool (op_dispatcher s) ! i))"
    by (auto simp: dispatchStep_simps chanRecv_Some)
  have ns: "getNamespaceNameFromEventObject e = ns"
    using assms(3) i(1) q True unfolding workersInv_def workerOk_def by blast
  have awake: "\<not> quiet (d_pool (op_dispatcher s) ! i)" using q by (auto simp: quiet_def)
  have "\<not> busy (op_dispatcher s) ns e' j" for e' j
  proof
    assume b: "busy (op_dispatcher s) ns e' j"
    then have "\<not> quiet (d_pool (op_dispatcher s) ! j)" by (simp add: busy_def quiet_def)
    with calmInv_unique [OF assms(2) i(1) _ _ awake] b True have "i = j" by (simp add: busy_def)
    with b i(2) show False by (simp add: busy_def)
  qed
  from progress_take [OF progress_idle_pc [OF serialInv_idle [OF assms(1) this]]]
  have "progress (nsWorker md ns) (ofNamespace ns (takenAll (dispatched (tr @ [Dispatch (Take i e)])))) (Handling e)
      (op_pcs s' i) (callsIn ns (allCalls (tr @ [Dispatch (Take i e)])))"
    by (simp add: ns assms(5) workerOf_def nsWorker_def True)
  moreover have "busy (op_dispatcher s') ns e i"
    using dispatchStep_worker [OF assms(4) i(1)] True by (simp add: busy_def assms(5))
  ultimately show ?thesis unfolding serialInv_def Let_def by blast
next
  case False
  from assms(4) have "i < length (d_pool (op_dispatcher s))" "e \<in> set (wd_queue (d_pool (op_dispatcher s) ! i))"
    by (auto simp: dispatchStep_simps chanRecv_Some)
  then have e: "getNamespaceNameFromEventObject e = wd_namespace (d_pool (op_dispatcher s) ! i)"
    using assms(3) unfolding workersInv_def workerOk_def by blast
  show ?thesis
    using busy_same [OF assms(4), of ns] False e
    by (intro serialInv_cong [OF assms(1)]) (auto simp: assms(5) busy_def callsIn_def)
qed

lemma serialInv_call:
  assumes "serialInv md tr s ns" and "calmInv (op_dispatcher s)"
    and "i < length (d_pool (op_dispatcher s))" and "wd_status (d_pool (op_dispatcher s) ! i) = Handling e"
    and "pcNext (op_pcs s i) cl = Some pc"
    and "targetNamespace (callTarget cl) = wd_namespace (d_pool (op_dispatcher s) ! i)"
    and "s' = s\<lparr>op_pcs := (op_pcs s)(i := pc), op_registry := r\<rparr>"
  shows "serialInv md (tr @ [Call i cl]) s' ns"
proof (cases "wd_namespace (d_pool (op_dispatcher s) ! i) = ns")
  case True
  with assms(3,4) have b: "busy (op_dispatcher s) ns e i" by (simp add: busy_def)
  from progress_call [OF serialInv_busy [OF assms(1,2) b] assms(5)]
  have "progress (nsWorker md ns) (ofNamespace ns (takenAll (dispatched (tr @ [Call i cl])))) (Handling e)
      (op_pcs s' i) (callsIn ns (allCalls (tr @ [Call i cl])))"
    using assms(6) True by (simp add: assms(7) callsIn_def)
  with b show ?thesis unfolding serialInv_def Let_def by (auto simp: assms(7))
next
  case False
  then show ?thesis
    using assms(6) by (intro serialInv_cong [OF assms(1)]) (auto simp: assms(7) busy_def callsIn_def)
qed

lemma serialInv_finish:
  assumes "serialInv md tr s ns" and "calmInv (op_dispatcher s)"
    and "dispatchStep (op_dispatcher s) (Finish i) d" and "op_pcs s i = AtEnd"
  shows "serialInv md (tr @ [Dispatch (Finish i)]) (s\<lparr>op_dispatcher := d\<rparr>) ns"
proof (cases "wd_namespace (d_pool (op_dispatcher s) ! i) = ns")
  case True
  from dispatchStep_enabled(2) [OF assms(3)] True obtain e where b: "busy (op_dispatcher s) ns e i"
    by (auto simp: busy_def)
  have "\<not> busy d ns e' j" for e' j
  proof
    assume b': "busy d ns e' j"
    then have "j < length (d_pool (op_dispatcher s))"
      using dispatchStep_new_worker [OF assms(3), of j] by (fastforce simp: busy_def)
    note w = dispatchStep_worker [OF assms(3) this]
    with b' have "j \<noteq> i" "busy (op_dispatcher s) ns e' j"
      using \<open>j < length (d_pool (op_dispatcher s))\<close> by (auto simp: busy_def split: if_splits)
    with busy_unique [OF assms(2) b] show False by blast
  qed
  moreover from serialInv_busy [OF assms(1,2) b] assms(4)
  have "progress (nsWorker md ns) (ofNamespace ns (takenAll (dispatched (tr @ [Dispatch (Finish i)])))) Idle AtEnd
      (callsIn ns (allCalls (tr @ [Dispatch (Finish i)])))"
    using progress_finish by simp
  ultimately show ?thesis unfolding serialInv_def Let_def by simp
next
  case False
  then show ?thesis
    using busy_same [OF assms(3), of ns] by (intro serialInv_cong [OF assms(1)]) (auto simp: callsIn_def)
qed

lemma serialInv_step:
  assumes "operatorStep reg md s a s'" and "serialInv md tr s ns" and "calmInv (op_dispatcher s)"
    and "dispatcherInv (op_dispatcher s)" and "operatorRun reg md (newOperator r) tr s"
  shows "serialInv md (tr @ [a]) s' ns"
  using assms(1)
proof (cases rule: operatorStep.cases)
  case (takes i e d)
  then show ?thesis using serialInv_take [OF assms(2,3) _ takes(3)] assms(4) by (simp add: dispatcherInv_def)
next
  case (calls i e cl pc r')
  have run: "operatorRun reg md (newOperator r) (tr @ [a]) s'" by (rule operatorRun.more [OF assms(5,1)])
  have "targetNamespace (callTarget cl) = wd_namespace (d_pool (op_dispatcher s) ! i)"
    using progress_namespace [OF operatorRun_worker(3) [OF run, of i], of cl] calls(1-3) by (simp add: workerOf_def)
  from serialInv_call [OF assms(2,3) calls(3-5) this calls(2)] show ?thesis by (simp add: calls(1))
next
  case (finishes i d)
  then show ?thesis using serialInv_finish [OF assms(2,3)] by simp
next
  case (receives e q d)
  then show ?thesis
    using busy_same [OF receives(4)] by (intro serialInv_cong [OF assms(2)]) (auto simp: callsIn_def)
next
  case (alone b d)
  then have no: "b \<noteq> Take j e" "b \<noteq> Finish j" for j e by auto
  have "takenAll [b] = []" using no by (simp split: action.split)
  then show ?thesis
    using busy_same [OF alone(4)] alone(1,2) no
    by (intro serialInv_cong [OF assms(2)]) (auto simp: callsIn_def simp del: takenAll_simps(3))
next
  case (produce e q)
  then show ?thesis by (intro serialInv_cong [OF assms(2)]) (auto simp: callsIn_def)
qed

lemma serialInv_run:
  "calmRun reg md (newOperator r) tr s \<Longrightarrow> serialInv md tr s ns"
proof (induction rule: calmRun.induct)
  case calm_none
  show ?case
    by (simp add: serialInv_def newOperator_def newEventHandler_def busy_def callsIn_def progress_start)
next
  case (calm_more tr s1 a s2)
  show ?case
    using serialInv_step [OF calm_more(2) calm_more.IH _ _ calmRun_run [OF calm_more(1)]]
      calmRun_invariants [OF calm_more(1)] by blast
qed

context namespaced_contract
begin

lemma serial:
  assumes "calmRun reg md (newOperator r) tr s" and "meets reg view obeys" and "\<And>e i. \<not> busy (op_dispatcher s) ns e i"
  shows "handledInOrder obeys (nsWorker md ns) (ofNamespace ns (takenAll (dispatched tr)))
    (restrictTo ns (view r)) (restrictTo ns (view (op_registry s)))"
proof -
  have "answersAll reg r (allCalls tr) (op_registry s)"
    using registry_run [OF calmRun_run [OF assms(1)]] by (simp add: newOperator_def)
  from within [OF answersAll_meets [OF assms(2) this]]
  have "answersAll obeys (restrictTo ns (view r)) (callsIn ns (allCalls tr)) (restrictTo ns (view (op_registry s)))" .
  moreover have "\<exists>css. callsIn ns (allCalls tr) = concat css
      \<and> list_all2 (eventCalls (nsWorker md ns)) (ofNamespace ns (takenAll (dispatched tr))) css"
    using serialInv_idle [OF serialInv_run [OF assms(1)] assms(3)] by (auto simp: progress_def)
  ultimately show ?thesis unfolding handledInOrder_def by metis
qed

end

section \<open>Properties\<close>

lemma calmRun_operate:
  assumes "calmRun (clientAnswers c) md s0 tr s" and "operate c md x s = Some (a, s')"
    and "x \<noteq> Do CleanUp \<or> toRemove (op_dispatcher s) = fmempty"
  shows "calmRun (clientAnswers c) md s0 (tr @ [a]) s'"
proof (rule calm_more [OF assms(1) operate_step [OF assms(2)]])
  fix b
  assume "a = Dispatch b"
  with assms(2) have "x = Do b"
    by (cases x) (auto simp: guarded_def split: option.splits if_splits workerStatus.splits action.splits)
  with assms(3) show "calm (op_dispatcher s) b" by (auto simp: calm_def)
qed

fun operateCalm :: "'r client \<Rightarrow> string gomap \<Rightarrow> schedule list \<Rightarrow> 'r operator \<Rightarrow> (operatorAction list \<times> 'r operator) option" where
  "operateCalm c md [] s = Some ([], s)"
| "operateCalm c md (x # xs) s =
     (if x \<noteq> Do CleanUp \<or> toRemove (op_dispatcher s) = fmempty
      then (case operate c md x s of
              None \<Rightarrow> None
            | Some (a, s1) \<Rightarrow> map_option (\<lambda>(tr, s2). (a # tr, s2)) (operateCalm c md xs s1))
      else None)"

lemma operateCalm_run:
  "operateCalm c md xs s = Some (tr', s') \<Longrightarrow> calmRun (clientAnswers c) md s0 tr s
     \<Longrightarrow> calmRun (clientAnswers c) md s0 (tr @ tr') s'"
proof (induction xs arbitrary: s tr tr')
  case (Cons x xs)
  then obtain a s1 tr2 where x: "x \<noteq> Do CleanUp \<or> toRemove (op_dispatcher s) = fmempty"
    "operate c md x s = Some (a, s1)" "operateCalm c md xs s1 = Some (tr2, s')" "tr' = a # tr2"
    by (auto split: if_splits option.splits)
  from Cons.IH [OF x(3) calmRun_operate [OF Cons.prems(2) x(2,1)]] x(4) show ?case by simp
qed simp

lemma exampleSchedule_calm:
  "(case operateCalm memoryClient exampleOwner exampleSchedule (newOperator fmempty) of
      None \<Rightarrow> False
    | Some (tr, s) \<Rightarrow> takenAll (dispatched tr) = [exampleEvent, exampleDeletion] \<and> op_registry s = fmempty
        \<and> length (d_pool (op_dispatcher s)) = 1 \<and> wd_status (d_pool (op_dispatcher s) ! 0) = Idle)"
  by code_simp

lemma exampleCalmRun:
  obtains tr s where "calmRun (clientAnswers memoryClient) exampleOwner (newOperator fmempty) tr s"
    and "takenAll (dispatched tr) = [exampleEvent, exampleDeletion]" and "op_registry s = fmempty"
    and "length (d_pool (op_dispatcher s)) = 1" and "wd_status (d_pool (op_dispatcher s) ! 0) = Idle"
proof -
  obtain tr s where "operateCalm memoryClient exampleOwner exampleSchedule (newOperator fmempty) = Some (tr, s)"
    using exampleSchedule_calm by (auto split: option.splits)
  with exampleSchedule_calm operateCalm_run [OF this calm_none] that show thesis by simp
qed

text \<open>
  C15. The operator refines the specification, a queue of events for each namespace, as long
  as the clean-up removes only workers without anything to do: a send of a controller appends
  to the queue of its namespace, a worker takes the first event of the queue of its
  namespace, and no other step changes any queue.
\<close>

theorem operator_refines_queues:
  assumes "calmRun reg md (newOperator r) tr s"
  shows "specRun (\<lambda>ns. []) (map specified tr) (absQueues s)"
  by (rule calmRun_specified [OF assms])

theorem operator_refines_queues_witness:
  "\<exists>tr (s :: memory operator). specRun (\<lambda>ns. []) (map specified tr) (absQueues s)
     \<and> takenAll (dispatched tr) = [exampleEvent, exampleDeletion]"
proof -
  obtain tr s where run: "calmRun (clientAnswers memoryClient) exampleOwner (newOperator fmempty) tr s"
    and "takenAll (dispatched tr) = [exampleEvent, exampleDeletion]" using exampleCalmRun by metis
  with operator_refines_queues [OF run] show ?thesis by blast
qed

text \<open>
  C3. Each namespace on its own: with such clean-ups, and whatever the interleaving with the events and
  workers of other namespaces, the workers of a namespace have taken the events sent for it
  in their order, up to those still in its queue, and, when none of them is at work, the
  part of the registry in that namespace is what one worker makes of it
  that handles those events one after the other, undisturbed, with the same metadata.
\<close>

theorem namespace_serial:
  assumes "calmRun reg md (newOperator r) tr s" and "meets reg view callOk" and "ns \<noteq> ''''"
    and "\<And>e i. \<not> busy (op_dispatcher s) ns e i"
  shows "ofNamespace ns (takenAll (dispatched tr)) @ absQueues s ns = ofNamespace ns (produced tr)
    \<and> handledInOrder callOk (nsWorker md ns) (ofNamespace ns (takenAll (dispatched tr)))
        (restrictTo ns (view r)) (restrictTo ns (view (op_registry s)))"
  using calmRun_fifo [OF assms(1,3)] lawfulRegistry.serial [OF assms(1,2,4)] by blast

theorem namespace_serial_witness:
  "handledInOrder callOk (nsWorker exampleOwner ''shop'') [exampleEvent, exampleDeletion] (\<lambda>u. None) (\<lambda>u. None)"
proof -
  obtain tr s where run: "calmRun (clientAnswers memoryClient) exampleOwner (newOperator fmempty) tr s"
    and ex: "takenAll (dispatched tr) = [exampleEvent, exampleDeletion]" "op_registry s = fmempty"
    and idle: "length (d_pool (op_dispatcher s)) = 1" "wd_status (d_pool (op_dispatcher s) ! 0) = Idle"
    using exampleCalmRun by metis
  have "\<not> busy (op_dispatcher s) ''shop'' e i" for e i using idle by (cases i) (simp_all add: busy_def)
  from namespace_serial [OF run client_meets [OF memoryClient_laws] _ this] ex
  have "handledInOrder callOk (nsWorker exampleOwner ''shop'') (ofNamespace ''shop'' [exampleEvent, exampleDeletion])
      (restrictTo ''shop'' (fmlookup fmempty)) (restrictTo ''shop'' (fmlookup fmempty))" by simp
  moreover have "ofNamespace ''shop'' [exampleEvent, exampleDeletion] = [exampleEvent, exampleDeletion]" by code_simp
  moreover have "restrictTo ''shop'' (fmlookup fmempty) = (\<lambda>u. None)" by (simp add: restrictTo_def fun_eq_iff)
  ultimately show ?thesis by simp
qed

definition overlapExample :: "action list" where
  "overlapExample = slowExample @ [Receive exampleDeletion, SendTo 1 exampleDeletion, Take 1 exampleDeletion]"

text \<open>
  C27. Two workers of one namespace at the same time: without the condition on the clean-up the operator
  does not keep this promise. A worker that was busy for more than five minutes is cancelled
  and forgotten, the next event of its namespace starts another one, and both are at work
  on the same namespace at once while the operator goes on.
\<close>

theorem cleanUp_overlap:
  "\<exists>tr s i j e e'. execution newEventHandler tr s \<and> \<not> d_mainDone s \<and> i \<noteq> j
     \<and> busy s ''shop'' e i \<and> busy s ''shop'' e' j"
proof -
  have "case fireAll overlapExample newEventHandler of None \<Rightarrow> False
      | Some s \<Rightarrow> \<not> d_mainDone s \<and> busy s ''shop'' exampleEvent 0 \<and> busy s ''shop'' exampleDeletion 1"
    by code_simp
  then obtain s where "fireAll overlapExample newEventHandler = Some s" "\<not> d_mainDone s"
    "busy s ''shop'' exampleEvent 0" "busy s ''shop'' exampleDeletion 1" by (auto split: option.splits)
  then show ?thesis using fireAll_execution by (metis zero_neq_one)
qed

end
