(* ===== verification/Operator_Ownership.thy ===== *)
theory Operator_Ownership
  imports Namespace_Order
begin

text \<open>
  What the running operator leaves alone. A worker looks at an object, then perhaps into it, and
  removes it later; in between all other goroutines may run, also a second worker of the
  same namespace. The invariant says which objects no worker is about to look into or to
  remove, so that the interleaving does no harm to what the operator does not own.
\<close>

section \<open>What no worker is about to do\<close>

text \<open>\<open>threatens u pc\<close>: the next call is into \<open>u\<close>, or removes \<open>u\<close> or what it lies in.\<close>

fun threatens :: "target \<Rightarrow> workerPc \<Rightarrow> bool" where
  "threatens u (AtList t) \<longleftrightarrow> t = u"
| "threatens u (AtDeregister t) \<longleftrightarrow> t = u \<or> t \<in> enclosing u"
| "threatens u _ \<longleftrightarrow> False"

text \<open>
  \<open>foreignAt Q u m\<close>: at \<open>u\<close> there is an object whose metadata satisfy \<open>Q\<close>, in registered ones. Later \<open>Q\<close> is
  stronger than that the operator is not the owner.
\<close>

definition foreignAt :: "(string gomap \<Rightarrow> bool) \<Rightarrow> target \<Rightarrow> contents \<Rightarrow> bool" where
  "foreignAt Q u m \<longleftrightarrow> (\<exists>found. m u = Some found \<and> Q found) \<and> (\<forall>p \<in> enclosing u. m p \<noteq> None)"

lemma eventStart_harmless [simp]: "\<not> threatens u (eventStart n e)"
  by (auto simp: eventStart_eq split: option.split)

text \<open>An object that is there with all it lies in makes each of those non-empty.\<close>

lemma enclosing_not_childless:
  assumes "m u \<noteq> None" and "\<forall>p \<in> enclosing u. m p \<noteq> None" and "t \<in> enclosing u"
  shows "\<not> childless m t"
proof -
  from assms(3) consider "parent u = Some t" | p where "parent u = Some p" "parent p = Some t"
    unfolding enclosing_parent by blast
  then show ?thesis
  proof cases
    case 2
    then have "p \<in> enclosing u" by (simp add: enclosing_parent)
    with 2(2) assms(2) show ?thesis unfolding childless_def by blast
  qed (use assms(1) in \<open>auto simp: childless_def\<close>)
qed

lemma registered_keeps:
  assumes "registered m t opts m' \<or> m' = m" and "m p \<noteq> None"
  shows "m' p \<noteq> None"
  using assms by (auto simp: registered_def)

text \<open>One call of a worker, for an object that names another owner and that the call does not register.\<close>

lemma call_keeps_foreign:
  assumes "callOk m cl m'" and "m u = Some found" and "\<not> isOwnedByOperator found" and "\<forall>p \<in> enclosing u. m p \<noteq> None"
    and "\<not> threatens u pc" and "pcNext pc cl = Some pc'" and "\<And>opts. pc \<noteq> AtRegister u opts"
  shows "m' u = Some found \<and> (\<forall>p \<in> enclosing u. m' p \<noteq> None) \<and> \<not> threatens u pc'"
proof (cases cl)
  case (RegisterCall t opts err)
  with assms(6,7) have t: "t \<noteq> u" "pc' = AtEnd" by (cases pc; auto split: if_splits)+
  have "registered m t opts m' \<or> m' = m" using assms(1) RegisterCall by (cases err) auto
  with t assms(2,4) registered_keeps show ?thesis by (auto simp: registered_def)
next
  case (GetCall t g)
  with assms(6) have pc: "pc' = afterGet t g" by (cases pc) (auto split: if_splits)
  have m: "m' = m" "\<And>md. g = Inr md \<Longrightarrow> m t = Some md" using assms(1) GetCall by (cases g; auto)+
  have "\<not> threatens u pc'"
    using m(2) assms(2,3) by (auto simp: pc afterGet_def split: sum.split target.split)
  with m(1) assms(2,4) show ?thesis by simp
next
  case (DeregisterCall t err)
  with assms(5,6) have t: "t \<noteq> u" "t \<notin> enclosing u" "pc' = AtEnd" by (cases pc; auto split: if_splits)+
  have "removed m t m' \<or> m' = m" using assms(1) DeregisterCall by (cases err) auto
  then have "m' v = m v" if "v = u \<or> v \<in> enclosing u" for v
    using that t enclosing_trans unfolding removed_def by metis
  with t(3) assms(2,4) show ?thesis by simp
next
  case (ListCall t x)
  with assms(5,6) have t: "t \<noteq> u" "pc' = afterList t x" by (cases pc; auto split: if_splits)+
  have m: "m' = m" "x = NextDone \<Longrightarrow> childless m t" using assms(1) ListCall by (cases x; auto)+
  have "\<not> threatens u pc'"
    using m(2) t(1) enclosing_not_childless [of m u t] assms(2,4) by (cases x) (auto simp: t(2) afterList_def)
  with m(1) assms(2,4) show ?thesis by simp
qed

section \<open>What the workers register\<close>

text \<open>\<open>registers md e u\<close>: handling the event is to register \<open>u\<close>.\<close>

definition registers :: "string gomap \<Rightarrow> event \<Rightarrow> target \<Rightarrow> bool" where
  "registers md e u \<longleftrightarrow> ev_EventType e \<noteq> EventDelete
     \<and> eventTarget (nsWorker md (getNamespaceNameFromEventObject e)) (ev_Object e) = Some u"

lemma workerOf_ns: "getNamespaceNameFromEventObject e = wd_namespace w \<Longrightarrow> workerOf md w = nsWorker md (getNamespaceNameFromEventObject e)"
  by (simp add: workerOf_def nsWorker_def)

lemma registering_produced:
  assumes "operatorRun reg md (newOperator r) tr s" and "i < length (d_pool (op_dispatcher s))"
    and "wd_status (d_pool (op_dispatcher s) ! i) = Handling e" and "op_pcs s i = AtRegister t opts"
  shows "\<exists>e \<in> set (produced tr). registers md e t"
proof -
  from operatorRun_worker(3) [OF assms(1,2)] assms(3,4) obtain part where
    e: "e \<in> set (takenBy i (dispatched tr))" and
    part: "pcRun (eventStart (workerOf md (d_pool (op_dispatcher s) ! i)) e) part = Some (AtRegister t opts)"
    by (auto simp: progress_def)
  with taken_produced [OF assms(1) e] eventStart_register [OF pcRun_register [OF part]] workerOf_ns show ?thesis
    unfolding registers_def by metis
qed

section \<open>A registry shared with others\<close>

text \<open>
  Others may change the registry before and after each call of the operator, by any number of their own
  steps; a registry of the operator alone is one without others. \<open>keeps\<close> says what is relied upon of them.
\<close>

definition shared :: "'r registry \<Rightarrow> ('r \<Rightarrow> 'r \<Rightarrow> bool) \<Rightarrow> 'r registry" where
  "shared reg others r cl r' \<longleftrightarrow> (\<exists>r1 r2. others\<^sup>*\<^sup>* r r1 \<and> reg r1 cl r2 \<and> others\<^sup>*\<^sup>* r2 r')"

definition keeps :: "('r \<Rightarrow> 'r \<Rightarrow> bool) \<Rightarrow> ('r \<Rightarrow> contents) \<Rightarrow> (contents \<Rightarrow> bool) \<Rightarrow> bool" where
  "keeps others view P \<longleftrightarrow> (\<forall>r r'. others r r' \<longrightarrow> P (view r) \<longrightarrow> P (view r'))"

lemma shared_alone: "shared reg (\<lambda>r r'. False) = reg"
proof -
  have "(\<lambda>r r'. False)\<^sup>*\<^sup>* r r' \<longleftrightarrow> r = r'" for r r' :: 'a
    by (auto elim: rtranclp.cases)
  then show ?thesis by (simp add: shared_def fun_eq_iff)
qed

lemma keeps_star: "others\<^sup>*\<^sup>* r r' \<Longrightarrow> keeps others view P \<Longrightarrow> P (view r) \<Longrightarrow> P (view r')"
  by (induction rule: rtranclp_induct) (auto simp: keeps_def)

lemma shared_call_keeps:
  assumes "shared reg others r cl r'" and "meets reg view callOk" and "keeps others view (foreignAt Q u)"
    and "\<And>found. Q found \<Longrightarrow> \<not> isOwnedByOperator found" and "foreignAt Q u (view r)"
    and "\<not> threatens u pc" and "pcNext pc cl = Some pc'" and "\<And>opts. pc \<noteq> AtRegister u opts"
  shows "foreignAt Q u (view r') \<and> \<not> threatens u pc'"
proof -
  from assms(1) obtain r1 r2 where 1: "others\<^sup>*\<^sup>* r r1" "reg r1 cl r2" "others\<^sup>*\<^sup>* r2 r'" unfolding shared_def by blast
  from keeps_star [OF 1(1) assms(3,5)] obtain found where
    before: "view r1 u = Some found" "Q found" "\<forall>p \<in> enclosing u. view r1 p \<noteq> None" unfolding foreignAt_def by blast
  have "callOk (view r1) cl (view r2)" using assms(2) 1(2) unfolding meets_def by blast
  from call_keeps_foreign [OF this before(1) assms(4) [OF before(2)] before(3) assms(6-8)] before(2)
  have "foreignAt Q u (view r2)" "\<not> threatens u pc'" unfolding foreignAt_def by blast+
  with keeps_star [OF 1(3) assms(3)] show ?thesis by blast
qed

text \<open>No call removes \<open>u\<close> or what it lies in, and no worker is about to.\<close>

definition sparedBy :: "target \<Rightarrow> operatorAction list \<Rightarrow> bool" where
  "sparedBy u tr \<longleftrightarrow> (\<forall>i t err. Call i (DeregisterCall t err) \<in> set tr \<longrightarrow> t \<noteq> u \<and> t \<notin> enclosing u)"

lemma sparedBy_append: "sparedBy u (tr @ tr') \<longleftrightarrow> sparedBy u tr \<and> sparedBy u tr'"
  unfolding sparedBy_def set_append Un_iff by blast

lemma sparedBy_single: "sparedBy u [a] \<longleftrightarrow> (\<forall>i t err. a = Call i (DeregisterCall t err) \<longrightarrow> t \<noteq> u \<and> t \<notin> enclosing u)"
  unfolding sparedBy_def by auto

lemma foreign_run:
  assumes "operatorRun (shared reg others) md (newOperator r) tr s" and "meets reg view callOk"
    and "keeps others view (foreignAt Q u)" and "\<And>found. Q found \<Longrightarrow> \<not> isOwnedByOperator found"
    and "\<forall>e \<in> set (produced tr). \<not> registers md e u" and "foreignAt Q u (view r)"
  shows "foreignAt Q u (view (op_registry s)) \<and> (\<forall>i. \<not> threatens u (op_pcs s i)) \<and> sparedBy u tr"
  using assms(1,5)
proof (induction rule: operatorRun.induct)
  case none
  then show ?case using assms(6) by (simp add: newOperator_def sparedBy_def)
next
  case (more tr s1 a s2)
  then have inv: "foreignAt Q u (view (op_registry s1))" "\<And>i. \<not> threatens u (op_pcs s1 i)" "sparedBy u tr" by auto
  from more(2) show ?case
  proof (cases rule: operatorStep.cases)
    case (calls i e cl pc r')
    have "op_pcs s1 i \<noteq> AtRegister u opts" for opts
      using registering_produced [OF more(1) calls(3,4)] more.prems by auto
    with shared_call_keeps [OF calls(6) assms(2-4) inv(1,2) calls(5)]
    have "foreignAt Q u (view r')" "\<not> threatens u pc" by auto
    moreover have "sparedBy u [a]"
      using inv(2) [of i] calls(1,5) by (cases "op_pcs s1 i") (auto simp: sparedBy_single split: if_splits)
    ultimately show ?thesis using inv calls(2) by (simp add: sparedBy_append)
  qed (use inv in \<open>simp_all add: sparedBy_append sparedBy_single\<close>)
qed

section \<open>Properties\<close>

text \<open>
  C8. What the operator does not own it leaves alone: an object whose metadata do not name the operator, in registered
  ones, is there with the same metadata in every state that the operator can reach, unless a
  controller sent a creation or an update for it. This holds in any interleaving of
  controllers, dispatcher and workers, and whatever workers the clean-ups remove.
\<close>

theorem operator_keeps_foreign:
  assumes "operatorRun reg md (newOperator r) tr s" and "meets reg view callOk"
    and "view r u = Some found" and "\<not> isOwnedByOperator found" and "\<forall>p \<in> enclosing u. view r p \<noteq> None"
    and "\<forall>e \<in> set (produced tr). \<not> (ev_EventType e \<noteq> EventDelete
        \<and> eventTarget (nsWorker md (getNamespaceNameFromEventObject e)) (ev_Object e) = Some u)"
  shows "view (op_registry s) u = Some found \<and> (\<forall>p \<in> enclosing u. view (op_registry s) p \<noteq> None)"
proof -
  have "keeps (\<lambda>r r'. False) view (foreignAt (\<lambda>md. md = found) u)" by (simp add: keeps_def)
  from foreign_run [where others = "\<lambda>r r'. False", unfolded shared_alone, OF assms(1,2) this]
  show ?thesis using assms(3-6) by (simp add: foreignAt_def registers_def)
qed

text \<open>The deletion of a service of another owner and of the namespace of the operator around it.\<close>

definition foreignSchedule :: "schedule list" where
  "foreignSchedule =
     (let e1 = mkEvent EventDelete (ServiceObject ''shop'' ''web''); e2 = exampleDeletion in
      [Send e1, Do (Receive e1), Do (SendTo 0 e1), Do (Take 0 e1), Send e2, CallOf 0, Do (Finish 0), Do (Receive e2),
       Do (SendTo 0 e2), Do (Take 0 e2), CallOf 0, CallOf 0, Do (Finish 0)])"

lemma foreignSchedule_runs:
  "case operateAll memoryClient exampleOwner foreignSchedule (newOperator exampleMemory) of
     None \<Rightarrow> False
   | Some (tr, s) \<Rightarrow> produced tr = [mkEvent EventDelete (ServiceObject ''shop'' ''web''), exampleDeletion]"
  by code_simp

theorem operator_keeps_foreign_witness:
  "\<exists>tr (s :: memory operator). operatorRun (clientAnswers memoryClient) exampleOwner (newOperator exampleMemory) tr s
     \<and> length (produced tr) = 2
     \<and> fmlookup (op_registry s) (ServiceAt ''shop'' ''web'') = Some fmempty \<and> fmlookup (op_registry s) (NamespaceAt ''shop'') \<noteq> None"
proof -
  obtain tr and s :: "memory operator" where
    op: "operateAll memoryClient exampleOwner foreignSchedule (newOperator exampleMemory) = Some (tr, s)"
    and two: "produced tr = [mkEvent EventDelete (ServiceObject ''shop'' ''web''), exampleDeletion]"
    using foreignSchedule_runs by (auto split: option.splits)
  note run = operateAll_run [OF op]
  have "fmlookup exampleMemory (ServiceAt ''shop'' ''web'') = Some fmempty" "\<not> isOwnedByOperator fmempty"
    "\<forall>p \<in> enclosing (ServiceAt ''shop'' ''web''). fmlookup exampleMemory p \<noteq> None"
    by (simp_all add: exampleMemory_def isOwnedByOperator_def)
  from operator_keeps_foreign [OF run client_meets [OF memoryClient_laws] this] two run show ?thesis
    by (intro exI [where x = tr] exI [where x = s]) (simp add: exampleDeletion_def)
qed

text \<open>
  C10. With others at work on the same registry: as long as they neither make an object that does not name the operator one that
  does, nor remove it or what it lies in, the operator never removes it or what it
  lies in, unless a controller sent a creation or an update for it, in any interleaving of
  the calls with the steps of others.
\<close>

theorem operator_shares_registry:
  assumes "operatorRun (shared reg others) md (newOperator r) tr s" and "meets reg view callOk"
    and "\<And>r1 r2. others r1 r2 \<Longrightarrow> foreignAt (\<lambda>found. \<not> isOwnedByOperator found) u (view r1) \<Longrightarrow>
        foreignAt (\<lambda>found. \<not> isOwnedByOperator found) u (view r2)"
    and "foreignAt (\<lambda>found. \<not> isOwnedByOperator found) u (view r)"
    and "\<forall>e \<in> set (produced tr). \<not> (ev_EventType e \<noteq> EventDelete
        \<and> eventTarget (nsWorker md (getNamespaceNameFromEventObject e)) (ev_Object e) = Some u)"
  shows "foreignAt (\<lambda>found. \<not> isOwnedByOperator found) u (view (op_registry s))
    \<and> Call i (DeregisterCall u err) \<notin> set tr \<and> (\<forall>p \<in> enclosing u. Call i (DeregisterCall p err) \<notin> set tr)"
proof -
  have "keeps others view (foreignAt (\<lambda>found. \<not> isOwnedByOperator found) u)" using assms(3) by (auto simp: keeps_def)
  from foreign_run [OF assms(1,2) this _ _ assms(4)] assms(5)
  have "foreignAt (\<lambda>found. \<not> isOwnedByOperator found) u (view (op_registry s))" "sparedBy u tr" by (simp_all add: registers_def)
  then show ?thesis unfolding sparedBy_def by blast
qed

text \<open>Others who register what they like, wherever the operator is not the owner.\<close>

definition neighbour :: "memory \<Rightarrow> memory \<Rightarrow> bool" where
  "neighbour r r' \<longleftrightarrow> (\<exists>t md. \<not> isOwnedByOperator md \<and> r' = fmupd t md r)"

lemma operatorRun_shared: "operatorRun reg md s tr s' \<Longrightarrow> operatorRun (shared reg others) md s tr s'"
proof (induction rule: operatorRun.induct)
  case (more tr s1 a s2)
  have "shared reg others r cl r'" if "reg r cl r'" for r cl r' using that by (auto simp: shared_def)
  with more(2) have "operatorStep (shared reg others) md s1 a s2"
    by (cases rule: operatorStep.cases) (auto intro: operatorStep.intros)
  with more(3) show ?case by (rule operatorRun.more)
qed (rule operatorRun.none)

theorem operator_shares_registry_witness:
  "\<exists>tr (s :: memory operator). operatorRun (shared (clientAnswers memoryClient) neighbour) exampleOwner (newOperator exampleMemory) tr s
     \<and> length (produced tr) = 2 \<and> foreignAt (\<lambda>found. \<not> isOwnedByOperator found) (ServiceAt ''shop'' ''web'') (fmlookup (op_registry s))"
proof -
  let ?u = "ServiceAt ''shop'' ''web''"
  obtain tr and s :: "memory operator" where
    op: "operateAll memoryClient exampleOwner foreignSchedule (newOperator exampleMemory) = Some (tr, s)"
    and two: "produced tr = [mkEvent EventDelete (ServiceObject ''shop'' ''web''), exampleDeletion]"
    using foreignSchedule_runs by (auto split: option.splits)
  note run = operatorRun_shared [OF operateAll_run [OF op], of neighbour]
  have rely: "foreignAt (\<lambda>found. \<not> isOwnedByOperator found) ?u (fmlookup r2)"
    if "neighbour r1 r2" "foreignAt (\<lambda>found. \<not> isOwnedByOperator found) ?u (fmlookup r1)" for r1 r2
    using that by (auto simp: neighbour_def foreignAt_def)
  have start: "foreignAt (\<lambda>found. \<not> isOwnedByOperator found) ?u (fmlookup exampleMemory)"
    by (simp add: foreignAt_def exampleMemory_def isOwnedByOperator_def)
  from operator_shares_registry [OF run client_meets [OF memoryClient_laws] rely start] two run show ?thesis
    by (intro exI [where x = tr] exI [where x = s]) (simp add: exampleDeletion_def)
qed

text \<open>The operator is about to look into a namespace that it owns and is told to delete.\<close>

definition takeoverSchedule :: "schedule list" where
  "takeoverSchedule = [Send exampleDeletion, Do (Receive exampleDeletion), Do (SendTo 0 exampleDeletion), Do (Take 0 exampleDeletion), CallOf 0]"

lemma takeoverSchedule_runs:
  "case operateAll memoryClient exampleOwner takeoverSchedule (newOperator (fmap_of_list [(NamespaceAt ''shop'', exampleOwner)])) of
     None \<Rightarrow> False
   | Some (tr, s) \<Rightarrow> op_pcs s 0 = AtList (NamespaceAt ''shop'') \<and> op_registry s = fmap_of_list [(NamespaceAt ''shop'', exampleOwner)]
       \<and> length (d_pool (op_dispatcher s)) = 1 \<and> wd_status (d_pool (op_dispatcher s) ! 0) = Handling exampleDeletion"
  by code_simp


end
