(* ===== verification/Cluster.thy ===== *)
theory Cluster
  imports Prelude
begin

text \<open>
  What the operator reads from its cluster and its cloud (package \<open>pkg/cluster\<close>):
  \<open>kubernetes.go\<close>, the secrets and the settings, and \<open>network.go\<close>, the platform and its
  network. The two package variables are part of the state.
\<close>

section \<open>Outside calls and package state\<close>

text \<open>
  The calls that leave the program, as actions on a world \<open>'w\<close>; an error is its text and
  \<open>None\<close> the error nil. \<open>secretData\<close> and \<open>configMapData\<close> take a namespace and a name. The
  argument of \<open>ec2Metadata\<close> is the list of the configurations that the client is
  made with. An EC2 instance has the pointers \<open>VpcId\<close> and \<open>SubnetId\<close>.
\<close>

type_synonym ec2Instance = "string option \<times> string option"

record 'w cloud =
  cl_mapOrder :: "'w map_order"
  getConfig :: "('w, string option) state"
  newForConfig :: "('w, string option) state"
  secretData :: "string \<Rightarrow> string \<Rightarrow> ('w, string + string gomap) state"
  configMapData :: "string \<Rightarrow> string \<Rightarrow> ('w, string + string gomap) state"
  onGCE :: "('w, bool) state"
  gcpProjectID :: "('w, string + string) state"
  gcpZone :: "('w, string + string) state"
  gcpInstanceAttribute :: "string \<Rightarrow> ('w, string + string) state"
  containerService :: "string list \<Rightarrow> ('w, string option) state"
  gkeClusterNetwork :: "string \<Rightarrow> string \<Rightarrow> string \<Rightarrow> ('w, string + string \<times> string) state"
  awsNewSession :: "('w, string option) state"
  ec2Available :: "('w, bool) state"
  ec2Metadata :: "string list \<Rightarrow> string \<Rightarrow> ('w, string + string) state"
  ec2Region :: "string list \<Rightarrow> ('w, string + string) state"
  describeInstances :: "string \<Rightarrow> string \<Rightarrow> ('w, string + ec2Instance list list) state"

text \<open>
  \<open>kcli\<close> is a variable of an interface type: \<open>TypedNil\<close> is an interface that holds a nil
  \<open>*Clientset\<close>, and is not equal to nil.
\<close>

datatype k8sClient = TypedNil | Clientset

type_synonym clusterManager = string

record 'w proc =
  kcli :: "k8sClient option"
  iAmIn :: clusterManager
  p_world :: 'w

definition lift :: "('w, 'a) state \<Rightarrow> ('w proc, 'a) state" where
  "lift m = State (\<lambda>p. case run_state m (p_world p) of (a, w) \<Rightarrow> (a, p\<lparr>p_world := w\<rparr>))"

lemma run_lift [simp]:
  "run_state (lift m) p = (case run_state m (p_world p) of (a, w) \<Rightarrow> (a, p\<lparr>p_world := w\<rparr>))"
  by (simp add: lift_def)

text \<open>A call that returns a value and an error.\<close>

definition liftResult :: "('w, string + 'a) state \<Rightarrow> ('w proc, 'a result) state" where
  "liftResult m = do {
     r \<leftarrow> lift m;
     State_Monad.return (case r of Inl e \<Rightarrow> Inl (GoError e) | Inr a \<Rightarrow> Inr a)
   }"

definition liftError :: "('w, string option) state \<Rightarrow> ('w proc, unit result) state" where
  "liftError m = do {
     r \<leftarrow> lift m;
     State_Monad.return (case r of None \<Rightarrow> Inr () | Some e \<Rightarrow> Inl (GoError e))
   }"

lemma run_liftResult [simp]:
  "run_state (liftResult m) p = (case run_state m (p_world p) of
     (r, w) \<Rightarrow> (case r of Inl e \<Rightarrow> Inl (GoError e) | Inr a \<Rightarrow> Inr a, p\<lparr>p_world := w\<rparr>))"
  by (simp add: liftResult_def split: prod.splits)

lemma run_liftError [simp]:
  "run_state (liftError m) p = (case run_state m (p_world p) of
     (r, w) \<Rightarrow> (case r of None \<Rightarrow> Inr () | Some e \<Rightarrow> Inl (GoError e), p\<lparr>p_world := w\<rparr>))"
  by (simp add: liftError_def split: prod.splits)

section \<open>Kubernetes\<close>

definition defaultK8sNamespace :: string where
  "defaultK8sNamespace = ''cnwan-operator-system''"

definition defaultGoogleServiceAccountSecretName :: string where
  "defaultGoogleServiceAccountSecretName = ''google-service-account''"

definition defaultAwsCredentialsSecret :: string where
  "defaultAwsCredentialsSecret = ''aws-credentials''"

definition defaultEtcdCredentialsSecretName :: string where
  "defaultEtcdCredentialsSecretName = ''etcd-credentials''"

definition defaultOpSettingsConfigmapName :: string where
  "defaultOpSettingsConfigmapName = ''cnwan-operator-settings''"

definition getK8sClientSet :: "'w cloud \<Rightarrow> ('w proc, k8sClient result) state" where
  "getK8sClientSet c = do {
     k \<leftarrow> State (\<lambda>p. (kcli p, p));
     (case k of
        Some cli \<Rightarrow> State_Monad.return (Inr cli)
      | None \<Rightarrow> orReturn (liftError (getConfig c)) (\<lambda>_. do {
          e \<leftarrow> lift (newForConfig c);
          (case e of
             Some err \<Rightarrow> State (\<lambda>p. (Inl (GoError err), p\<lparr>kcli := Some TypedNil\<rparr>))
           | None \<Rightarrow> State (\<lambda>p. (Inr Clientset, p\<lparr>kcli := Some Clientset\<rparr>)))
        }))
   }"

text \<open>\<open>cli.CoreV1()\<close> reads a field of the \<open>Clientset\<close>, and panics on a nil one.\<close>

definition coreV1 :: "k8sClient \<Rightarrow> ('w proc, 'a result) state \<Rightarrow> ('w proc, 'a result) state" where
  "coreV1 cli m = (case cli of
     TypedNil \<Rightarrow> State_Monad.return (Inl (Panic ''nil pointer dereference: CoreV1''))
   | Clientset \<Rightarrow> m)"

definition getSecret :: "'w cloud \<Rightarrow> string \<Rightarrow> ('w proc, string gomap result) state" where
  "getSecret c name = orReturn (getK8sClientSet c)
     (\<lambda>cli. coreV1 cli (liftResult (secretData c defaultK8sNamespace name)))"

text \<open>The value that a \<open>range\<close> loop visits first; the empty string is nil.\<close>

definition firstVisited :: "'w cloud \<Rightarrow> string gomap \<Rightarrow> ('w proc, string result) state" where
  "firstVisited c data = do {
     kvs \<leftarrow> lift (goRange (cl_mapOrder c) data);
     State_Monad.return (Inr (case kvs of [] \<Rightarrow> '''' | (k, d) # _ \<Rightarrow> d))
   }"

definition hasData :: "string \<Rightarrow> string \<Rightarrow> string \<Rightarrow> failure" where
  "hasData kind name what = GoError (kind @ '' '' @ defaultK8sNamespace @ ''/'' @ name @ '' has '' @ what @ '' data'')"

definition GetGoogleServiceAccountSecret :: "'w cloud \<Rightarrow> ('w proc, string result) state" where
  "GetGoogleServiceAccountSecret c =
     orReturn (getSecret c defaultGoogleServiceAccountSecretName) (\<lambda>data.
       if fcard (fmdom data) = 0
       then State_Monad.return (Inl (hasData ''secret'' defaultGoogleServiceAccountSecretName ''no''))
       else if 1 < fcard (fmdom data)
       then State_Monad.return (Inl (hasData ''secret'' defaultGoogleServiceAccountSecretName ''multiple''))
       else firstVisited c data)"

definition GetAWSCredentialsSecret :: "'w cloud \<Rightarrow> ('w proc, string result) state" where
  "GetAWSCredentialsSecret c =
     orReturn (getSecret c defaultAwsCredentialsSecret) (\<lambda>data.
       if fcard (fmdom data) = 0
       then State_Monad.return (Inl (hasData ''secret'' defaultAwsCredentialsSecret ''no''))
       else firstVisited c data)"

definition entryOf :: "string gomap \<Rightarrow> string \<Rightarrow> string" where
  "entryOf data k = (case fmlookup data k of None \<Rightarrow> '''' | Some v \<Rightarrow> v)"

definition GetEtcdCredentialsSecret :: "'w cloud \<Rightarrow> ('w proc, (string \<times> string) result) state" where
  "GetEtcdCredentialsSecret c =
     orReturn (getSecret c defaultEtcdCredentialsSecretName) (\<lambda>data.
       State_Monad.return (Inr (entryOf data ''username'', entryOf data ''password'')))"

definition GetOperatorSettingsConfigMap :: "'w cloud \<Rightarrow> ('w proc, string result) state" where
  "GetOperatorSettingsConfigMap c = orReturn (getK8sClientSet c) (\<lambda>cli.
     orReturn (coreV1 cli (liftResult (configMapData c defaultK8sNamespace defaultOpSettingsConfigmapName))) (\<lambda>data.
       if fcard (fmdom data) = 0
       then State_Monad.return (Inl (hasData ''configmap'' defaultOpSettingsConfigmapName ''no''))
       else if 1 < fcard (fmdom data)
       then State_Monad.return (Inl (hasData ''configmap'' defaultOpSettingsConfigmapName ''multiple''))
       else firstVisited c data))"

section \<open>Platform and network\<close>

definition GKECluster :: clusterManager where "GKECluster = ''GKE''"
definition EKSCluster :: clusterManager where "EKSCluster = ''EKS''"
definition UnknownCluster :: clusterManager where "UnknownCluster = ''UNKNOWN''"

lemmas cluster_manager_defs = GKECluster_def EKSCluster_def UnknownCluster_def

definition gkeClusterNameAttr :: string where
  "gkeClusterNameAttr = ''cluster-name''"

record networkConfiguration =
  nc_NetworkName :: string
  nc_SubNetworkName :: string

text \<open>\<open>awssess.Must\<close> panics on an error.\<close>

definition mustSession :: "'w cloud \<Rightarrow> ('w proc, unit result) state" where
  "mustSession c = do {
     e \<leftarrow> lift (awsNewSession c);
     State_Monad.return (case e of None \<Rightarrow> Inr () | Some err \<Rightarrow> Inl (Panic err))
   }"

definition amIInEKS :: "'w cloud \<Rightarrow> ('w proc, bool result) state" where
  "amIInEKS c = orReturn (mustSession c) (\<lambda>_. do {
     b \<leftarrow> lift (ec2Available c);
     State_Monad.return (Inr b)
   })"

definition amIInGKE :: "'w cloud \<Rightarrow> ('w proc, bool) state" where
  "amIInGKE c = lift (onGCE c)"

definition WhereAmIRunning :: "'w cloud \<Rightarrow> ('w proc, clusterManager result) state" where
  "WhereAmIRunning c = do {
     i \<leftarrow> State (\<lambda>p. (iAmIn p, p));
     (if i \<noteq> '''' then State_Monad.return (Inr i)
      else do {
        gke \<leftarrow> amIInGKE c;
        (if gke then State_Monad.return (Inr GKECluster)
         else orReturn (amIInEKS c) (\<lambda>eks.
           State_Monad.return (Inr (if eks then EKSCluster else UnknownCluster))))
      })
   }"

definition initCluster :: "'w cloud \<Rightarrow> ('w proc, unit result) state" where
  "initCluster c = orReturn (WhereAmIRunning c) (\<lambda>m. State (\<lambda>p. (Inr (), p\<lparr>iAmIn := m\<rparr>)))"

text \<open>The options are the credentials they carry; the default is the scope of the whole platform.\<close>

definition GetNetworkFromGKE :: "'w cloud \<Rightarrow> string list \<Rightarrow> ('w proc, networkConfiguration result) state" where
  "GetNetworkFromGKE c opts = do {
     i \<leftarrow> State (\<lambda>p. (iAmIn p, p));
     (if i \<noteq> GKECluster
      then State_Monad.return (Inl (GoError ''not running in GKE or no permissions to get metadata from GKE''))
      else
        orReturn (liftResult (gcpProjectID c)) (\<lambda>projectID.
        orReturn (liftResult (gcpZone c)) (\<lambda>zone.
        orReturn (liftResult (gcpInstanceAttribute c gkeClusterNameAttr)) (\<lambda>clusterName.
          let clientopts = (if opts = [] then [''https://www.googleapis.com/auth/cloud-platform''] else opts)
          in orReturn (liftError (containerService c clientopts)) (\<lambda>_.
             orReturn (liftResult (gkeClusterNetwork c projectID zone clusterName)) (\<lambda>(net, subnet).
               State_Monad.return (Inr \<lparr>nc_NetworkName = net, nc_SubNetworkName = subnet\<rparr>)))))))
   }"

definition GetNetworkFromEKS :: "'w cloud \<Rightarrow> string list \<Rightarrow> ('w proc, networkConfiguration result) state" where
  "GetNetworkFromEKS c cfgs = do {
     i \<leftarrow> State (\<lambda>p. (iAmIn p, p));
     (if i \<noteq> EKSCluster
      then State_Monad.return (Inl (GoError ''not running in EKS or no permissions to get metadata from EKS''))
      else orReturn (mustSession c) (\<lambda>_.
        let used = (if 0 < length cfgs then [] else cfgs)
        in orReturn (liftResult (ec2Metadata c used ''instance-id'')) (\<lambda>instanceID.
           orReturn (liftResult (ec2Region c used)) (\<lambda>region.
           orReturn (liftResult (describeInstances c region instanceID)) (\<lambda>reservations.
             State_Monad.return
               (case reservations of
                  ((vpc, subnet) # _) # _ \<Rightarrow>
                    Inr \<lparr>nc_NetworkName = (case vpc of None \<Rightarrow> '''' | Some v \<Rightarrow> v),
                         nc_SubNetworkName = (case subnet of None \<Rightarrow> '''' | Some v \<Rightarrow> v)\<rparr>
                | _ \<Rightarrow> Inl (GoError ''could not find currently running instance'')))))))
   }"

definition GetGCPRegion :: "'w cloud \<Rightarrow> ('w proc, string result) state" where
  "GetGCPRegion c = orReturn (liftResult (gcpZone c)) (\<lambda>zone.
     let i = lastIndex CHR ''-'' zone
     in State_Monad.return
       (if i = -1 then Inl (GoError (''unexpected zone found: '' @ zone))
        else Inr (take (nat i) zone)))"

definition GetGCPProjectID :: "'w cloud \<Rightarrow> ('w proc, string result) state" where
  "GetGCPProjectID c = liftResult (gcpProjectID c)"

section \<open>Reading one entry\<close>

lemma fcard_fmdom_one: "fcard (fmdom m) = 1 \<longleftrightarrow> (\<exists>k v. m = fmupd k v fmempty)"
proof
  assume "fcard (fmdom m) = 1"
  then have "card (fset (fmdom m)) = 1" by (simp add: fcard.rep_eq)
  then obtain k where "fset (fmdom m) = {k}" by (rule card_1_singletonE)
  then have k: "fmdom m = {|k|}" by (auto simp: fset_inject [symmetric])
  then obtain v where v: "fmlookup m k = Some v" by (metis fmdomE fsingletonI)
  have "m = fmupd k v fmempty"
    using k v by (intro fmap_ext) (auto simp: fmdom_notD)
  then show "\<exists>k v. m = fmupd k v fmempty" by blast
qed (auto simp: fcard.rep_eq)

lemma fcard_fmdom_zero: "fcard (fmdom m) = 0 \<longleftrightarrow> m = fmempty"
  by (metis fcard_0_eq fmdom_empty fmrestrict_fset_dom fmrestrict_fset_null)

lemma firstVisited_value:
  assumes "visitsOnce (cl_mapOrder c)" and "data \<noteq> fmempty"
  shows "\<exists>k d p'. run_state (firstVisited c data) p = (Inr d, p') \<and> fmlookup data k = Some d"
proof -
  obtain kvs w where kvs: "run_state (goRange (cl_mapOrder c) data) (p_world p) = (kvs, w)" by fastforce
  then have v: "visitOf data kvs" using pred_stateD [OF goRange_visits [OF assms(1)]] by blast
  with assms(2) obtain k d rest where "kvs = (k, d) # rest"
    using visitOf_empty_iff [OF v] by (cases kvs) auto
  moreover from this v have "fmlookup data k = Some d" by (auto simp: visitOf_def)
  ultimately show ?thesis using kvs by (auto simp: firstVisited_def)
qed

section \<open>A concrete cloud\<close>

text \<open>Its world is the list of the calls of \<open>newForConfig\<close> that are still to fail.\<close>

definition exampleCloud :: "bool list cloud" where
  "exampleCloud = \<lparr>cl_mapOrder = sortedOrder,
     getConfig = State_Monad.return None,
     newForConfig = State (\<lambda>w. case w of True # w' \<Rightarrow> (Some ''no TLS'', w') | _ \<Rightarrow> (None, w)),
     secretData = (\<lambda>ns name. State_Monad.return
       (Inr (fmap_of_list [(''key'', ''credentials of '' @ name)]))),
     configMapData = (\<lambda>ns name. State_Monad.return (Inr (fmap_of_list [(''settings.yaml'', ''text'')]))),
     onGCE = State_Monad.return True,
     gcpProjectID = State_Monad.return (Inr ''project''),
     gcpZone = State_Monad.return (Inr ''us-west1-a''),
     gcpInstanceAttribute = (\<lambda>a. State_Monad.return (Inr ''cluster'')),
     containerService = (\<lambda>opts. State_Monad.return None),
     gkeClusterNetwork = (\<lambda>project zone name. State_Monad.return (Inr (''vpc'', ''subnet''))),
     awsNewSession = State_Monad.return None,
     ec2Available = State_Monad.return False,
     ec2Metadata = (\<lambda>cfgs path. State_Monad.return (Inl ''unavailable'')),
     ec2Region = (\<lambda>cfgs. State_Monad.return (Inl ''unavailable'')),
     describeInstances = (\<lambda>region i. State_Monad.return (Inr []))\<rparr>"

definition exampleProc :: "bool list proc" where
  "exampleProc = \<lparr>kcli = None, iAmIn = GKECluster, p_world = []\<rparr>"

section \<open>Properties\<close>

text \<open>
  The google credentials are the only entry of their secret: a secret without or with
  several entries is refused, and a single entry is returned as it is. For the
  AWS secret a missing entry is refused too, but of several entries any one may be returned.
\<close>

theorem secret_entries:
  assumes "visitsOnce (cl_mapOrder c)"
    and "run_state (getSecret c defaultGoogleServiceAccountSecretName) p = (Inr google, p1)"
    and "run_state (getSecret c defaultAwsCredentialsSecret) q = (Inr amazon, q1)"
  shows "(case fst (run_state (GetGoogleServiceAccountSecret c) p) of
            Inr d \<Rightarrow> \<exists>k. google = fmupd k d fmempty
          | Inl e \<Rightarrow> \<nexists>k d. google = fmupd k d fmempty)
    \<and> (case fst (run_state (GetAWSCredentialsSecret c) q) of
            Inr d \<Rightarrow> \<exists>k. fmlookup amazon k = Some d
          | Inl e \<Rightarrow> amazon = fmempty)"
proof
  consider "google = fmempty" | k d where "google = fmupd k d fmempty" | "1 < fcard (fmdom google)"
    using fcard_fmdom_zero [of google] fcard_fmdom_one [of google] by (cases "fcard (fmdom google)") force+
  then show "case fst (run_state (GetGoogleServiceAccountSecret c) p) of
            Inr d \<Rightarrow> \<exists>k. google = fmupd k d fmempty
          | Inl e \<Rightarrow> \<nexists>k d. google = fmupd k d fmempty"
  proof cases
    case 2
    then have "google \<noteq> fmempty" "fcard (fmdom google) = 1" using fcard_fmdom_one [of google] by auto
    with firstVisited_value [OF assms(1), of google p1] assms(2) 2 show ?thesis
      by (auto simp: GetGoogleServiceAccountSecret_def split: if_splits)
  next
    case 3
    then show ?thesis using assms(2) fcard_fmdom_one [of google]
      by (auto simp: GetGoogleServiceAccountSecret_def)
  qed (use assms(2) in \<open>auto simp: GetGoogleServiceAccountSecret_def dest: arg_cong [where f = fmdom]\<close>)
  show "case fst (run_state (GetAWSCredentialsSecret c) q) of
            Inr d \<Rightarrow> \<exists>k. fmlookup amazon k = Some d
          | Inl e \<Rightarrow> amazon = fmempty"
    using assms(3) firstVisited_value [OF assms(1), of amazon q1] fcard_fmdom_zero [of amazon]
    by (cases "amazon = fmempty") (auto simp: GetAWSCredentialsSecret_def)
qed

theorem secret_entries_witness:
  "\<exists>d. fst (run_state (GetGoogleServiceAccountSecret exampleCloud) exampleProc) = Inr d
     \<and> fst (run_state (GetAWSCredentialsSecret exampleCloud) exampleProc) = Inr ''credentials of aws-credentials''
     \<and> d = ''credentials of google-service-account''"
proof -
  have order: "visitsOnce (cl_mapOrder exampleCloud)" by (simp add: exampleCloud_def visitsOnce_sortedOrder)
  have get: "run_state (getSecret exampleCloud name) exampleProc =
      (Inr (fmupd ''key'' (''credentials of '' @ name) fmempty), exampleProc\<lparr>kcli := Some Clientset\<rparr>)" for name
    by (simp add: getSecret_def getK8sClientSet_def coreV1_def exampleCloud_def exampleProc_def)
  show ?thesis
    using secret_entries [OF order get get]
    by (auto simp: defaultGoogleServiceAccountSecretName_def defaultAwsCredentialsSecret_def
        dest!: arg_cong [where f = "\<lambda>m. fmlookup m ''key''"] split: sum.splits if_splits)
qed

text \<open>
  C40. A client that could not be made is kept: after a failed \<open>NewForConfig\<close> the variable
  \<open>kcli\<close> holds an interface around a nil pointer, which the next call takes for a client,
  so that it panics, without asking Kubernetes again.
\<close>

theorem failed_client_kept:
  assumes "kcli p = None" and "run_state (getConfig c) (p_world p) = (None, w1)"
    and "run_state (newForConfig c) w1 = (Some err, w2)"
  shows "\<exists>p'. run_state (getSecret c name) p = (Inl (GoError err), p')
    \<and> (\<exists>msg. run_state (getSecret c name') p' = (Inl (Panic msg), p'))
    \<and> (\<exists>msg. run_state (GetOperatorSettingsConfigMap c) p' = (Inl (Panic msg), p'))"
  using assms
  by (simp add: getSecret_def getK8sClientSet_def coreV1_def GetOperatorSettingsConfigMap_def)

theorem failed_client_kept_witness:
  "\<exists>p'. run_state (getSecret exampleCloud ''a'') (exampleProc\<lparr>p_world := [True]\<rparr>) = (Inl (GoError ''no TLS''), p')
    \<and> (\<exists>msg. run_state (getSecret exampleCloud ''b'') p' = (Inl (Panic msg), p'))"
  using failed_client_kept [of "exampleProc\<lparr>p_world := [True]\<rparr>" exampleCloud "[True]" "''no TLS''" "[]" "''a''" "''b''"]
  by (auto simp: exampleProc_def exampleCloud_def)

lemma lastIndex_none: "lastIndex c s = -1 \<longleftrightarrow> c \<notin> set s"
proof -
  have bound: "-1 \<le> lastIndex c s" for s by (induction s) (auto simp: Let_def)
  show ?thesis
  proof (induction s)
    case (Cons x s)
    then show ?case using bound [of s] by (auto simp: Let_def)
  qed simp
qed

lemma lastIndex_last: "c \<notin> set b \<Longrightarrow> lastIndex c (a @ c # b) = int (length a)"
  by (induction a) (auto simp: Let_def dest: lastIndex_none [THEN iffD2])

text \<open>
  The region of a zone is what stands before its last dash; a zone without a dash is an
  error.
\<close>

theorem GetGCPRegion_exact:
  assumes "run_state (gcpZone c) (p_world p) = (Inr zone, w)"
  shows "(CHR ''-'' \<notin> set zone \<longrightarrow> (\<exists>msg. fst (run_state (GetGCPRegion c) p) = Inl (GoError msg)))
    \<and> (\<forall>region part. zone = region @ ''-'' @ part \<longrightarrow> CHR ''-'' \<notin> set part \<longrightarrow>
          fst (run_state (GetGCPRegion c) p) = Inr region)"
  using assms by (auto simp: GetGCPRegion_def Let_def lastIndex_none lastIndex_last)

theorem GetGCPRegion_exact_witness:
  "fst (run_state (GetGCPRegion exampleCloud) exampleProc) = Inr ''us-west1''"
proof -
  have "run_state (gcpZone exampleCloud) (p_world exampleProc) = (Inr ''us-west1-a'', [])"
    by (simp add: exampleCloud_def exampleProc_def)
  from GetGCPRegion_exact [OF this] show ?thesis
    by (auto dest!: spec [where x = "''us-west1''"] spec [where x = "''a''"])
qed

text \<open>
  \<open>GetNetworkFromEKS\<close> never uses the configurations it is given: its test is the wrong way
  round, and the metadata client is made without them in every case.
\<close>

lemma GetNetworkFromEKS_ignores_cfgs:
  "GetNetworkFromEKS c cfgs = GetNetworkFromEKS c []"
  by (cases cfgs) (simp_all add: GetNetworkFromEKS_def)

end
