(* ===== verification/Sha256.thy ===== *)
theory Sha256
  imports Prelude "HOL-Library.Word"
begin

unbundle bit_operations_syntax

text \<open>
  The parts of Go's standard library that name the endpoints: \<open>crypto/sha256\<close> (FIPS 180-4)
  and \<open>encoding/hex\<close>. \<open>sha256Hex s\<close> is \<open>hex.EncodeToString\<close> of the digest of \<open>s\<close>. The
  message schedule is kept as a window of the last sixteen words, so one pass over the
  constants does the schedule and the compression. The last lemma runs the definition on the
  test vector of the standard.
\<close>

type_synonym u32 = "32 word"

section \<open>Definition\<close>

definition rotr :: "nat \<Rightarrow> u32 \<Rightarrow> u32" where
  "rotr n x = drop_bit n x OR push_bit (32 - n) x"

definition smallSigma0 :: "u32 \<Rightarrow> u32" where
  "smallSigma0 x = rotr 7 x XOR rotr 18 x XOR drop_bit 3 x"

definition smallSigma1 :: "u32 \<Rightarrow> u32" where
  "smallSigma1 x = rotr 17 x XOR rotr 19 x XOR drop_bit 10 x"

definition bigSigma0 :: "u32 \<Rightarrow> u32" where
  "bigSigma0 x = rotr 2 x XOR rotr 13 x XOR rotr 22 x"

definition bigSigma1 :: "u32 \<Rightarrow> u32" where
  "bigSigma1 x = rotr 6 x XOR rotr 11 x XOR rotr 25 x"

definition shaChoose :: "u32 \<Rightarrow> u32 \<Rightarrow> u32 \<Rightarrow> u32" where
  "shaChoose x y z = (x AND y) XOR (NOT x AND z)"

definition shaMajority :: "u32 \<Rightarrow> u32 \<Rightarrow> u32 \<Rightarrow> u32" where
  "shaMajority x y z = (x AND y) XOR (x AND z) XOR (y AND z)"

lemmas sha_function_defs = rotr_def smallSigma0_def smallSigma1_def bigSigma0_def bigSigma1_def
  shaChoose_def shaMajority_def

datatype shaState = ShaState u32 u32 u32 u32 u32 u32 u32 u32

definition initialState :: shaState where
  "initialState = ShaState 1779033703 3144134277 1013904242 2773480762
     1359893119 2600822924 528734635 1541459225"

definition roundConstants :: "u32 list" where
  "roundConstants =
    [1116352408, 1899447441, 3049323471, 3921009573, 961987163, 1508970993, 2453635748,
     2870763221, 3624381080, 310598401, 607225278, 1426881987, 1925078388, 2162078206,
     2614888103, 3248222580, 3835390401, 4022224774, 264347078, 604807628, 770255983,
     1249150122, 1555081692, 1996064986, 2554220882, 2821834349, 2952996808, 3210313671,
     3336571891, 3584528711, 113926993, 338241895, 666307205, 773529912, 1294757372,
     1396182291, 1695183700, 1986661051, 2177026350, 2456956037, 2730485921, 2820302411,
     3259730800, 3345764771, 3516065817, 3600352804, 4094571909, 275423344, 430227734,
     506948616, 659060556, 883997877, 958139571, 1322822218, 1537002063, 1747873779,
     1955562222, 2024104815, 2227730452, 2361852424, 2428436474, 2756734187, 3204031479,
     3329325298]"

text \<open>
  The constants are the first 32 bits of the fractional parts of the cube roots of the first
  64 primes: with its integer part put before it, each is a cube root rounded down.
\<close>

definition isCubeRoot :: "u32 \<Rightarrow> int \<Rightarrow> bool" where
  "isCubeRoot k p =
     (let q = (if p < 8 then 1 else if p < 27 then 2 else if p < 64 then 3 else if p < 125 then 4
               else if p < 216 then 5 else 6) * 2 ^ 32 + uint k
      in q ^ 3 \<le> p * 2 ^ 96 \<and> p * 2 ^ 96 < (q + 1) ^ 3)"

definition firstPrimes :: "int list" where
  "firstPrimes =
    [2, 3, 5, 7, 11, 13, 17, 19, 23, 29, 31, 37, 41, 43, 47, 53,
     59, 61, 67, 71, 73, 79, 83, 89, 97, 101, 103, 107, 109, 113, 127, 131,
     137, 139, 149, 151, 157, 163, 167, 173, 179, 181, 191, 193, 197, 199, 211, 223,
     227, 229, 233, 239, 241, 251, 257, 263, 269, 271, 277, 281, 283, 293, 307, 311]"

lemma roundConstants_cube_roots: "list_all2 isCubeRoot roundConstants firstPrimes"
  by (simp add: roundConstants_def firstPrimes_def isCubeRoot_def)

fun mixState :: "u32 \<Rightarrow> u32 \<Rightarrow> shaState \<Rightarrow> shaState" where
  "mixState t1 t2 (ShaState a b c d e f g h) = ShaState (t1 + t2) a b c (d + t1) e f g"

fun shaRound :: "u32 \<Rightarrow> u32 \<Rightarrow> shaState \<Rightarrow> shaState" where
  "shaRound k w (ShaState a b c d e f g h) =
     mixState (h + bigSigma1 e + shaChoose e f g + k + w) (bigSigma0 a + shaMajority a b c)
       (ShaState a b c d e f g h)"

fun shaStep :: "u32 \<Rightarrow> u32 list \<times> shaState \<Rightarrow> u32 list \<times> shaState" where
  "shaStep k ([], st) = ([], st)"
| "shaStep k (w # ws, st) =
     (ws @ [smallSigma1 (ws ! 13) + ws ! 8 + smallSigma0 (ws ! 0) + w], shaRound k w st)"

fun addState :: "shaState \<Rightarrow> shaState \<Rightarrow> shaState" where
  "addState (ShaState a b c d e f g h) (ShaState a' b' c' d' e' f' g' h') =
     ShaState (a + a') (b + b') (c + c') (d + d') (e + e') (f + f') (g + g') (h + h')"

definition shaBlock :: "u32 list \<Rightarrow> shaState \<Rightarrow> shaState" where
  "shaBlock ws st = addState st (snd (fold shaStep roundConstants (ws, st)))"

definition bigEndian64 :: "nat \<Rightarrow> nat list" where
  "bigEndian64 n = map (\<lambda>i. (n div 256 ^ i) mod 256) [7, 6, 5, 4, 3, 2, 1, 0]"

definition padded :: "string \<Rightarrow> nat list" where
  "padded s = map of_char s @ [128] @ replicate (nat ((55 - int (length s)) mod 64)) 0
     @ bigEndian64 (8 * length s)"

fun bigEndianWords :: "nat list \<Rightarrow> u32 list" where
  "bigEndianWords (b0 # b1 # b2 # b3 # bs) =
     of_nat (((b0 * 256 + b1) * 256 + b2) * 256 + b3) # bigEndianWords bs"
| "bigEndianWords _ = []"

function shaBlocks :: "u32 list \<Rightarrow> shaState \<Rightarrow> shaState" where
  "shaBlocks ws st = (if ws = [] then st else shaBlocks (drop 16 ws) (shaBlock (take 16 ws) st))"
  by pat_completeness auto
termination by (relation "measure (\<lambda>(ws, st). length ws)") auto

declare shaBlocks.simps [simp del]

definition wordHex :: "u32 \<Rightarrow> string" where
  "wordHex w = map (\<lambda>i. ''0123456789abcdef'' ! ((unat w div 16 ^ i) mod 16)) [7, 6, 5, 4, 3, 2, 1, 0]"

fun stateHex :: "shaState \<Rightarrow> string" where
  "stateHex (ShaState a b c d e f g h) = concat (map wordHex [a, b, c, d, e, f, g, h])"

definition sha256Hex :: "string \<Rightarrow> string" where
  "sha256Hex s = stateHex (shaBlocks (bigEndianWords (padded s)) initialState)"

section \<open>Shape of the digest\<close>

lemma length_sha256Hex [simp]: "length (sha256Hex s) = 64"
  by (cases "shaBlocks (bigEndianWords (padded s)) initialState") (simp add: sha256Hex_def wordHex_def)

lemma wordHex_digits: "set (wordHex w) \<subseteq> set ''0123456789abcdef''"
proof
  fix c
  assume "c \<in> set (wordHex w)"
  then obtain k where "c = ''0123456789abcdef'' ! (k mod 16)"
    by (auto simp: wordHex_def simp del: nth_Cons_numeral)
  moreover have "''0123456789abcdef'' ! (k mod 16) \<in> set ''0123456789abcdef''"
    by (rule nth_mem) simp
  ultimately show "c \<in> set ''0123456789abcdef''" by simp
qed

lemma sha256Hex_digits: "set (sha256Hex s) \<subseteq> set ''0123456789abcdef''"
proof (cases "shaBlocks (bigEndianWords (padded s)) initialState")
  case (ShaState a b c d e f g h)
  then show ?thesis using wordHex_digits
    by (simp add: sha256Hex_def del: list.set)
qed

section \<open>The test vector of the standard\<close>

lemma abc_rounds_0:
  "fold shaStep [1116352408, 1899447441, 3049323471, 3921009573, 961987163, 1508970993, 2453635748, 2870763221]
     ([1633837952, 0, 0, 0, 0, 0, 0, 0, 0, 0, 0, 0, 0, 0, 0, 24], ShaState 1779033703 3144134277 1013904242 2773480762 1359893119 2600822924 528734635 1541459225)
   = ([0, 0, 0, 0, 0, 0, 0, 24, 1633837952, 983040, 2108187653, 1610613702, 1050508152, 25426944, 316456923, 3806512014], ShaState 2241887071 3842179968 725748213 71342698 207977081 2603066369 1900175533 1135452741)"
  by (simp add: sha_function_defs)

lemma abc_rounds_8:
  "fold shaStep [3624381080, 310598401, 607225278, 1426881987, 1925078388, 2162078206, 2614888103, 3248222580]
     ([0, 0, 0, 0, 0, 0, 0, 24, 1633837952, 983040, 2108187653, 1610613702, 1050508152, 25426944, 316456923, 3806512014], ShaState 2241887071 3842179968 725748213 71342698 207977081 2603066369 1900175533 1135452741)
   = ([1633837952, 983040, 2108187653, 1610613702, 1050508152, 25426944, 316456923, 3806512014, 3357629466, 3073800610, 3854317833, 845560923, 2636160359, 3968280267, 1881225380, 3552024379], ShaState 2969183118 3227803614 3643992854 2274437520 123276749 194179596 1952073950 509051416)"
  by (simp add: sha_function_defs)

lemma abc_rounds_16:
  "fold shaStep [3835390401, 4022224774, 264347078, 604807628, 770255983, 1249150122, 1555081692, 1996064986]
     ([1633837952, 983040, 2108187653, 1610613702, 1050508152, 25426944, 316456923, 3806512014, 3357629466, 3073800610, 3854317833, 845560923, 2636160359, 3968280267, 1881225380, 3552024379], ShaState 2969183118 3227803614 3643992854 2274437520 123276749 194179596 1952073950 509051416)
   = ([3357629466, 3073800610, 3854317833, 845560923, 2636160359, 3968280267, 1881225380, 3552024379, 2482346367, 996719219, 2952069057, 4043988066, 176896406, 1924104970, 2483675966, 610538786], ShaState 3319086477 2812502591 3261099373 2647034723 2856829767 1240797514 3777329520 2329577776)"
  by (simp add: sha_function_defs)

lemma abc_rounds_24:
  "fold shaStep [2554220882, 2821834349, 2952996808, 3210313671, 3336571891, 3584528711, 113926993, 338241895]
     ([3357629466, 3073800610, 3854317833, 845560923, 2636160359, 3968280267, 1881225380, 3552024379, 2482346367, 996719219, 2952069057, 4043988066, 176896406, 1924104970, 2483675966, 610538786], ShaState 3319086477 2812502591 3261099373 2647034723 2856829767 1240797514 3777329520 2329577776)
   = ([2482346367, 996719219, 2952069057, 4043988066, 176896406, 1924104970, 2483675966, 610538786, 2672279444, 4037431130, 1042573945, 657669027, 206005234, 2215296807, 2049510749, 106709978], ShaState 1941126133 3935906338 2684750640 909411017 3126399250 17410874 2917635127 1628611511)"
  by (simp add: sha_function_defs)

lemma abc_rounds_32:
  "fold shaStep [666307205, 773529912, 1294757372, 1396182291, 1695183700, 1986661051, 2177026350, 2456956037]
     ([2482346367, 996719219, 2952069057, 4043988066, 176896406, 1924104970, 2483675966, 610538786, 2672279444, 4037431130, 1042573945, 657669027, 206005234, 2215296807, 2049510749, 106709978], ShaState 1941126133 3935906338 2684750640 909411017 3126399250 17410874 2917635127 1628611511)
   = ([2672279444, 4037431130, 1042573945, 657669027, 206005234, 2215296807, 2049510749, 106709978, 4215179723, 3430291419, 3118885940, 2845390439, 2226839261, 3256115900, 344409900, 2987358873], ShaState 2045405306 1841658506 887035396 1101421745 519815328 4034403272 2768741693 124953195)"
  by (simp add: sha_function_defs)

lemma abc_rounds_40:
  "fold shaStep [2730485921, 2820302411, 3259730800, 3345764771, 3516065817, 3600352804, 4094571909, 275423344]
     ([2672279444, 4037431130, 1042573945, 657669027, 206005234, 2215296807, 2049510749, 106709978, 4215179723, 3430291419, 3118885940, 2845390439, 2226839261, 3256115900, 344409900, 2987358873], ShaState 2045405306 1841658506 887035396 1101421745 519815328 4034403272 2768741693 124953195)
   = ([4215179723, 3430291419, 3118885940, 2845390439, 2226839261, 3256115900, 344409900, 2987358873, 4015503821, 3957764664, 2682456414, 2025622859, 2755645205, 1720397816, 4004225740, 313650667], ShaState 1098003085 2706117808 1923828625 643991573 4274981830 3581645993 3077922209 2819559920)"
  by (simp add: sha_function_defs)

lemma abc_rounds_48:
  "fold shaStep [430227734, 506948616, 659060556, 883997877, 958139571, 1322822218, 1537002063, 1747873779]
     ([4215179723, 3430291419, 3118885940, 2845390439, 2226839261, 3256115900, 344409900, 2987358873, 4015503821, 3957764664, 2682456414, 2025622859, 2755645205, 1720397816, 4004225740, 313650667], ShaState 1098003085 2706117808 1923828625 643991573 4274981830 3581645993 3077922209 2819559920)
   = ([4015503821, 3957764664, 2682456414, 2025622859, 2755645205, 1720397816, 4004225740, 313650667, 3087686196, 484939733, 823116247, 2736351438, 2106384450, 3582536839, 250799243, 2252827306], ShaState 952932627 1053056219 4117770203 270520975 1422599787 3842906959 2672265155 1386118400)"
  by (simp add: sha_function_defs)

lemma abc_rounds_56:
  "fold shaStep [1955562222, 2024104815, 2227730452, 2361852424, 2428436474, 2756734187, 3204031479, 3329325298]
     ([4015503821, 3957764664, 2682456414, 2025622859, 2755645205, 1720397816, 4004225740, 313650667, 3087686196, 484939733, 823116247, 2736351438, 2106384450, 3582536839, 250799243, 2252827306], ShaState 952932627 1053056219 4117770203 270520975 1422599787 3842906959 2672265155 1386118400)
   = ([3087686196, 484939733, 823116247, 2736351438, 2106384450, 3582536839, 250799243, 2252827306, 4215000474, 3786143489, 2633077969, 1202520861, 2860590881, 70651292, 3680168089, 3194403987], ShaState 1349398616 3550093669 80891244 3093179625 1593118500 4212265488 2492278198 2518632596)"
  by (simp add: sha_function_defs)

lemmas abc_rounds = abc_rounds_0 abc_rounds_8 abc_rounds_16 abc_rounds_24 abc_rounds_32 abc_rounds_40
  abc_rounds_48 abc_rounds_56

lemma roundConstants_split:
  "roundConstants = [1116352408, 1899447441, 3049323471, 3921009573, 961987163, 1508970993, 2453635748, 2870763221] @ [3624381080, 310598401, 607225278, 1426881987, 1925078388, 2162078206, 2614888103, 3248222580] @ [3835390401, 4022224774, 264347078, 604807628, 770255983, 1249150122, 1555081692, 1996064986] @ [2554220882, 2821834349, 2952996808, 3210313671, 3336571891, 3584528711, 113926993, 338241895] @ [666307205, 773529912, 1294757372, 1396182291, 1695183700, 1986661051, 2177026350, 2456956037] @ [2730485921, 2820302411, 3259730800, 3345764771, 3516065817, 3600352804, 4094571909, 275423344] @ [430227734, 506948616, 659060556, 883997877, 958139571, 1322822218, 1537002063, 1747873779] @ [1955562222, 2024104815, 2227730452, 2361852424, 2428436474, 2756734187, 3204031479, 3329325298]"
  by (simp add: roundConstants_def)

lemma abc_block:
  "shaBlock [1633837952, 0, 0, 0, 0, 0, 0, 0, 0, 0, 0, 0, 0, 0, 0, 24] (ShaState 1779033703 3144134277 1013904242 2773480762 1359893119 2600822924 528734635 1541459225) = ShaState 3128432319 2399260650 1094795486 1571693091 2953011619 2518121116 3021012833 4060091821"
  by (simp only: shaBlock_def roundConstants_split fold_append comp_apply abc_rounds snd_conv) simp

lemma replicate_52: "replicate 52 (0::nat) = [0, 0, 0, 0, 0, 0, 0, 0, 0, 0, 0, 0, 0, 0, 0, 0, 0, 0, 0, 0, 0, 0, 0, 0, 0, 0, 0, 0, 0, 0, 0, 0, 0, 0, 0, 0, 0, 0, 0, 0, 0, 0, 0, 0, 0, 0, 0, 0, 0, 0, 0, 0]"
  by (simp add: numeral_eq_Suc)

lemma padded_abc: "padded ''abc'' = [97, 98, 99, 128] @ [0, 0, 0, 0, 0, 0, 0, 0, 0, 0, 0, 0, 0, 0, 0, 0, 0, 0, 0, 0, 0, 0, 0, 0, 0, 0, 0, 0, 0, 0, 0, 0, 0, 0, 0, 0, 0, 0, 0, 0, 0, 0, 0, 0, 0, 0, 0, 0, 0, 0, 0, 0] @ [0, 0, 0, 0, 0, 0, 0, 24]"
  by (simp add: padded_def bigEndian64_def replicate_52)

lemma abc_words:
  "bigEndianWords (padded ''abc'') = [1633837952, 0, 0, 0, 0, 0, 0, 0, 0, 0, 0, 0, 0, 0, 0, 24]"
  unfolding padded_abc by simp

lemma shaBlocks_single:
  "length ws = 16 \<Longrightarrow> shaBlocks ws st = shaBlock ws st"
  by (auto simp: shaBlocks.simps [of ws] shaBlocks.simps [of "[]"])

lemma sha256Hex_abc: "sha256Hex ''abc'' = ''ba7816bf8f01cfea414140de5dae2223b00361a396177a9cb410ff61f20015ad''"
  by (simp add: sha256Hex_def abc_words shaBlocks_single initialState_def abc_block wordHex_def)

end
