(* ===== verification/Service_Check.thy ===== *)
theory Service_Check
  imports Events Sha256
begin

text \<open>
  What makes a Kubernetes service fit for registration (package \<open>pkg/controllers\<close>,
  \<open>utils.go\<close>): the annotation filter, the addresses of a load balancer, the label of its
  namespace, and \<open>checkService\<close>, which puts them together and builds the endpoints.
\<close>

section \<open>The Kubernetes objects and the world\<close>

text \<open>
  Of the Kubernetes types the fields that the operator reads. \<open>svc_Ports\<close> holds the field
  \<open>Port\<close> (an \<open>int32\<close>) of every element of \<open>Spec.Ports\<close>.
\<close>

record loadBalancerIngress =
  ing_IP :: string
  ing_Hostname :: string

record k8sService =
  svc_Name :: string
  svc_Namespace :: string
  svc_Annotations :: "string gomap"
  svc_DeletionTimestamp :: "int option"
  svc_Type :: string
  svc_ExternalIPs :: "string list"
  svc_Ports :: "32 word list"
  svc_Ingress :: "loadBalancerIngress list"

record k8sNamespace =
  ns_Name :: string
  ns_Labels :: "string gomap"

text \<open>
  The calls that leave the program, as actions on a world \<open>'w\<close>: the order of a
  \<open>range\<close> over a map, \<open>net.LookupHost\<close>, and the \<open>Get\<close> of a namespace and the \<open>List\<close> of
  the services of a namespace of the Kubernetes client. An error is its text.
\<close>

record 'w env =
  mapOrder :: "'w map_order"
  lookupHost :: "string \<Rightarrow> ('w, string + string list) state"
  getNamespace :: "string \<Rightarrow> ('w, string + k8sNamespace) state"
  listServices :: "string \<Rightarrow> ('w, string + k8sService list) state"

section \<open>Model\<close>

definition filterMapOf :: "string list \<Rightarrow> bool gomap" where
  "filterMapOf annFilter = fold (\<lambda>ann m. fmupd ann True m) annFilter fmempty"

definition keepAnnotation :: "bool gomap \<Rightarrow> string \<Rightarrow> bool" where
  "keepAnnotation filterMap key =
     (if mapHas filterMap key then True
      else
        let prefixName = splitOn CHR ''/'' key
        in if length prefixName \<noteq> 2 then False
           else if mapHas filterMap (prefixName ! 0 @ ''/*'') then True
           else mapHas filterMap (''*/'' @ prefixName ! 1))"

definition filterAnnotations ::
  "'w map_order \<Rightarrow> string gomap \<Rightarrow> string list \<Rightarrow> ('w, string gomap) state" where
  "filterAnnotations ord currentAnnotations annFilter =
     (let filterMap = filterMapOf annFilter
      in if mapHas filterMap ''*/*'' then State_Monad.return currentAnnotations
         else do {
           kvs \<leftarrow> goRange ord currentAnnotations;
           State_Monad.return
             (fold (\<lambda>(key, val) filtered.
                if keepAnnotation filterMap key then fmupd key val filtered else filtered) kvs fmempty)
         })"

text \<open>
  \<open>tryResolve host n err\<close>: \<open>n\<close> attempts are left and \<open>err\<close> is the error of the last one.
  The wait between two attempts is left out.
\<close>

fun tryResolve :: "'w env \<Rightarrow> string \<Rightarrow> nat \<Rightarrow> string option \<Rightarrow> ('w, string list result) state" where
  "tryResolve env hostname 0 err =
     State_Monad.return (Inl (GoError (''too many failed attempts to resolve hostname: '' @
       (case err of None \<Rightarrow> ''%!w(<nil>)'' | Some e \<Rightarrow> e))))"
| "tryResolve env hostname (Suc n) err = do {
     r \<leftarrow> lookupHost env hostname;
     (case r of
        Inr resolvedIPs \<Rightarrow> State_Monad.return (Inr resolvedIPs)
      | Inl e \<Rightarrow> tryResolve env hostname n (Some e))
   }"

definition tryResolveHostnames :: "'w env \<Rightarrow> string \<Rightarrow> int \<Rightarrow> ('w, string list result) state" where
  "tryResolveHostnames env hostname maxAttempts = tryResolve env hostname (nat maxAttempts) None"

definition addIPs :: "string list \<Rightarrow> bool gomap \<Rightarrow> bool gomap" where
  "addIPs ips m = fold (\<lambda>ip m. fmupd ip True m) ips m"

fun ingressIPs ::
  "'w env \<Rightarrow> int \<Rightarrow> bool gomap \<Rightarrow> loadBalancerIngress list \<Rightarrow> ('w, bool gomap result) state" where
  "ingressIPs env attempts ipsMap [] = State_Monad.return (Inr ipsMap)"
| "ingressIPs env attempts ipsMap (ing # rest) =
     (let ipsMap1 = (if ing_IP ing \<noteq> '''' then fmupd (ing_IP ing) True ipsMap else ipsMap)
      in if ing_Hostname ing \<noteq> ''''
         then let attempts1 = (if attempts = 0 then 1 else attempts)
              in orReturn (tryResolveHostnames env (ing_Hostname ing) attempts1)
                   (\<lambda>resolvedIPs. ingressIPs env attempts1 (addIPs resolvedIPs ipsMap1) rest)
         else ingressIPs env attempts ipsMap1 rest)"

definition getIPsFromService :: "'w env \<Rightarrow> k8sService \<Rightarrow> int \<Rightarrow> ('w, string list result) state" where
  "getIPsFromService env service attempts =
     orReturn (ingressIPs env attempts (addIPs (svc_ExternalIPs service) fmempty) (svc_Ingress service))
       (\<lambda>ipsMap. do {
          kvs \<leftarrow> goRange (mapOrder env) ipsMap;
          State_Monad.return (Inr (map fst kvs))
        })"

definition watchLabel :: string where
  "watchLabel = ''operator.cnwan.io/watch''"

definition watchEnabledLabel :: string where
  "watchEnabledLabel = ''enabled''"

definition watchDisabledLabel :: string where
  "watchDisabledLabel = ''disabled''"

lemmas watch_label_defs = watchLabel_def watchEnabledLabel_def watchDisabledLabel_def

definition checkNsLabels :: "string gomap \<Rightarrow> bool \<Rightarrow> bool" where
  "checkNsLabels labels watchAllByDefault =
     (let value = (case fmlookup labels watchLabel of None \<Rightarrow> '''' | Some v \<Rightarrow> v)
      in if value = watchEnabledLabel then True
         else if value = watchDisabledLabel then False
         else watchAllByDefault)"

record checkServiceResult =
  cs_passed :: bool
  cs_reason :: string
  cs_err :: "failure option"
  cs_annotations :: "string gomap"
  cs_ips :: "string list"
  cs_endpoints :: "endpoint list"

definition notPassed :: "string \<Rightarrow> failure option \<Rightarrow> checkServiceResult" where
  "notPassed reason err = \<lparr>cs_passed = False, cs_reason = reason, cs_err = err,
     cs_annotations = fmempty, cs_ips = [], cs_endpoints = []\<rparr>"

text \<open>The name of an endpoint: the service's name and ten digits of a hash of address and port.\<close>

definition endpointHash :: "string \<Rightarrow> 32 word \<Rightarrow> string" where
  "endpointHash ip port = take 10 (sha256Hex (ip @ '':'' @ sprintf_d (sint port)))"

definition endpointOf :: "k8sService \<Rightarrow> string gomap \<Rightarrow> string \<Rightarrow> 32 word \<Rightarrow> endpoint" where
  "endpointOf service annotations ip port =
     \<lparr>ep_Namespace = svc_Namespace service,
      ep_Service = svc_Name service,
      ep_Name = svc_Name service @ ''-'' @ endpointHash ip port,
      ep_Address = ip,
      ep_Port = port,
      ep_Metadata = annotations\<rparr>"

definition endpointsOf :: "k8sService \<Rightarrow> string gomap \<Rightarrow> string list \<Rightarrow> endpoint list" where
  "endpointsOf service annotations ips =
     concat (map (\<lambda>port. map (\<lambda>ip. endpointOf service annotations ip port) ips) (svc_Ports service))"

definition serviceTypeLoadBalancer :: string where
  "serviceTypeLoadBalancer = ''LoadBalancer''"

definition checkService :: "'w env \<Rightarrow> k8sService \<Rightarrow> string list \<Rightarrow> ('w, checkServiceResult) state" where
  "checkService env service annotationsToKeep =
     (if svc_Type service \<noteq> serviceTypeLoadBalancer
      then State_Monad.return (notPassed ''not a LoadBalancer'' None)
      else do {
        annotations \<leftarrow> filterAnnotations (mapOrder env) (svc_Annotations service) annotationsToKeep;
        (if annotations = fmempty
         then State_Monad.return (notPassed ''no valid annotations'' None)
         else do {
           r \<leftarrow> getIPsFromService env service 10;
           State_Monad.return
             (case r of
                Inl err \<Rightarrow> notPassed ''no valid hostnames/ips found'' (Some err)
              | Inr ips \<Rightarrow>
                  if ips = [] then notPassed ''no valid hostnames/ips found'' None
                  else \<lparr>cs_passed = True, cs_reason = '''', cs_err = None,
                        cs_annotations = annotations, cs_ips = ips,
                        cs_endpoints = endpointsOf service annotations ips\<rparr>)
         })
      })"

definition getEndpointsMapFromSlice :: "endpoint list \<Rightarrow> endpoint gomap" where
  "getEndpointsMapFromSlice endpoints = fold (\<lambda>ep m. fmupd (ep_Name ep) ep m) endpoints fmempty"

section \<open>The annotation filter\<close>

text \<open>The documented meaning of the filter: the key itself, or one of the three wildcards.\<close>

definition annotationAllowed :: "string list \<Rightarrow> string \<Rightarrow> bool" where
  "annotationAllowed annFilter key \<longleftrightarrow>
     ''*/*'' \<in> set annFilter \<or> key \<in> set annFilter
     \<or> (\<exists>prefix name. key = prefix @ ''/'' @ name \<and> CHR ''/'' \<notin> set prefix \<and> CHR ''/'' \<notin> set name
          \<and> (prefix @ ''/*'' \<in> set annFilter \<or> ''*/'' @ name \<in> set annFilter))"

lemma fmlookup_fold_True:
  "fmlookup (fold (\<lambda>x m. fmupd x True m) xs m) k = (if k \<in> set xs then Some True else fmlookup m k)"
  by (induction xs arbitrary: m) auto

lemma mapHas_filterMapOf [simp]: "mapHas (filterMapOf xs) k \<longleftrightarrow> k \<in> set xs"
  by (simp add: mapHas_def filterMapOf_def fmlookup_fold_True)

lemma splitOn_nonempty [simp]: "splitOn c xs \<noteq> []"
  by (induction xs) (auto split: list.splits)

lemma splitOn_single: "splitOn c xs = [s] \<longleftrightarrow> c \<notin> set xs \<and> s = xs"
proof (induction xs arbitrary: s)
  case (Cons x xs)
  obtain y ys where sp: "splitOn c xs = y # ys" by (cases "splitOn c xs") auto
  show ?case
  proof (cases "x = c")
    case False
    have "c \<notin> set xs \<and> y = xs \<longleftrightarrow> ys = []"
      using Cons.IH [of y] sp by simp
    moreover have "c \<notin> set xs \<Longrightarrow> y = xs" using Cons.IH [of xs] sp by simp
    ultimately show ?thesis using False sp by auto
  qed (simp add: sp)
qed auto

lemma splitOn_pair: "splitOn c xs = [p, n] \<longleftrightarrow> xs = p @ c # n \<and> c \<notin> set p \<and> c \<notin> set n"
proof (induction xs arbitrary: p)
  case (Cons x xs)
  obtain y ys where sp: "splitOn c xs = y # ys" by (cases "splitOn c xs") auto
  show ?case
  proof (cases "x = c")
    case True
    then show ?thesis by (cases p) (auto simp: splitOn_single)
  next
    case False
    then show ?thesis using Cons.IH [of "tl p"] sp by (cases p) auto
  qed
qed simp

lemma length_two_iff: "length xs = 2 \<longleftrightarrow> (\<exists>a b. xs = [a, b])"
  by (auto simp: numeral_2_eq_2 length_Suc_conv)

lemma keepAnnotation_iff:
  "keepAnnotation (filterMapOf annFilter) key \<longleftrightarrow>
     key \<in> set annFilter
     \<or> (\<exists>prefix name. key = prefix @ ''/'' @ name \<and> CHR ''/'' \<notin> set prefix \<and> CHR ''/'' \<notin> set name
          \<and> (prefix @ ''/*'' \<in> set annFilter \<or> ''*/'' @ name \<in> set annFilter))"
proof (cases "\<exists>p n. splitOn CHR ''/'' key = [p, n]")
  case True
  then obtain p n where s: "splitOn CHR ''/'' key = [p, n]" by blast
  then have k: "key = p @ CHR ''/'' # n" "CHR ''/'' \<notin> set p" "CHR ''/'' \<notin> set n"
    by (simp_all add: splitOn_pair)
  have uniq: "p @ CHR ''/'' # n = p' @ CHR ''/'' # n' \<Longrightarrow> CHR ''/'' \<notin> set p' \<Longrightarrow>
      CHR ''/'' \<notin> set n' \<Longrightarrow> p' = p \<and> n' = n" for p' n'
    using s k(1) by (metis list.inject splitOn_pair)
  show ?thesis
    using s k uniq by (auto simp: keepAnnotation_def Let_def)
next
  case False
  then have "length (splitOn CHR ''/'' key) \<noteq> 2" by (simp add: length_two_iff)
  moreover from False have "\<not> (key = prefix @ ''/'' @ name \<and> CHR ''/'' \<notin> set prefix \<and> CHR ''/'' \<notin> set name)"
    for prefix name
    using splitOn_pair [of "CHR ''/''" key prefix name] by auto
  ultimately show ?thesis by (auto simp: keepAnnotation_def Let_def)
qed

lemma fmlookup_fold_filter:
  assumes "distinct (map fst kvs)"
  shows "fmlookup (fold (\<lambda>(key, val) m. if P key then fmupd key val m else m) kvs m) k =
    (if P k \<and> k \<in> fst ` set kvs then map_of kvs k else fmlookup m k)"
  using assms
proof (induction kvs arbitrary: m)
  case (Cons kv kvs)
  then show ?case by (cases kv) (auto simp: image_iff)
qed simp

lemma visitOf_map_of: "visitOf m kvs \<Longrightarrow> map_of kvs k = fmlookup m k"
  by (cases "fmlookup m k") (auto simp: visitOf_def map_of_eq_None_iff image_iff intro: map_of_is_SomeI)

lemma filterAnnotations_result:
  assumes "visitsOnce ord"
  shows "pred_state (\<lambda>m. m = fmfilter (annotationAllowed annFilter) anns)
           (filterAnnotations ord anns annFilter)"
proof (cases "''*/*'' \<in> set annFilter")
  case True
  then have "fmfilter (annotationAllowed annFilter) anns = anns"
    by (intro fmfilter_true) (simp add: annotationAllowed_def)
  with True show ?thesis by (simp add: filterAnnotations_def Let_def)
next
  case False
  have eq: "fold (\<lambda>(key, val) m. if keepAnnotation (filterMapOf annFilter) key then fmupd key val m else m)
      kvs fmempty = fmfilter (annotationAllowed annFilter) anns" if v: "visitOf anns kvs" for kvs
    using v visitOf_keys [OF v] visitOf_map_of [OF v] False
    by (intro fmap_ext)
      (auto simp: fmlookup_fold_filter visitOf_def keepAnnotation_iff annotationAllowed_def fmlookup_dom_iff)
  show ?thesis
    using False
    by (auto simp: filterAnnotations_def Let_def intro!: pred_state_bind [OF goRange_visits [OF assms]] eq)
qed

section \<open>Addresses\<close>

text \<open>
  \<open>failAll env host k w\<close> is the world after \<open>k\<close> lookups of \<open>host\<close> that all fail, if they do.
\<close>

fun failAll :: "'w env \<Rightarrow> string \<Rightarrow> nat \<Rightarrow> 'w \<Rightarrow> 'w option" where
  "failAll env host 0 w = Some w"
| "failAll env host (Suc k) w =
     (case run_state (lookupHost env host) w of
        (Inl e, w') \<Rightarrow> failAll env host k w'
      | (Inr ips, w') \<Rightarrow> None)"

lemma tryResolve_success:
  assumes "failAll env host k w = Some w1" and "run_state (lookupHost env host) w1 = (Inr ips, w2)"
    and "k < n"
  shows "run_state (tryResolve env host n err) w = (Inr ips, w2)"
  using assms
proof (induction k arbitrary: n err w)
  case 0
  then show ?case by (cases n) auto
next
  case (Suc k)
  then show ?case by (cases n) (auto split: prod.splits sum.splits)
qed

lemma tryResolve_failure:
  assumes "failAll env host n w = Some w'"
  shows "\<exists>msg. run_state (tryResolve env host n err) w = (Inl (GoError msg), w')"
  using assms by (induction n arbitrary: err w) (auto split: prod.splits sum.splits)

definition answered :: "'w env \<Rightarrow> string \<Rightarrow> string list \<Rightarrow> bool" where
  "answered env host ips \<longleftrightarrow> (\<exists>w w'. run_state (lookupHost env host) w = (Inr ips, w'))"

lemma tryResolve_answered:
  "pred_state (\<lambda>r. case r of Inl e \<Rightarrow> \<not> isPanic r | Inr ips \<Rightarrow> answered env host ips) (tryResolve env host n err)"
proof (induction n arbitrary: err)
  case (Suc n)
  have "pred_state (\<lambda>r. \<forall>ips. r = Inr ips \<longrightarrow> answered env host ips) (lookupHost env host)"
    by (rule pred_stateI) (auto simp: answered_def)
  then show ?case
    unfolding tryResolve.simps by (rule pred_state_bind) (simp add: Suc.IH split: sum.split)
qed simp

lemmas tryResolveHostnames_answered =
  tryResolve_answered [of env host "nat n" None, folded tryResolveHostnames_def] for env host n

text \<open>
  \<open>addressesFrom env ings as\<close>: the list \<open>as\<close> holds, for every ingress of \<open>ings\<close> with a host
  name, an answer of the resolver for it. \<open>serviceAddresses\<close> are the addresses to register.
\<close>

definition addressesFrom :: "'w env \<Rightarrow> loadBalancerIngress list \<Rightarrow> string list list \<Rightarrow> bool" where
  "addressesFrom env ings as \<longleftrightarrow>
     list_all2 (\<lambda>ing a. if ing_Hostname ing = '''' then a = [] else answered env (ing_Hostname ing) a) ings as"

definition serviceAddresses :: "string list \<Rightarrow> loadBalancerIngress list \<Rightarrow> string list list \<Rightarrow> string set" where
  "serviceAddresses external ings as =
     set external \<union> {ing_IP ing | ing. ing \<in> set ings \<and> ing_IP ing \<noteq> ''''} \<union> \<Union> (set ` set as)"

lemma addressesFrom_simps [simp]:
  "addressesFrom env [] as \<longleftrightarrow> as = []"
  "addressesFrom env (ing # ings) as \<longleftrightarrow>
     (\<exists>a as'. as = a # as' \<and> addressesFrom env ings as'
        \<and> (if ing_Hostname ing = '''' then a = [] else answered env (ing_Hostname ing) a))"
  by (auto simp: addressesFrom_def list_all2_Cons1)

lemma dom_addIPs [simp]: "fset (fmdom (addIPs ips m)) = fset (fmdom m) \<union> set ips"
  unfolding addIPs_def by (induction ips arbitrary: m) auto

definition ingressPost ::
  "'w env \<Rightarrow> loadBalancerIngress list \<Rightarrow> bool gomap \<Rightarrow> bool gomap result \<Rightarrow> bool" where
  "ingressPost env ings m r \<longleftrightarrow>
     (\<forall>m'. r = Inr m' \<longrightarrow> (\<exists>as. addressesFrom env ings as
        \<and> fset (fmdom m') = fset (fmdom m) \<union> serviceAddresses [] ings as))"

lemma ingressPost_Cons:
  assumes "ingressPost env ings (addIPs a (if ing_IP ing \<noteq> '''' then fmupd (ing_IP ing) True m else m)) r"
    and "if ing_Hostname ing = '''' then a = [] else answered env (ing_Hostname ing) a"
  shows "ingressPost env (ing # ings) m r"
  unfolding ingressPost_def
proof (intro allI impI)
  fix m'
  assume "r = Inr m'"
  with assms(1) obtain as where as: "addressesFrom env ings as" and
    dom: "fset (fmdom m') = fset (fmdom (addIPs a (if ing_IP ing \<noteq> '''' then fmupd (ing_IP ing) True m else m)))
      \<union> serviceAddresses [] ings as"
    by (auto simp: ingressPost_def)
  have "fset (fmdom m') = fset (fmdom m) \<union> serviceAddresses [] (ing # ings) (a # as)"
    unfolding dom serviceAddresses_def dom_addIPs by auto
  with as assms(2) show "\<exists>as. addressesFrom env (ing # ings) as
      \<and> fset (fmdom m') = fset (fmdom m) \<union> serviceAddresses [] (ing # ings) as"
    by (intro exI [where x = "a # as"]) simp
qed

lemma addIPs_Nil [simp]: "addIPs [] m = m"
  by (simp add: addIPs_def)

lemma ingressIPs_addresses: "pred_state (ingressPost env ings m) (ingressIPs env attempts m ings)"
proof (induction ings arbitrary: attempts m)
  case Nil
  show ?case by (simp add: ingressPost_def serviceAddresses_def)
next
  case (Cons ing ings)
  show ?case
  proof (cases "ing_Hostname ing = ''''")
    case True
    then show ?thesis
      by (auto simp: Let_def intro!: pred_state_weaken [OF Cons.IH] ingressPost_Cons [where a = "[]"])
  next
    case False
    then show ?thesis
      by (auto simp: Let_def ingressPost_def [of _ _ _ "Inl _"] split: sum.splits
          intro!: pred_state_orReturn [where P = "answered env (ing_Hostname ing)"]
            pred_state_weaken [OF tryResolveHostnames_answered] pred_state_weaken [OF Cons.IH] ingressPost_Cons)
  qed
qed

lemma getIPsFromService_addresses:
  assumes "visitsOnce (mapOrder env)"
  shows "pred_state (\<lambda>r. \<forall>ips. r = Inr ips \<longrightarrow> distinct ips \<and>
      (\<exists>as. addressesFrom env (svc_Ingress service) as
         \<and> set ips = serviceAddresses (svc_ExternalIPs service) (svc_Ingress service) as))
    (getIPsFromService env service attempts)"
  unfolding getIPsFromService_def
proof (rule pred_state_orReturn)
  let ?m0 = "addIPs (svc_ExternalIPs service) fmempty"
  show "pred_state (\<lambda>r. case r of Inl e \<Rightarrow> \<forall>ips. (Inl e :: string list result) = Inr ips \<longrightarrow> distinct ips \<and>
      (\<exists>as. addressesFrom env (svc_Ingress service) as
         \<and> set ips = serviceAddresses (svc_ExternalIPs service) (svc_Ingress service) as)
      | Inr m \<Rightarrow> ingressPost env (svc_Ingress service) ?m0 (Inr m))
    (ingressIPs env attempts ?m0 (svc_Ingress service))"
    by (rule pred_state_weaken [OF ingressIPs_addresses]) (auto split: sum.splits)
next
  fix m
  assume "ingressPost env (svc_Ingress service) (addIPs (svc_ExternalIPs service) fmempty) (Inr m)"
  then obtain as where "addressesFrom env (svc_Ingress service) as"
    and dom: "fset (fmdom m) = serviceAddresses (svc_ExternalIPs service) (svc_Ingress service) as"
    by (auto simp: ingressPost_def serviceAddresses_def)
  then show "pred_state (\<lambda>r. \<forall>ips. r = Inr ips \<longrightarrow> distinct ips \<and>
      (\<exists>as. addressesFrom env (svc_Ingress service) as
         \<and> set ips = serviceAddresses (svc_ExternalIPs service) (svc_Ingress service) as))
    (goRange (mapOrder env) m \<bind> (\<lambda>kvs. State_Monad.return (Inr (map fst kvs))))"
    by (intro pred_state_bind [OF goRange_visits [OF assms]])
      (auto simp: visitOf_keys visitOf_distinct dom intro!: exI [where x = as])
qed

section \<open>The check of a service\<close>

definition checkSpec :: "'w env \<Rightarrow> k8sService \<Rightarrow> string list \<Rightarrow> checkServiceResult \<Rightarrow> bool" where
  "checkSpec env service keep r \<longleftrightarrow>
     (let anns = fmfilter (annotationAllowed keep) (svc_Annotations service)
      in if cs_passed r
         then svc_Type service = serviceTypeLoadBalancer \<and> anns \<noteq> fmempty \<and> cs_annotations r = anns
              \<and> cs_ips r \<noteq> [] \<and> distinct (cs_ips r)
              \<and> (\<exists>as. addressesFrom env (svc_Ingress service) as
                   \<and> set (cs_ips r) = serviceAddresses (svc_ExternalIPs service) (svc_Ingress service) as)
              \<and> cs_endpoints r = endpointsOf service anns (cs_ips r) \<and> cs_err r = None
         else cs_endpoints r = [] \<and> cs_ips r = []
              \<and> (svc_Type service \<noteq> serviceTypeLoadBalancer \<longrightarrow>
                   cs_reason r = ''not a LoadBalancer'' \<and> cs_err r = None)
              \<and> (svc_Type service = serviceTypeLoadBalancer \<and> anns = fmempty \<longrightarrow>
                   cs_reason r = ''no valid annotations'' \<and> cs_err r = None)
              \<and> (svc_Type service = serviceTypeLoadBalancer \<and> anns \<noteq> fmempty \<longrightarrow>
                   cs_reason r = ''no valid hostnames/ips found''))"

lemma checkService_spec:
  assumes "visitsOnce (mapOrder env)"
  shows "pred_state (checkSpec env service keep) (checkService env service keep)"
proof (cases "svc_Type service = serviceTypeLoadBalancer")
  case False
  then show ?thesis by (simp add: checkService_def checkSpec_def notPassed_def)
next
  case True
  then show ?thesis
    unfolding checkService_def
    by (auto intro!: pred_state_bind [OF filterAnnotations_result [OF assms]]
        pred_state_bind [OF getIPsFromService_addresses [OF assms]]
        simp: checkSpec_def notPassed_def Let_def split: sum.splits)
qed

section \<open>Endpoints\<close>

lemma set_endpointsOf:
  "set (endpointsOf service anns ips) =
     {endpointOf service anns ip port | ip port. ip \<in> set ips \<and> port \<in> set (svc_Ports service)}"
  by (auto simp: endpointsOf_def)

lemma length_endpointsOf: "length (endpointsOf service anns ips) = length (svc_Ports service) * length ips"
  unfolding endpointsOf_def by (induction "svc_Ports service") (auto simp: length_concat comp_def sum_list_triv)

lemma endpoint_name_shape:
  "ep_Name (endpointOf service anns ip port) = svc_Name service @ ''-'' @ endpointHash ip port
   \<and> length (endpointHash ip port) = 10 \<and> set (endpointHash ip port) \<subseteq> set ''0123456789abcdef''"
  using sha256Hex_digits [of "ip @ '':'' @ sprintf_d (sint port)"]
    set_take_subset [of 10 "sha256Hex (ip @ '':'' @ sprintf_d (sint port))"]
  unfolding endpointHash_def by (intro conjI) (simp add: endpointOf_def endpointHash_def, simp, rule order_trans)

lemma hashed_text_inject:
  fixes port port' :: "32 word"
  shows "ip @ '':'' @ sprintf_d (sint port) = ip' @ '':'' @ sprintf_d (sint port') \<longleftrightarrow> ip = ip' \<and> port = port'"
proof
  assume "ip @ '':'' @ sprintf_d (sint port) = ip' @ '':'' @ sprintf_d (sint port')"
  then have "ip = ip' \<and> sint port = sint port'" by (rule addr_port_inject)
  then show "ip = ip' \<and> port = port'" by (auto intro: signed_word_eqI)
qed simp

text \<open>No two pairs of address and port of the lists share the ten digits of their hashes.\<close>

definition noCollision :: "string list \<Rightarrow> 32 word list \<Rightarrow> bool" where
  "noCollision ips ports \<longleftrightarrow> distinct (map (\<lambda>(port, ip). endpointHash ip port) (List.product ports ips))"

lemma endpointsOf_names:
  "map ep_Name (endpointsOf service anns ips) =
     map (\<lambda>h. svc_Name service @ ''-'' @ h) (map (\<lambda>(port, ip). endpointHash ip port) (List.product (svc_Ports service) ips))"
  unfolding endpointsOf_def
  by (induction "svc_Ports service") (auto simp: map_concat product_concat_map endpointOf_def comp_def)

lemma endpointsOf_distinct_names:
  "noCollision ips (svc_Ports service) \<Longrightarrow> distinct (map ep_Name (endpointsOf service anns ips))"
  unfolding endpointsOf_names noCollision_def distinct_map [of "\<lambda>h. svc_Name service @ ''-'' @ h"]
  by (simp add: inj_on_def)

lemma endpointsMap_named:
  assumes "fmlookup (getEndpointsMapFromSlice eps) n = Some ep"
  shows "ep \<in> set eps \<and> ep_Name ep = n"
proof -
  have "fmlookup (fold (\<lambda>ep m. fmupd (ep_Name ep) ep m) eps m) n = Some ep \<Longrightarrow>
      ep \<in> set eps \<and> ep_Name ep = n \<or> fmlookup m n = Some ep" for m
  proof (induction eps arbitrary: m)
    case (Cons a eps)
    from Cons.IH [of "fmupd (ep_Name a) a m"] Cons.prems show ?case by (auto split: if_splits)
  qed simp
  with assms show ?thesis by (force simp: getEndpointsMapFromSlice_def)
qed

lemma endpointsMap_dom: "fset (fmdom (getEndpointsMapFromSlice eps)) = ep_Name ` set eps"
proof -
  have "fset (fmdom (fold (\<lambda>ep m. fmupd (ep_Name ep) ep m) eps m)) = fset (fmdom m) \<union> ep_Name ` set eps" for m
    by (induction eps arbitrary: m) auto
  then show ?thesis by (simp add: getEndpointsMapFromSlice_def)
qed

lemma endpointsMap_lookup:
  assumes "distinct (map ep_Name eps)"
  shows "fmlookup (getEndpointsMapFromSlice eps) n = Some ep \<longleftrightarrow> ep \<in> set eps \<and> ep_Name ep = n"
proof
  assume r: "ep \<in> set eps \<and> ep_Name ep = n"
  then have "n \<in> fset (fmdom (getEndpointsMapFromSlice eps))" by (auto simp: endpointsMap_dom)
  then obtain ep' where ep': "fmlookup (getEndpointsMapFromSlice eps) n = Some ep'"
    by (auto simp: fmlookup_dom_iff)
  with endpointsMap_named have "ep' \<in> set eps" "ep_Name ep' = n" by blast+
  with r assms have "ep' = ep" by (auto simp: distinct_map inj_on_def)
  with ep' show "fmlookup (getEndpointsMapFromSlice eps) n = Some ep" by simp
qed (rule endpointsMap_named)

section \<open>A concrete cluster, for the witnesses\<close>

text \<open>
  The world counts the calls of the resolver, whose first two answers are errors. There is
  one namespace, watched, with one service.
\<close>

definition exampleService :: k8sService where
  "exampleService = \<lparr>svc_Name = ''web'', svc_Namespace = ''shop'',
     svc_Annotations = fmap_of_list [(''prefix.io/one'', ''1''), (''secret'', ''x'')],
     svc_DeletionTimestamp = None, svc_Type = ''LoadBalancer'', svc_ExternalIPs = [''192.0.2.7''],
     svc_Ports = [80], svc_Ingress = [\<lparr>ing_IP = '''', ing_Hostname = ''lb.example''\<rparr>]\<rparr>"

definition exampleNamespace :: k8sNamespace where
  "exampleNamespace = \<lparr>ns_Name = ''shop'', ns_Labels = fmap_of_list [(''operator.cnwan.io/watch'', ''enabled'')]\<rparr>"

definition exampleEnv :: "nat env" where
  "exampleEnv = \<lparr>mapOrder = sortedOrder,
     lookupHost = (\<lambda>host. State (\<lambda>n. (if n < 2 then Inl ''no such host'' else Inr [''10.0.0.1''], Suc n))),
     getNamespace = (\<lambda>name. State_Monad.return
       (if name = ''shop'' then Inr exampleNamespace else Inl ''not found'')),
     listServices = (\<lambda>name. State_Monad.return
       (Inr (if name = ''shop'' then [exampleService] else [])))\<rparr>"

lemma exampleEnv_order [simp]: "visitsOnce (mapOrder exampleEnv)"
  by (simp add: exampleEnv_def visitsOnce_sortedOrder)

lemma exampleService_annotations:
  "run_state (filterAnnotations (sortedOrder :: nat map_order) (svc_Annotations exampleService) [''prefix.io/*'']) 0 =
     (fmap_of_list [(''prefix.io/one'', ''1'')], 0)"
  by code_simp

lemma exampleService_ips:
  "run_state (getIPsFromService exampleEnv exampleService 10) 0 = (Inr [''10.0.0.1'', ''192.0.2.7''], 3)"
  by code_simp

lemma exampleService_checked:
  "run_state (checkService exampleEnv exampleService [''prefix.io/*'']) 0 =
     (\<lparr>cs_passed = True, cs_reason = '''', cs_err = None,
       cs_annotations = fmap_of_list [(''prefix.io/one'', ''1'')], cs_ips = [''10.0.0.1'', ''192.0.2.7''],
       cs_endpoints = endpointsOf exampleService (fmap_of_list [(''prefix.io/one'', ''1'')])
         [''10.0.0.1'', ''192.0.2.7'']\<rparr>, 3)"
proof -
  have "svc_Type exampleService = serviceTypeLoadBalancer"
    by (simp add: exampleService_def serviceTypeLoadBalancer_def)
  moreover have "mapOrder exampleEnv = sortedOrder" by (simp add: exampleEnv_def)
  moreover have "fmap_of_list [(''prefix.io/one'', ''1'')] \<noteq> fmempty"
    by code_simp
  ultimately show ?thesis
    by (simp add: checkService_def exampleService_annotations exampleService_ips)
qed

section \<open>Properties\<close>

text \<open>
  C35. The annotation filter keeps exactly the annotations that the settings allow, by the key
  itself or by one of the three documented wildcards, with their values, whatever the
  order in which the map of the annotations is visited.
\<close>

theorem filterAnnotations_exact:
  assumes "visitsOnce ord"
  shows "pred_state (\<lambda>m. \<forall>key. fmlookup m key =
      (if annotationAllowed annFilter key then fmlookup anns key else None))
    (filterAnnotations ord anns annFilter)"
  by (rule pred_state_weaken [OF filterAnnotations_result [OF assms]]) simp

theorem filterAnnotations_exact_witness:
  "pred_state (\<lambda>m. fmlookup m ''prefix.io/one'' = Some ''1'' \<and> fmlookup m ''secret'' = None)
    (filterAnnotations reverseOrder (svc_Annotations exampleService) [''prefix.io/*''])"
proof (rule pred_state_weaken [OF filterAnnotations_exact [OF visitsOnce_reverseOrder]])
  have "annotationAllowed [''prefix.io/*''] ''prefix.io/one''"
    unfolding annotationAllowed_def
    by (intro disjI2 exI [where x = "''prefix.io''"] exI [where x = "''one''"]) simp
  moreover have "\<not> annotationAllowed [''prefix.io/*''] ''secret''"
    by (auto simp: annotationAllowed_def Cons_eq_append_conv)
  ultimately show "\<And>m. \<forall>key. fmlookup m key = (if annotationAllowed [''prefix.io/*''] key
      then fmlookup (svc_Annotations exampleService) key else None) \<Longrightarrow>
    fmlookup m ''prefix.io/one'' = Some ''1'' \<and> fmlookup m ''secret'' = None"
    by (simp add: exampleService_def)
qed

text \<open>
  C39. Resolving a host name stops at the first answer and tries at most \<open>maxAttempts\<close> times:
  after \<open>k\<close> failures, \<open>k < maxAttempts\<close>, the next answer is returned and nothing else is asked;
  after \<open>maxAttempts\<close> failures an error is returned.
\<close>

theorem resolve_retries:
  "(failAll env host k w = Some w1 \<and> run_state (lookupHost env host) w1 = (Inr ips, w2) \<and> int k < maxAttempts
      \<longrightarrow> run_state (tryResolveHostnames env host maxAttempts) w = (Inr ips, w2))
   \<and> (failAll env host (nat maxAttempts) w = Some w1
      \<longrightarrow> (\<exists>msg. run_state (tryResolveHostnames env host maxAttempts) w = (Inl (GoError msg), w1)))"
  using tryResolve_success [of env host k w w1 ips w2 "nat maxAttempts" None]
    tryResolve_failure [of env host "nat maxAttempts" w w1 None]
  by (auto simp: tryResolveHostnames_def)

theorem resolve_retries_witness:
  "run_state (tryResolveHostnames exampleEnv ''lb.example'' 3) 0 = (Inr [''10.0.0.1''], 3)
   \<and> (\<exists>msg. run_state (tryResolveHostnames exampleEnv ''lb.example'' 2) 0 = (Inl (GoError msg), 2))"
proof -
  have "failAll exampleEnv ''lb.example'' 2 0 = Some 2"
    and "run_state (lookupHost exampleEnv ''lb.example'') 2 = (Inr [''10.0.0.1''], 3)"
    by (simp_all add: exampleEnv_def numeral_2_eq_2)
  then show ?thesis
    using resolve_retries [of exampleEnv "''lb.example''" 2 0 2 "[''10.0.0.1'']" 3 3]
      resolve_retries [of exampleEnv "''lb.example''" 2 0 2 "[''10.0.0.1'']" 3 2]
    by simp
qed

text \<open>
  C36. The addresses of a service are its external addresses, the addresses of its load
  balancer and the resolver's answers for every host name of the load balancer, each once,
  whatever the order in which the set of addresses is visited.
\<close>

theorem getIPsFromService_exact:
  assumes "visitsOnce (mapOrder env)"
  shows "pred_state (\<lambda>r. case r of Inl e \<Rightarrow> True
      | Inr ips \<Rightarrow> distinct ips \<and> (\<exists>as. addressesFrom env (svc_Ingress service) as
          \<and> set ips = serviceAddresses (svc_ExternalIPs service) (svc_Ingress service) as))
    (getIPsFromService env service attempts)"
  by (rule pred_state_weaken [OF getIPsFromService_addresses [OF assms]]) (auto split: sum.split)

theorem getIPsFromService_exact_witness:
  "\<exists>ips. fst (run_state (getIPsFromService exampleEnv exampleService 10) 0) = Inr ips
    \<and> (\<exists>as. addressesFrom exampleEnv (svc_Ingress exampleService) as
          \<and> set ips = serviceAddresses (svc_ExternalIPs exampleService) (svc_Ingress exampleService) as)"
  using pred_state_run_state [OF getIPsFromService_exact [OF exampleEnv_order], of exampleService 10 0]
    exampleService_ips by auto



text \<open>
  An endpoint is named by its service and ten hexadecimal digits that depend on its
  address and port only. Where those digits differ for all addresses and ports of the
  service, the map by name that an update compares holds every endpoint and nothing else.
\<close>

theorem endpoints_map_complete:
  assumes "noCollision ips (svc_Ports service)"
  shows "fmlookup (getEndpointsMapFromSlice (endpointsOf service anns ips)) n = Some ep \<longleftrightarrow>
      (\<exists>ip port. ip \<in> set ips \<and> port \<in> set (svc_Ports service) \<and> ep = endpointOf service anns ip port
         \<and> n = svc_Name service @ ''-'' @ endpointHash ip port)"
  by (auto simp: endpointsMap_lookup [OF endpointsOf_distinct_names [OF assms]] set_endpointsOf endpoint_name_shape)
    blast

theorem endpoints_map_complete_witness:
  "noCollision [''10.0.0.1''] (svc_Ports exampleService)
   \<and> fmlookup (getEndpointsMapFromSlice (endpointsOf exampleService fmempty [''10.0.0.1'']))
       (''web-'' @ endpointHash ''10.0.0.1'' 80) = Some (endpointOf exampleService fmempty ''10.0.0.1'' 80)"
proof -
  have n: "noCollision [''10.0.0.1''] (svc_Ports exampleService)"
    by (simp add: noCollision_def exampleService_def)
  then show ?thesis
    using endpoints_map_complete [OF n, of fmempty "''web-'' @ endpointHash ''10.0.0.1'' 80"
        "endpointOf exampleService fmempty ''10.0.0.1'' 80"]
    by (auto simp: exampleService_def)
qed

end
