(* ===== verification/Controller_Interface.thy ===== *)
theory Controller_Interface
  imports Service_Check
begin

text \<open>
  What the two controllers (package \<open>pkg/controllers\<close>) share: their options, the objects they
  are handed, the effects of a handler, the laws of the Kubernetes API they rely on, and the
  contract they offer to the dispatcher, as the locale \<open>event_producer\<close>.
\<close>

section \<open>Options, objects, effects\<close>

record controllerOptions =
  co_WatchNamespacesByDefault :: bool
  co_ServiceAnnotations :: "string list"

text \<open>A handler gets a \<open>client.Object\<close> and asks for its type: \<open>KOther\<close> is any other one.\<close>

datatype kubeObject = KNamespace k8sNamespace | KService k8sService | KOther

text \<open>
  The effects of a handler in their order: a send on \<open>EventsChan\<close>, or the call of
  \<open>wq.Done\<close>. A deferred call stands where the function returns.
\<close>

datatype effect = Send event | WqDone

fun sent :: "effect list \<Rightarrow> event list" where
  "sent [] = []"
| "sent (Send e # effs) = e # sent effs"
| "sent (WqDone # effs) = sent effs"

lemma sent_append [simp]: "sent (xs @ ys) = sent xs @ sent ys"
  by (induction xs rule: sent.induct) auto

lemma sent_map_Send [simp]: "sent (map (\<lambda>x. Send (f x)) xs) = map f xs"
  by (induction xs) auto

lemma sent_map_Send_comp [simp]: "sent (map (Send \<circ> f) xs) = map f xs"
  by (simp add: comp_def)

lemma sent_concat: "sent (concat xss) = concat (map sent xss)"
  by (induction xss) auto

abbreviation sendEndpoints :: "eventType \<Rightarrow> endpoint list \<Rightarrow> effect list" where
  "sendEndpoints t eps \<equiv> map (\<lambda>ep. Send (mkEvent t (EndpointObject ep))) eps"

section \<open>Laws of the Kubernetes API\<close>

text \<open>
  A \<open>range\<close> visits every key once; the \<open>List\<close> of a namespace returns services of that
  namespace, whose names are distinct.
\<close>

definition envLaws :: "'w env \<Rightarrow> bool" where
  "envLaws env \<longleftrightarrow> visitsOnce (mapOrder env)
     \<and> (\<forall>name. pred_state (\<lambda>r. case r of Inl e \<Rightarrow> True
          | Inr items \<Rightarrow> distinct (map svc_Name items) \<and> (\<forall>s \<in> set items. svc_Namespace s = name))
          (listServices env name))"

lemma envLaws_visitsOnce [simp]: "envLaws env \<Longrightarrow> visitsOnce (mapOrder env)"
  by (simp add: envLaws_def)

lemma exampleEnv_laws: "envLaws exampleEnv"
  unfolding envLaws_def by (simp add: exampleEnv_def visitsOnce_sortedOrder exampleService_def)

section \<open>The order of events\<close>

text \<open>
  The objects an object lies in. A list of events is well ordered if an object is created after
  those it lies in, and nothing is sent for an object inside one that was deleted before.
\<close>

fun ancestors :: "registryObject \<Rightarrow> registryObject set" where
  "ancestors (NamespaceObject name) = {}"
| "ancestors (ServiceObject namespace name) = {NamespaceObject namespace}"
| "ancestors (EndpointObject ep) =
     {NamespaceObject (ep_Namespace ep), ServiceObject (ep_Namespace ep) (ep_Service ep)}"
| "ancestors OtherObject = {}"

definition objectOf :: "eventType \<Rightarrow> event \<Rightarrow> registryObject set" where
  "objectOf t e = (if ev_EventType e = t then {ev_Object e} else {})"

definition objectsOf :: "eventType \<Rightarrow> event list \<Rightarrow> registryObject set" where
  "objectsOf t es = \<Union> (set (map (objectOf t) es))"

fun wellOrdered :: "registryObject set \<Rightarrow> registryObject set \<Rightarrow> event list \<Rightarrow> bool" where
  "wellOrdered created deleted [] = True"
| "wellOrdered created deleted (e # es) =
     ((ev_EventType e = EventCreate \<longrightarrow> ancestors (ev_Object e) \<subseteq> created)
      \<and> ancestors (ev_Object e) \<inter> deleted = {}
      \<and> wellOrdered (created \<union> objectOf EventCreate e) (deleted \<union> objectOf EventDelete e) es)"

lemma objectsOf_simps [simp]:
  "objectsOf t [] = {}"
  "objectsOf t (e # es) = objectOf t e \<union> objectsOf t es"
  "objectsOf t (es @ es') = objectsOf t es \<union> objectsOf t es'"
  by (auto simp: objectsOf_def)

lemma in_objectsOf_iff: "obj \<in> objectsOf t es \<longleftrightarrow> (\<exists>e \<in> set es. ev_EventType e = t \<and> ev_Object e = obj)"
  by (auto simp: objectsOf_def objectOf_def split: if_splits)

lemma wellOrdered_append:
  "wellOrdered c d (es @ es') \<longleftrightarrow>
     wellOrdered c d es \<and> wellOrdered (c \<union> objectsOf EventCreate es) (d \<union> objectsOf EventDelete es) es'"
  by (induction es arbitrary: c d) (simp_all add: Un_assoc)

text \<open>A list whose objects all lie in created objects, and in no deleted one, is well ordered.\<close>

lemma wellOrdered_leaves:
  assumes "\<And>e. e \<in> set es \<Longrightarrow> ev_EventType e = EventCreate \<Longrightarrow> ancestors (ev_Object e) \<subseteq> c"
    and "\<And>e. e \<in> set es \<Longrightarrow> ancestors (ev_Object e) \<inter> (d \<union> objectsOf EventDelete es) = {}"
  shows "wellOrdered c d es"
  using assms
proof (induction es arbitrary: c d)
  case (Cons e es)
  have "wellOrdered (c \<union> objectOf EventCreate e) (d \<union> objectOf EventDelete e) es"
  proof (rule Cons.IH)
    show "e' \<in> set es \<Longrightarrow> ev_EventType e' = EventCreate \<Longrightarrow>
        ancestors (ev_Object e') \<subseteq> c \<union> objectOf EventCreate e" for e'
      using Cons.prems(1) [of e'] by auto
    show "e' \<in> set es \<Longrightarrow>
        ancestors (ev_Object e') \<inter> (d \<union> objectOf EventDelete e \<union> objectsOf EventDelete es) = {}" for e'
      using Cons.prems(2) [of e'] by (simp add: Un_assoc)
  qed
  with Cons.prems(1) [of e] Cons.prems(2) [of e] show ?case by auto
qed simp

section \<open>The contract of a handler\<close>

text \<open>
  The dispatcher routes an event by the name of its namespace and drops an event without one.
  A handler for the input \<open>obj\<close>, if that is well formed, sends events of one namespace only, in
  a good order, and ends by marking its work item as done. The lemmas are what the
  dispatcher gets from that.
\<close>

locale event_producer =
  fixes handler :: "'w env \<Rightarrow> controllerOptions \<Rightarrow> 'o \<Rightarrow> ('w, effect list) state"
    and namespaceOf :: "'o \<Rightarrow> string"
    and wellFormed :: "'o \<Rightarrow> bool"
  assumes own_namespace: "envLaws env \<Longrightarrow> wellFormed obj \<Longrightarrow>
      pred_state (\<lambda>effs. \<forall>e \<in> set (sent effs). getNamespaceNameFromEventObject e = namespaceOf obj)
        (handler env opts obj)"
    and ordered: "envLaws env \<Longrightarrow> wellFormed obj \<Longrightarrow>
      pred_state (\<lambda>effs. wellOrdered {} {} (sent effs)) (handler env opts obj)"
    and finishes: "envLaws env \<Longrightarrow> wellFormed obj \<Longrightarrow>
      pred_state (\<lambda>effs. effs \<noteq> [] \<and> last effs = WqDone) (handler env opts obj)"
begin

lemma run_own_namespace:
  "envLaws env \<Longrightarrow> wellFormed obj \<Longrightarrow> run_state (handler env opts obj) w = (effs, w') \<Longrightarrow>
     e \<in> set (sent effs) \<Longrightarrow> getNamespaceNameFromEventObject e = namespaceOf obj"
  using pred_stateD [OF own_namespace] by blast

lemma none_skipped:
  "envLaws env \<Longrightarrow> wellFormed obj \<Longrightarrow> namespaceOf obj \<noteq> '''' \<Longrightarrow>
     run_state (handler env opts obj) w = (effs, w') \<Longrightarrow>
     filter (\<lambda>e. getNamespaceNameFromEventObject e \<noteq> '''') (sent effs) = sent effs"
  using run_own_namespace by (simp add: filter_id_conv)

lemma run_ordered:
  "envLaws env \<Longrightarrow> wellFormed obj \<Longrightarrow> run_state (handler env opts obj) w = (effs, w') \<Longrightarrow>
     wellOrdered {} {} (sent effs)"
  using pred_stateD [OF ordered] by blast

lemma run_finishes:
  "envLaws env \<Longrightarrow> wellFormed obj \<Longrightarrow> run_state (handler env opts obj) w = (effs, w') \<Longrightarrow>
     effs \<noteq> [] \<and> last effs = WqDone"
  using pred_stateD [OF finishes] by blast

end

section \<open>The endpoints of a checked service\<close>

lemma checkSpec_endpoints:
  assumes "checkSpec env service keep r" and "ep \<in> set (cs_endpoints r)"
  shows "ep_Namespace ep = svc_Namespace service" "ep_Service ep = svc_Name service"
    "ep_Metadata ep = fmfilter (annotationAllowed keep) (svc_Annotations service)" "cs_passed r"
  using assms
  by (cases "cs_passed r"; force simp: checkSpec_def Let_def set_endpointsOf endpointOf_def)+

text \<open>
  The form of an endpoint that belongs to a service: its name is that of the service with ten
  hexadecimal digits, and its port one of the ports of the service.
\<close>

definition typedEndpoint :: "k8sService \<Rightarrow> endpoint \<Rightarrow> bool" where
  "typedEndpoint s ep \<longleftrightarrow> ep_Namespace ep = svc_Namespace s \<and> ep_Service ep = svc_Name s
     \<and> ep_Port ep \<in> set (svc_Ports s)
     \<and> (\<exists>digits. ep_Name ep = svc_Name s @ ''-'' @ digits \<and> length digits = 10
          \<and> set digits \<subseteq> set ''0123456789abcdef'')"

lemma endpointOf_typed: "port \<in> set (svc_Ports s) \<Longrightarrow> typedEndpoint s (endpointOf s anns ip port)"
  using endpoint_name_shape [of s anns ip port] unfolding typedEndpoint_def by (auto simp: endpointOf_def)

lemma checkSpec_typed: "checkSpec env s keep r \<Longrightarrow> ep \<in> set (cs_endpoints r) \<Longrightarrow> typedEndpoint s ep"
  by (cases "cs_passed r") (auto simp: checkSpec_def Let_def set_endpointsOf endpointOf_typed)

lemma checkSpec_not_passed: "checkSpec env service keep r \<Longrightarrow> \<not> cs_passed r \<Longrightarrow> cs_endpoints r = []"
  by (simp add: checkSpec_def Let_def)

end
