(* ===== verification/Startup.thy ===== *)
theory Startup
  imports Settings_Validation Cluster Controller_Interface
begin

text \<open>
  The start of the operator: \<open>utils.go\<close>, the clients and the settings of each service
  registry, \<open>manager.go\<close> with the constructors of the controllers, and \<open>run\<close> of \<open>main.go\<close> up to
  the point where everything runs. A failed start is an exit code with an error; a panic is a
  crash.
\<close>

section \<open>Outside calls\<close>

record etcdConfig =
  ec_Endpoints :: "string list"
  ec_Username :: string
  ec_Password :: string

record 'w sdk =
  yamlUnmarshal :: "string \<Rightarrow> string + settings option"
  newRegistrationClient :: "string \<Rightarrow> ('w, string option) state"
  writeFile :: "string \<Rightarrow> string \<Rightarrow> ('w, string option) state"
  removeFile :: "string \<Rightarrow> ('w, unit) state"
  loadDefaultConfig :: "string option \<Rightarrow> string \<Rightarrow> ('w, string option) state"
  etcdNew :: "etcdConfig \<Rightarrow> ('w, string option) state"
  seregoFromEtcd :: "('w, string option) state"
  seregoFromServiceDirectory :: "string \<Rightarrow> string \<Rightarrow> ('w, string option) state"
  seregoFromCloudMap :: "unit option \<Rightarrow> ('w, string option) state"
  addToScheme :: "('w, string option) state"
  configFromCluster :: "('w, string option) state"
  configFromFlags :: "string \<Rightarrow> ('w, string option) state"
  managerNew :: "('w, string option) state"
  controllerNew :: "string \<Rightarrow> ('w, string option) state"
  controllerWatch :: "string \<Rightarrow> ('w, string option) state"

section \<open>Network configuration\<close>

definition stringOf :: "string option \<Rightarrow> string" where
  "stringOf p = (case p of None \<Rightarrow> '''' | Some s \<Rightarrow> s)"

definition isAuto :: "string \<Rightarrow> bool" where
  "isAuto s \<longleftrightarrow> toLower s = ''auto''"

text \<open>\<open>res\<close> is only set on GKE; on any other platform it is nil and its fields are read all the same.\<close>

definition getNetworkCfg ::
  "'w cloud \<Rightarrow> string option \<Rightarrow> string option \<Rightarrow> ('w proc, networkConfiguration result) state" where
  "getNetworkCfg c network subnetwork =
     (let name = stringOf network; subName = stringOf subnetwork
      in if isAuto name \<or> isAuto subName
         then orReturn (WhereAmIRunning c) (\<lambda>runningIn.
           if runningIn = UnknownCluster
           then State_Monad.return (Inl (GoError ''could not get information about the managed cluster: unsupported or no permissions to do so''))
           else orReturn
             (if runningIn = GKECluster
              then orReturn (GetGoogleServiceAccountSecret c) (\<lambda>sa.
                orReturn (GetNetworkFromGKE c [sa]) (\<lambda>res. State_Monad.return (Inr (Some res))))
              else State_Monad.return (Inr None))
             (\<lambda>res. State_Monad.return
               (case res of
                  None \<Rightarrow> Inl (Panic ''nil pointer dereference: res'')
                | Some cfg \<Rightarrow>
                    Inr \<lparr>nc_NetworkName = (if isAuto name then nc_NetworkName cfg else name),
                         nc_SubNetworkName = (if isAuto subName then nc_SubNetworkName cfg else subName)\<rparr>)))
         else State_Monad.return (Inr \<lparr>nc_NetworkName = name, nc_SubNetworkName = subName\<rparr>))"

section \<open>Clients and settings of the registries\<close>

definition getGSDClient :: "'w cloud \<Rightarrow> 'w sdk \<Rightarrow> ('w proc, unit result) state" where
  "getGSDClient c x =
     orWrap ''could not load google service account secret: '' (GetGoogleServiceAccountSecret c) (\<lambda>saBytes.
     orWrap ''could not get start service directory client: '' (liftError (newRegistrationClient x saBytes)) (\<lambda>_.
       State_Monad.return (Inr ())))"

definition awsTempPath :: string where
  "awsTempPath = ''/tmp/cnwan-operator-aws-credentials''"

text \<open>The client is \<open>None\<close>, with no error, when the configuration cannot be loaded.\<close>

definition getAWSClient :: "'w cloud \<Rightarrow> 'w sdk \<Rightarrow> string option \<Rightarrow> ('w proc, unit option result) state" where
  "getAWSClient c x region =
     orWrap ''could not load aws credentials secret: '' (GetAWSCredentialsSecret c) (\<lambda>saBytes.
     orReturn (liftError (writeFile x awsTempPath saBytes)) (\<lambda>_. do {
       e \<leftarrow> lift (loadDefaultConfig x region awsTempPath);
       _ \<leftarrow> lift (removeFile x awsTempPath);
       State_Monad.return (Inr (case e of Some err \<Rightarrow> None | None \<Rightarrow> Some ()))
     }))"

definition parseAndResetAWSCloudMapSettings :: "cloudMapSettings option \<Rightarrow> cloudMapSettings result" where
  "parseAndResetAWSCloudMapSettings cmSettings =
     (case cmSettings of
        None \<Rightarrow> Inl (Panic ''nil pointer dereference: cmSettings.DefaultRegion'')
      | Some s \<Rightarrow>
          if acm_DefaultRegion s = '''' then Inl (GoError ''invalid cloud map region provided'')
          else Inr \<lparr>acm_DefaultRegion = acm_DefaultRegion s\<rparr>)"

definition parseAndResetGSDSettings ::
  "'w cloud \<Rightarrow> serviceDirectorySettings option \<Rightarrow> ('w proc, serviceDirectorySettings result) state" where
  "parseAndResetGSDSettings c gcSettings =
     (let region = (case gcSettings of None \<Rightarrow> '''' | Some s \<Rightarrow> gsd_DefaultRegion s);
          project = (case gcSettings of None \<Rightarrow> '''' | Some s \<Rightarrow> gsd_ProjectID s)
      in if region \<noteq> '''' \<and> project \<noteq> ''''
         then State_Monad.return (Inr \<lparr>gsd_DefaultRegion = region, gsd_ProjectID = project\<rparr>)
         else orReturn (WhereAmIRunning c) (\<lambda>m.
           if m \<noteq> GKECluster
           then State_Monad.return (Inl (GoError ''could not load data from Google Cloud: either platform is not GKE or there are no permissions to do so''))
           else orReturn
             (if region = '''' then orWrap ''could not get region from GCP: '' (GetGCPRegion c) (\<lambda>r. State_Monad.return (Inr r))
              else State_Monad.return (Inr region)) (\<lambda>region1.
             orReturn
               (if project = '''' then orWrap ''could not get project ID from GCP: '' (GetGCPProjectID c) (\<lambda>r. State_Monad.return (Inr r))
                else State_Monad.return (Inr project)) (\<lambda>project1.
               State_Monad.return (Inr \<lparr>gsd_DefaultRegion = region1, gsd_ProjectID = project1\<rparr>)))))"

fun etcdAddresses :: "etcdEndpoint option list \<Rightarrow> string list result" where
  "etcdAddresses [] = Inr []"
| "etcdAddresses (None # rest) = Inl (Panic ''nil pointer dereference: endp'')"
| "etcdAddresses (Some endp # rest) =
     (case ee_Port endp of
        None \<Rightarrow> Inl (Panic ''nil pointer dereference: endp.Port'')
      | Some port \<Rightarrow>
          (case etcdAddresses rest of
             Inl e \<Rightarrow> Inl e
           | Inr endps \<Rightarrow> Inr ((ee_Host endp @ '':'' @ sprintf_d port) # endps)))"

definition getEtcdClient :: "'w cloud \<Rightarrow> 'w sdk \<Rightarrow> etcdSettings \<Rightarrow> ('w proc, unit result) state" where
  "getEtcdClient c x s =
     (case etcdAddresses (es_Endpoints s) of
        Inl e \<Rightarrow> State_Monad.return (Inl e)
      | Inr endps \<Rightarrow>
          let cfg = \<lparr>ec_Endpoints = endps, ec_Username = '''', ec_Password = ''''\<rparr>
          in if es_Authentication s = EtcdAuthWithNothing then liftError (etcdNew x cfg)
             else if es_Authentication s = EtcdAuthWithUsernamePassw
             then orReturn (GetEtcdCredentialsSecret c) (\<lambda>(user, pass).
               liftError (etcdNew x (cfg\<lparr>ec_Username := user, ec_Password := pass\<rparr>)))
             else State_Monad.return (Inl (GoError ''unsupported etcd authentication method'')))"

section \<open>Manager and controllers\<close>

definition NewManager :: "'w sdk \<Rightarrow> string \<Rightarrow> ('w proc, unit result) state" where
  "NewManager x kubeconfigPath =
     orWrap ''could not add to scheme: '' (liftError (addToScheme x)) (\<lambda>_.
     orWrap ''could not get config: ''
       (liftError (if kubeconfigPath = '''' then configFromCluster x else configFromFlags x kubeconfigPath)) (\<lambda>_.
       liftError (managerNew x)))"

text \<open>The errors of \<open>errors.go\<close>, and the names of the controllers.\<close>

definition ErrorInvalidManager :: failure where
  "ErrorInvalidManager = GoError ''invalid manager provided''"

definition ErrorInvalidControllerOptions :: failure where
  "ErrorInvalidControllerOptions = GoError ''invalid controller options provided''"

definition servCtrlName :: string where
  "servCtrlName = ''service-event-handler''"

definition nsCtrlName :: string where
  "nsCtrlName = ''namespace-event-handler''"

definition newController ::
  "'w sdk \<Rightarrow> string \<Rightarrow> unit option \<Rightarrow> controllerOptions option \<Rightarrow> ('w proc, controllerOptions result) state" where
  "newController x name mgr opts =
     (case mgr of
        None \<Rightarrow> State_Monad.return (Inl ErrorInvalidManager)
      | Some _ \<Rightarrow>
          (case opts of
             None \<Rightarrow> State_Monad.return (Inl ErrorInvalidControllerOptions)
           | Some o1 \<Rightarrow>
               orReturn (liftError (controllerNew x name)) (\<lambda>_.
               orReturn (liftError (controllerWatch x name)) (\<lambda>_.
                 State_Monad.return (Inr o1)))))"

definition NewNamespaceController ::
  "'w sdk \<Rightarrow> unit option \<Rightarrow> controllerOptions option \<Rightarrow> ('w proc, controllerOptions result) state" where
  "NewNamespaceController x = newController x nsCtrlName"

definition NewServiceController ::
  "'w sdk \<Rightarrow> unit option \<Rightarrow> controllerOptions option \<Rightarrow> ('w proc, controllerOptions result) state" where
  "NewServiceController x = newController x servCtrlName"

section \<open>The run function\<close>

text \<open>
  The exit codes. \<open>Success\<close> is declared as \<open>iota\<close> in the seventh place of its block, so
  that it is 6 and the others follow. The last five are declared and never used.
\<close>

datatype exitCode = ExitCode int

definition Success :: exitCode where "Success = ExitCode 6"
definition CannotGetConfigmap :: exitCode where "CannotGetConfigmap = ExitCode 7"
definition CannotUnmarshalConfigmap :: exitCode where "CannotUnmarshalConfigmap = ExitCode 8"
definition SettingsValidationError :: exitCode where "SettingsValidationError = ExitCode 9"
definition CannotEstablishConnectionToEtcd :: exitCode where "CannotEstablishConnectionToEtcd = ExitCode 10"
definition CannotGetServiceDirectoryClient :: exitCode where "CannotGetServiceDirectoryClient = ExitCode 11"
definition InvalidServiceDirectorySettings :: exitCode where "InvalidServiceDirectorySettings = ExitCode 12"
definition CannotGetCloudMapClient :: exitCode where "CannotGetCloudMapClient = ExitCode 13"
definition InvalidCloudMapSettings :: exitCode where "InvalidCloudMapSettings = ExitCode 14"
definition CannotGetBroker :: exitCode where "CannotGetBroker = ExitCode 15"
definition CannotGetControllerManager :: exitCode where "CannotGetControllerManager = ExitCode 16"
definition CannotCreateServiceController :: exitCode where "CannotCreateServiceController = ExitCode 17"
definition CannotCreateNamespaceController :: exitCode where "CannotCreateNamespaceController = ExitCode 18"
definition CannotRunControllerManager :: exitCode where "CannotRunControllerManager = ExitCode 19"

lemmas exit_code_defs = Success_def CannotGetConfigmap_def CannotUnmarshalConfigmap_def SettingsValidationError_def
  CannotEstablishConnectionToEtcd_def CannotGetServiceDirectoryClient_def InvalidServiceDirectorySettings_def
  CannotGetCloudMapClient_def InvalidCloudMapSettings_def CannotGetBroker_def CannotGetControllerManager_def
  CannotCreateServiceController_def CannotCreateNamespaceController_def CannotRunControllerManager_def

text \<open>
  The serego client that the dispatcher gets: a registry, or nil. What is started is that
  client, the metadata for every registration, and the options of the two controllers,
  those that were made.
\<close>

datatype seregoClient = NilRegistry | EtcdRegistry | ServiceDirectoryRegistry string string | CloudMapRegistry

record operatorStart =
  os_client :: seregoClient
  os_persistentMeta :: "string gomap"
  os_namespaceController :: "controllerOptions option"
  os_serviceController :: "controllerOptions option"

datatype runResult = ExitWith exitCode failure | Crashed string | Started operatorStart

text \<open>\<open>x, err := m(); if err != nil { return code, fmt.Errorf(msg + "%w", err) }; f(x)\<close>.\<close>

definition orExit ::
  "exitCode \<Rightarrow> string \<Rightarrow> ('s, 'a result) state \<Rightarrow> ('a \<Rightarrow> ('s, runResult) state) \<Rightarrow> ('s, runResult) state" where
  "orExit code msg m f = do {
     r \<leftarrow> m;
     (case r of
        Inl (Panic e) \<Rightarrow> State_Monad.return (Crashed e)
      | Inl (GoError e) \<Rightarrow> State_Monad.return (ExitWith code (GoError (msg @ e)))
      | Inr a \<Rightarrow> f a)
   }"

definition ownerMeta :: "string gomap" where
  "ownerMeta = fmap_of_list [(''owner'', ''cnwan-operator'')]"

definition persistentMetadata :: "'w cloud \<Rightarrow> cloudMetadata option \<Rightarrow> ('w proc, string gomap result) state" where
  "persistentMetadata c cloudMeta =
     (case cloudMeta of
        None \<Rightarrow> State_Monad.return (Inr ownerMeta)
      | Some m \<Rightarrow> do {
          r \<leftarrow> getNetworkCfg c (cm_Network m) (cm_SubNetwork m);
          (case r of
             Inl (Panic e) \<Rightarrow> State_Monad.return (Inl (Panic e))
           | Inl (GoError e) \<Rightarrow> State_Monad.return (Inr ownerMeta)
           | Inr netCfg \<Rightarrow> orReturn (WhereAmIRunning c) (\<lambda>runningIn.
               let meta1 = (if runningIn \<noteq> UnknownCluster then fmupd ''cnwan.io/platform'' runningIn ownerMeta else ownerMeta);
                   meta2 = (if nc_NetworkName netCfg \<noteq> '''' then fmupd ''cnwan.io/network'' (nc_NetworkName netCfg) meta1 else meta1);
                   meta3 = (if nc_NetworkName netCfg \<noteq> '''' then fmupd ''cnwan.io/sub-network'' (nc_SubNetworkName netCfg) meta2 else meta2)
               in State_Monad.return (Inr meta3)))
        })"

definition getRegistry ::
  "'w cloud \<Rightarrow> 'w sdk \<Rightarrow> serviceRegistrySettings \<Rightarrow> (seregoClient \<Rightarrow> ('w proc, runResult) state) \<Rightarrow> ('w proc, runResult) state" where
  "getRegistry c x reg k =
     (case srs_EtcdSettings reg of
        Some etcd \<Rightarrow>
          orExit CannotEstablishConnectionToEtcd ''cannot establish connection to etcd: '' (getEtcdClient c x etcd) (\<lambda>_.
          orExit CannotEstablishConnectionToEtcd ''cannot establish connection to etcd: '' (liftError (seregoFromEtcd x)) (\<lambda>_.
            k EtcdRegistry))
      | None \<Rightarrow>
          (case srs_ServiceDirectorySettings reg of
             Some sd \<Rightarrow>
               orExit CannotGetServiceDirectoryClient ''cannot get service directory client: '' (getGSDClient c x) (\<lambda>_.
               orExit InvalidServiceDirectorySettings ''invalid service directory: '' (parseAndResetGSDSettings c (Some sd)) (\<lambda>sdSettings.
               orExit CannotGetServiceDirectoryClient ''cannot get service directory client: ''
                 (liftError (seregoFromServiceDirectory x (gsd_ProjectID sdSettings) (gsd_DefaultRegion sdSettings))) (\<lambda>_.
                 k (ServiceDirectoryRegistry (gsd_ProjectID sdSettings) (gsd_DefaultRegion sdSettings)))))
           | None \<Rightarrow>
               (case srs_CloudMapSettings reg of
                  Some cm \<Rightarrow>
                    orExit InvalidCloudMapSettings ''invalid cloud map settings: ''
                      (State_Monad.return (parseAndResetAWSCloudMapSettings (Some cm))) (\<lambda>cmSettings.
                    orExit CannotGetCloudMapClient ''cannot get cloud map client: ''
                      (getAWSClient c x (Some (acm_DefaultRegion cmSettings))) (\<lambda>cli. do {
                      e \<leftarrow> lift (seregoFromCloudMap x cli);
                      k (case e of None \<Rightarrow> CloudMapRegistry | Some err \<Rightarrow> NilRegistry)
                    }))
                | None \<Rightarrow> k NilRegistry)))"

definition optionOf :: "'a result \<Rightarrow> 'a option" where
  "optionOf r = (case r of Inl e \<Rightarrow> None | Inr a \<Rightarrow> Some a)"

definition startControllers ::
  "'w sdk \<Rightarrow> settings \<Rightarrow> string gomap \<Rightarrow> seregoClient \<Rightarrow> ('w proc, runResult) state" where
  "startControllers x s persistentMeta cli = do {
     r \<leftarrow> NewManager x '''';
     (case r of
        Inl (Panic e) \<Rightarrow> State_Monad.return (Crashed e)
      | Inl (GoError e) \<Rightarrow> State_Monad.return (ExitWith (ExitCode 1) (GoError e))
      | Inr mgr \<Rightarrow> do {
          let opts = \<lparr>co_WatchNamespacesByDefault = False, co_ServiceAnnotations = ss_Annotations (st_Service s)\<rparr>;
          nsCtrl \<leftarrow> NewNamespaceController x (Some mgr) (Some opts);
          svCtrl \<leftarrow> NewServiceController x (Some mgr) (Some opts);
          State_Monad.return (Started \<lparr>os_client = cli, os_persistentMeta = persistentMeta,
            os_namespaceController = optionOf nsCtrl, os_serviceController = optionOf svCtrl\<rparr>)
        })
   }"

definition run :: "'w cloud \<Rightarrow> 'w sdk \<Rightarrow> ('w proc, runResult) state" where
  "run c x =
     orExit CannotGetConfigmap ''unable to retrieve settings from configmap: '' (GetOperatorSettingsConfigMap c) (\<lambda>settingsByte.
     orExit CannotUnmarshalConfigmap ''cannot unmarshal settings: ''
       (State_Monad.return (case yamlUnmarshal x settingsByte of Inl e \<Rightarrow> Inl (GoError e) | Inr s \<Rightarrow> Inr s)) (\<lambda>parsed.
     orExit SettingsValidationError ''invalid settings provided: ''
       (State_Monad.return (ParseAndValidateSettings parsed)) (\<lambda>s. do {
       meta \<leftarrow> persistentMetadata c (st_CloudMetadata s);
       (case meta of
          Inl e \<Rightarrow> State_Monad.return (Crashed (case e of Panic m \<Rightarrow> m | GoError m \<Rightarrow> m))
        | Inr persistentMeta \<Rightarrow>
            (case st_ServiceRegistrySettings s of
               None \<Rightarrow> State_Monad.return (Crashed ''nil pointer dereference: ServiceRegistrySettings'')
             | Some reg \<Rightarrow> getRegistry c x reg (startControllers x s persistentMeta)))
     })))"

section \<open>Rules\<close>

lemma run_orExit [simp]:
  "run_state (orExit code msg m f) p =
     (case run_state m p of
        (Inl (Panic e), p') \<Rightarrow> (Crashed e, p')
      | (Inl (GoError e), p') \<Rightarrow> (ExitWith code (GoError (msg @ e)), p')
      | (Inr a, p') \<Rightarrow> run_state (f a) p')"
  by (simp add: orExit_def split: prod.splits sum.splits failure.splits)

lemma pred_state_orExit:
  assumes "pred_state (\<lambda>r. case r of Inl e \<Rightarrow> True | Inr a \<Rightarrow> P a) m"
    and "\<And>e. Q (Crashed e)" and "\<And>e. Q (ExitWith code e)"
    and "\<And>a. P a \<Longrightarrow> pred_state Q (f a)"
  shows "pred_state Q (orExit code msg m f)"
  unfolding orExit_def
  by (rule pred_state_bind [OF assms(1)]) (use assms(2-) in \<open>auto split: sum.splits failure.splits\<close>)

lemma WhereAmIRunning_known: "iAmIn p \<noteq> '''' \<Longrightarrow> run_state (WhereAmIRunning c) p = (Inr (iAmIn p), p)"
  by (simp add: WhereAmIRunning_def)

text \<open>The metadata of every registration: the owner, and what is known of platform and network.\<close>

definition metadataShape :: "string gomap \<Rightarrow> bool" where
  "metadataShape m \<longleftrightarrow> isOwnedByOperator m
     \<and> fset (fmdom m) \<subseteq> {''owner'', ''cnwan.io/platform'', ''cnwan.io/network'', ''cnwan.io/sub-network''}
     \<and> (mapHas m ''cnwan.io/sub-network'' \<longleftrightarrow> mapHas m ''cnwan.io/network'')
     \<and> fmlookup m ''cnwan.io/network'' \<noteq> Some ''''"

lemma persistentMetadata_shape:
  "pred_state (\<lambda>r. case r of Inl e \<Rightarrow> True | Inr m \<Rightarrow> metadataShape m) (persistentMetadata c cm)"
  unfolding persistentMetadata_def
  by (auto simp: metadataShape_def ownerMeta_def isOwnedByOperator_def mapHas_def Let_def orReturn_def
      split: option.splits sum.splits failure.splits intro!: pred_state_bindI)

text \<open>Which client belongs to which settings. Only Cloud Map may leave the dispatcher without a client.\<close>

definition registryFits :: "serviceRegistrySettings \<Rightarrow> seregoClient \<Rightarrow> bool" where
  "registryFits reg cli \<longleftrightarrow>
     (case cli of
        EtcdRegistry \<Rightarrow> srs_EtcdSettings reg \<noteq> None
      | ServiceDirectoryRegistry project region \<Rightarrow> srs_ServiceDirectorySettings reg \<noteq> None
      | CloudMapRegistry \<Rightarrow> srs_CloudMapSettings reg \<noteq> None
      | NilRegistry \<Rightarrow> srs_CloudMapSettings reg \<noteq> None)"

definition failureCodes :: "exitCode set" where
  "failureCodes = {ExitCode 1, CannotGetConfigmap, CannotUnmarshalConfigmap, SettingsValidationError,
     CannotEstablishConnectionToEtcd, CannotGetServiceDirectoryClient, InvalidServiceDirectorySettings,
     CannotGetCloudMapClient, InvalidCloudMapSettings}"

definition runPost :: "(operatorStart \<Rightarrow> bool) \<Rightarrow> runResult \<Rightarrow> bool" where
  "runPost P r \<longleftrightarrow> (case r of Started os \<Rightarrow> P os | ExitWith code e \<Rightarrow> code \<in> failureCodes | Crashed e \<Rightarrow> True)"

lemma runPost_simps [simp]:
  "runPost P (Started os) = P os" "runPost P (ExitWith code e) = (code \<in> failureCodes)" "runPost P (Crashed msg)"
  by (simp_all add: runPost_def)

lemma getRegistry_fits:
  assumes "\<And>cli. registryFits reg cli \<Longrightarrow> pred_state (runPost P) (k cli)" and "countRegistries reg = 1"
  shows "pred_state (runPost P) (getRegistry c x reg k)"
proof -
  have etcd: "srs_EtcdSettings reg = Some e \<Longrightarrow> pred_state (runPost P) (k EtcdRegistry)" for e
    by (rule assms(1)) (simp add: registryFits_def)
  have sd: "srs_ServiceDirectorySettings reg = Some e \<Longrightarrow> pred_state (runPost P) (k (ServiceDirectoryRegistry a b))" for e a b
    by (rule assms(1)) (simp add: registryFits_def)
  have cm: "srs_CloudMapSettings reg = Some e \<Longrightarrow> pred_state (runPost P) (k NilRegistry) \<and> pred_state (runPost P) (k CloudMapRegistry)" for e
    using assms(1) by (simp add: registryFits_def)
  from assms(2) show ?thesis
    unfolding getRegistry_def
    by (auto split: option.splits simp: failureCodes_def countRegistries_def
        intro!: pred_state_orExit [where P = "\<lambda>_. True"] pred_state_bindI etcd sd
        dest: cm split: if_splits sum.split)
qed

text \<open>What is started after valid settings were read.\<close>

definition startedWith :: "settings \<Rightarrow> operatorStart \<Rightarrow> bool" where
  "startedWith s os \<longleftrightarrow>
     (\<exists>reg. st_ServiceRegistrySettings s = Some reg \<and> registryFits reg (os_client os))
     \<and> metadataShape (os_persistentMeta os)
     \<and> os_namespaceController os \<in> {None, Some \<lparr>co_WatchNamespacesByDefault = False, co_ServiceAnnotations = ss_Annotations (st_Service s)\<rparr>}
     \<and> os_serviceController os \<in> {None, Some \<lparr>co_WatchNamespacesByDefault = False, co_ServiceAnnotations = ss_Annotations (st_Service s)\<rparr>}"

lemma newController_options:
  "pred_state (\<lambda>r. optionOf r \<in> {None, Some o1}) (newController x name (Some mgr) (Some o1))"
  by (auto simp: newController_def orReturn_def optionOf_def split: sum.split intro!: pred_state_bindI)

lemma startControllers_post:
  assumes "st_ServiceRegistrySettings s = Some reg" and "registryFits reg cli" and "metadataShape m"
  shows "pred_state (runPost (startedWith s)) (startControllers x s m cli)"
  unfolding startControllers_def
proof (rule pred_state_bindI)
  fix r :: "unit result"
  let ?o = "\<lparr>co_WatchNamespacesByDefault = False, co_ServiceAnnotations = ss_Annotations (st_Service s)\<rparr>"
  have "pred_state (runPost (startedWith s)) (do {
          nsCtrl \<leftarrow> NewNamespaceController x (Some mgr) (Some ?o);
          svCtrl \<leftarrow> NewServiceController x (Some mgr) (Some ?o);
          State_Monad.return (Started \<lparr>os_client = cli, os_persistentMeta = m,
            os_namespaceController = optionOf nsCtrl, os_serviceController = optionOf svCtrl\<rparr>)
        })" for mgr
    unfolding NewNamespaceController_def NewServiceController_def
    by (rule pred_state_bind [OF newController_options], rule pred_state_bind [OF newController_options])
      (use assms in \<open>simp add: startedWith_def\<close>)
  then show "pred_state (runPost (startedWith s)) (case r of
        Inl (Panic e) \<Rightarrow> State_Monad.return (Crashed e)
      | Inl (GoError e) \<Rightarrow> State_Monad.return (ExitWith (ExitCode 1) (GoError e))
      | Inr mgr \<Rightarrow> do {
          let opts = ?o;
          nsCtrl \<leftarrow> NewNamespaceController x (Some mgr) (Some opts);
          svCtrl \<leftarrow> NewServiceController x (Some mgr) (Some opts);
          State_Monad.return (Started \<lparr>os_client = cli, os_persistentMeta = m,
            os_namespaceController = optionOf nsCtrl, os_serviceController = optionOf svCtrl\<rparr>)
        })"
    by (auto simp: failureCodes_def Let_def split: sum.split failure.split)
qed

lemma accepted_registry:
  "ParseAndValidateSettings parsed = Inr s \<Longrightarrow> \<exists>reg. st_ServiceRegistrySettings s = Some reg \<and> countRegistries reg = 1"
proof (cases parsed)
  case (Some s0)
  assume "ParseAndValidateSettings parsed = Inr s"
  then have "ParseAndValidateSettings (Some s0) = Inr s" using Some by simp
  then obtain reg where reg: "st_ServiceRegistrySettings s0 = Some reg" "countRegistries reg = 1"
    and upd: "case srs_EtcdSettings reg of
             None \<Rightarrow> s = s0\<lparr>st_CloudMetadata := parseCloudMetadata (st_CloudMetadata s0)\<rparr>
           | Some etcd \<Rightarrow> \<exists>etcd'. parseEtcdSettings etcd = Inr etcd'
               \<and> s = s0\<lparr>st_CloudMetadata := parseCloudMetadata (st_CloudMetadata s0),
                       st_ServiceRegistrySettings := Some (reg\<lparr>srs_EtcdSettings := Some etcd'\<rparr>)\<rparr>"
    unfolding ParseAndValidateSettings_Inr_iff by blast
  have "srs_EtcdSettings reg = Some etcd \<Longrightarrow> countRegistries (reg\<lparr>srs_EtcdSettings := Some etcd'\<rparr>) = 1" for etcd etcd'
    using reg by (simp add: countRegistries_def)
  with reg upd show ?thesis by (cases "srs_EtcdSettings reg") auto
qed (simp add: ParseAndValidateSettings_def)

lemma run_configured:
  "pred_state (runPost (\<lambda>start. \<exists>content parsed s. yamlUnmarshal x content = Inr parsed
     \<and> ParseAndValidateSettings parsed = Inr s \<and> startedWith s start)) (run c x)" (is "pred_state (runPost ?P) _")
proof -
  have main: "pred_state (runPost ?P) (do {
       meta \<leftarrow> persistentMetadata c (st_CloudMetadata s);
       (case meta of
          Inl e \<Rightarrow> State_Monad.return (Crashed (case e of Panic m \<Rightarrow> m | GoError m \<Rightarrow> m))
        | Inr persistentMeta \<Rightarrow>
            (case st_ServiceRegistrySettings s of
               None \<Rightarrow> State_Monad.return (Crashed ''nil pointer dereference: ServiceRegistrySettings'')
             | Some reg \<Rightarrow> getRegistry c x reg (startControllers x s persistentMeta)))
     })" if s: "yamlUnmarshal x content = Inr parsed" "ParseAndValidateSettings parsed = Inr s" for content parsed s
  proof (rule pred_state_bind [OF persistentMetadata_shape])
    fix r :: "string gomap result"
    assume r: "case r of Inl e \<Rightarrow> True | Inr m \<Rightarrow> metadataShape m"
    obtain reg where reg: "st_ServiceRegistrySettings s = Some reg" "countRegistries reg = 1"
      using accepted_registry [OF s(2)] by blast
    have "pred_state (runPost ?P) (getRegistry c x reg (startControllers x s m))" if "metadataShape m" for m
    proof (rule getRegistry_fits [OF _ reg(2)])
      fix cli
      assume "registryFits reg cli"
      from startControllers_post [OF reg(1) this that] show "pred_state (runPost ?P) (startControllers x s m cli)"
        by (rule pred_state_weaken) (use s in \<open>auto simp: runPost_def split: runResult.splits\<close>)
    qed
    with r reg(1) show "pred_state (runPost ?P) (case r of
          Inl e \<Rightarrow> State_Monad.return (Crashed (case e of Panic m \<Rightarrow> m | GoError m \<Rightarrow> m))
        | Inr persistentMeta \<Rightarrow>
            (case st_ServiceRegistrySettings s of
               None \<Rightarrow> State_Monad.return (Crashed ''nil pointer dereference: ServiceRegistrySettings'')
             | Some reg \<Rightarrow> getRegistry c x reg (startControllers x s persistentMeta)))"
      by (auto split: sum.split)
  qed
  show ?thesis
    unfolding run_def
    apply (rule pred_state_orExit [where P = "\<lambda>_. True"])
       apply (rule pred_state_weaken [OF pred_state_True], simp split: sum.split)
      apply simp
     apply (simp add: failureCodes_def)
    subgoal for content
      apply (rule pred_state_orExit [where P = "\<lambda>parsed. yamlUnmarshal x content = Inr parsed"])
         apply (simp split: sum.split)
        apply simp
       apply (simp add: failureCodes_def)
      subgoal for parsed
        apply (rule pred_state_orExit [where P = "\<lambda>s. ParseAndValidateSettings parsed = Inr s"])
           apply (simp split: sum.split)
          apply simp
         apply (simp add: failureCodes_def)
        by (rule main)
      done
    done
qed

lemma run_posts: "pred_state (runPost (\<lambda>_. True)) (run c x)"
  by (rule pred_state_weaken [OF run_configured]) (auto simp: runPost_def split: runResult.splits)

section \<open>A concrete start\<close>

definition exampleSdk :: "'w sdk" where
  "exampleSdk = \<lparr>yamlUnmarshal = (\<lambda>_. Inr (Some exampleSettings)),
     newRegistrationClient = (\<lambda>_. State_Monad.return None), writeFile = (\<lambda>_ _. State_Monad.return None),
     removeFile = (\<lambda>_. State_Monad.return ()), loadDefaultConfig = (\<lambda>_ _. State_Monad.return None),
     etcdNew = (\<lambda>_. State_Monad.return None), seregoFromEtcd = State_Monad.return None,
     seregoFromServiceDirectory = (\<lambda>_ _. State_Monad.return None), seregoFromCloudMap = (\<lambda>_. State_Monad.return None),
     addToScheme = State_Monad.return None, configFromCluster = State_Monad.return None,
     configFromFlags = (\<lambda>_. State_Monad.return None), managerNew = State_Monad.return None,
     controllerNew = (\<lambda>_. State_Monad.return None), controllerWatch = (\<lambda>_. State_Monad.return None)\<rparr>"

lemma exampleStarted:
  "(case fst (run_state (run exampleCloud exampleSdk) exampleProc) of
      Started os \<Rightarrow> os_client os = EtcdRegistry \<and> os_serviceController os \<noteq> None
    | _ \<Rightarrow> False)"
  by code_simp

section \<open>Properties\<close>


text \<open>
  The metadata of every registration name the operator as owner, carry no other key than
  those of platform and network, and hold a sub-network exactly if they hold a network: a
  sub-network is left out when no network is given, and may be empty when one is.
\<close>

theorem persistentMetadata_exact:
  assumes "run_state (persistentMetadata c cm) p = (Inr m, p')"
  shows "isOwnedByOperator m
    \<and> fset (fmdom m) \<subseteq> {''owner'', ''cnwan.io/platform'', ''cnwan.io/network'', ''cnwan.io/sub-network''}
    \<and> (mapHas m ''cnwan.io/sub-network'' \<longleftrightarrow> mapHas m ''cnwan.io/network'')
    \<and> fmlookup m ''cnwan.io/network'' \<noteq> Some ''''"
  using pred_stateD [OF persistentMetadata_shape assms] by (simp add: metadataShape_def)

lemma exampleMetadata_run:
  "run_state (persistentMetadata exampleCloud (Some \<lparr>cm_Network = None, cm_SubNetwork = Some ''sub''\<rparr>)) exampleProc =
     (Inr (fmap_of_list [(''cnwan.io/platform'', ''GKE''), (''owner'', ''cnwan-operator'')]), exampleProc)"
  by (simp add: persistentMetadata_def getNetworkCfg_def isAuto_def stringOf_def Let_def toLower_def toLowerChar_def
      WhereAmIRunning_known exampleProc_def cluster_manager_defs ownerMeta_def)

theorem persistentMetadata_exact_witness:
  "isOwnedByOperator (fmap_of_list [(''cnwan.io/platform'', ''GKE''), (''owner'', ''cnwan-operator'')])
   \<and> \<not> mapHas (fmap_of_list [(''cnwan.io/platform'', ''GKE''), (''owner'', ''cnwan-operator'')]) ''cnwan.io/sub-network''"
  using persistentMetadata_exact [OF exampleMetadata_run] by (auto simp: mapHas_def)

text \<open>
  The network configuration: names other than auto are kept; auto is an error on an unknown
  platform, replaced by what the cluster tells on GKE, and a panic on any other platform,
  which includes EKS.
\<close>

theorem getNetworkCfg_exact:
  assumes "iAmIn p \<noteq> ''''"
  shows "(\<not> isAuto (stringOf net) \<and> \<not> isAuto (stringOf sub) \<longrightarrow>
        run_state (getNetworkCfg c net sub) p = (Inr \<lparr>nc_NetworkName = stringOf net, nc_SubNetworkName = stringOf sub\<rparr>, p))
    \<and> (isAuto (stringOf net) \<or> isAuto (stringOf sub) \<longrightarrow>
        (iAmIn p = UnknownCluster \<longrightarrow> (\<exists>msg. run_state (getNetworkCfg c net sub) p = (Inl (GoError msg), p)))
      \<and> (iAmIn p = EKSCluster \<longrightarrow> (\<exists>msg. run_state (getNetworkCfg c net sub) p = (Inl (Panic msg), p)))
      \<and> (\<forall>sa p1 cfg p2. iAmIn p = GKECluster \<longrightarrow>
            run_state (GetGoogleServiceAccountSecret c) p = (Inr sa, p1) \<longrightarrow>
            run_state (GetNetworkFromGKE c [sa]) p1 = (Inr cfg, p2) \<longrightarrow>
            run_state (getNetworkCfg c net sub) p =
              (Inr \<lparr>nc_NetworkName = (if isAuto (stringOf net) then nc_NetworkName cfg else stringOf net),
                    nc_SubNetworkName = (if isAuto (stringOf sub) then nc_SubNetworkName cfg else stringOf sub)\<rparr>, p2)))"
  using WhereAmIRunning_known [OF assms, of c]
  by (auto simp: getNetworkCfg_def Let_def cluster_manager_defs)

theorem getNetworkCfg_exact_witness:
  "\<exists>msg. run_state (getNetworkCfg exampleCloud (Some ''Auto'') None) (exampleProc\<lparr>iAmIn := EKSCluster\<rparr>) =
     (Inl (Panic msg), exampleProc\<lparr>iAmIn := EKSCluster\<rparr>)"
proof -
  have "isAuto ''Auto''" by code_simp
  then show ?thesis
    using getNetworkCfg_exact [of "exampleProc\<lparr>iAmIn := EKSCluster\<rparr>" "Some ''Auto''" None exampleCloud]
    by (simp add: stringOf_def cluster_manager_defs)
qed

text \<open>
  The settings of Service Directory: a region and a project that are given are kept, and
  nothing is asked if both are; what is missing is asked of the cloud, only on GKE.
\<close>

theorem gsd_settings_completed:
  assumes "run_state (parseAndResetGSDSettings c (Some s)) p = (Inr s', p')" and "iAmIn p \<noteq> ''''"
  shows "(gsd_DefaultRegion s \<noteq> '''' \<longrightarrow> gsd_DefaultRegion s' = gsd_DefaultRegion s)
    \<and> (gsd_ProjectID s \<noteq> '''' \<longrightarrow> gsd_ProjectID s' = gsd_ProjectID s)
    \<and> (if gsd_DefaultRegion s \<noteq> '''' \<and> gsd_ProjectID s \<noteq> '''' then s' = s \<and> p' = p else iAmIn p = GKECluster)
    \<and> (gsd_DefaultRegion s = '''' \<longrightarrow> fst (run_state (GetGCPRegion c) p) = Inr (gsd_DefaultRegion s'))"
  using assms WhereAmIRunning_known [OF assms(2), of c]
  by (auto simp: parseAndResetGSDSettings_def Let_def split: if_splits prod.splits sum.splits)

theorem gsd_settings_completed_witness:
  "\<exists>s' p'. run_state (parseAndResetGSDSettings exampleCloud (Some \<lparr>gsd_DefaultRegion = '''', gsd_ProjectID = ''mine''\<rparr>)) exampleProc =
       (Inr s', p') \<and> gsd_ProjectID s' = ''mine'' \<and> gsd_DefaultRegion s' = ''us-west1''"
proof -
  let ?s = "\<lparr>gsd_DefaultRegion = '''', gsd_ProjectID = ''mine''\<rparr>"
  obtain r p' where run: "run_state (parseAndResetGSDSettings exampleCloud (Some ?s)) exampleProc = (r, p')" by fastforce
  have region: "fst (run_state (GetGCPRegion exampleCloud) exampleProc) = Inr ''us-west1''" by code_simp
  have "\<exists>s'. r = Inr s'"
    using run by (auto simp: parseAndResetGSDSettings_def WhereAmIRunning_known exampleProc_def exampleCloud_def
        cluster_manager_defs GetGCPRegion_def Let_def)
  then obtain s' where s': "r = Inr s'" by blast
  with gsd_settings_completed [OF run [unfolded s']] region run show ?thesis
    by (auto simp: exampleProc_def cluster_manager_defs)
qed

end
