(* ===== verification/Service_Controller.thy ===== *)
theory Service_Controller
  imports Controller_Interface
begin

text \<open>
  The service controller (package \<open>pkg/controllers\<close>, \<open>service.go\<close>): the handlers for the
  creation, the update and the deletion of a Kubernetes service, and what they send.
\<close>

section \<open>Model\<close>

definition checkParentNamespace ::
  "'w env \<Rightarrow> controllerOptions \<Rightarrow> k8sService \<Rightarrow> ('w, bool \<times> failure option) state" where
  "checkParentNamespace env opts service = do {
     r \<leftarrow> getNamespace env (svc_Namespace service);
     State_Monad.return
       (case r of
          Inl e \<Rightarrow> (False, Some (GoError e))
        | Inr namespace \<Rightarrow> (checkNsLabels (ns_Labels namespace) (co_WatchNamespacesByDefault opts), None))
   }"

definition serviceCreate :: "'w env \<Rightarrow> controllerOptions \<Rightarrow> kubeObject \<Rightarrow> ('w, effect list) state" where
  "serviceCreate env opts obj =
     (case obj of
        KService service \<Rightarrow> do {
          (watchNs, err) \<leftarrow> checkParentNamespace env opts service;
          (if \<not> watchNs then State_Monad.return [WqDone]
           else do {
             checkedService \<leftarrow> checkService env service (co_ServiceAnnotations opts);
             State_Monad.return
               (if \<not> cs_passed checkedService then [WqDone]
                else [Send (mkEvent EventCreate (NamespaceObject (svc_Namespace service))),
                      Send (mkEvent EventCreate (ServiceObject (svc_Namespace service) (svc_Name service)))]
                     @ sendEndpoints EventCreate (cs_endpoints checkedService) @ [WqDone])
           })
        }
      | _ \<Rightarrow> State_Monad.return [WqDone])"

definition handleDelete :: "'w env \<Rightarrow> controllerOptions \<Rightarrow> k8sService \<Rightarrow> ('w, effect list) state" where
  "handleDelete env opts service = do {
     (watchNs, err) \<leftarrow> checkParentNamespace env opts service;
     (if \<not> watchNs then State_Monad.return []
      else do {
        checkedService \<leftarrow> checkService env service (co_ServiceAnnotations opts);
        State_Monad.return
          (sendEndpoints EventDelete (cs_endpoints checkedService)
           @ [Send (mkEvent EventDelete (ServiceObject (svc_Namespace service) (svc_Name service)))])
      })
   }"

text \<open>The comparison of the endpoints when the service passes before and after the update.\<close>

definition updateEndpoints ::
  "'w map_order \<Rightarrow> endpoint list \<Rightarrow> endpoint list \<Rightarrow> ('w, effect list) state" where
  "updateEndpoints ord olds curs =
     (let oldEndpoints = getEndpointsMapFromSlice olds;
          currEndpoints = getEndpointsMapFromSlice curs
      in do {
        oldPairs \<leftarrow> goRange ord oldEndpoints;
        currPairs \<leftarrow> goRange ord currEndpoints;
        State_Monad.return
          (map (\<lambda>(_, ep).
              case fmlookup currEndpoints (ep_Name ep) of
                None \<Rightarrow> Send (mkEvent EventDelete (EndpointObject ep))
              | Some currEp \<Rightarrow> Send (mkEvent EventUpdate (EndpointObject currEp))) oldPairs
           @ concat (map (\<lambda>(_, ep).
              if \<not> mapHas currEndpoints (ep_Name ep)
              then [Send (mkEvent EventCreate (EndpointObject ep))] else []) currPairs))
      })"

definition updateChecked ::
  "'w env \<Rightarrow> k8sService \<Rightarrow> k8sService \<Rightarrow> checkServiceResult \<Rightarrow> checkServiceResult \<Rightarrow> ('w, effect list) state" where
  "updateChecked env cur old currChecked oldChecked =
     (if \<not> cs_passed oldChecked \<and> \<not> cs_passed currChecked then State_Monad.return []
      else if cs_passed oldChecked \<and> \<not> cs_passed currChecked
      then State_Monad.return
        (sendEndpoints EventDelete (cs_endpoints oldChecked)
         @ [Send (mkEvent EventDelete (ServiceObject (svc_Namespace old) (svc_Name old)))])
      else if \<not> cs_passed oldChecked \<and> cs_passed currChecked
      then State_Monad.return
        ([Send (mkEvent EventCreate (NamespaceObject (svc_Namespace cur))),
          Send (mkEvent EventCreate (ServiceObject (svc_Namespace cur) (svc_Name cur)))]
         @ sendEndpoints EventCreate (cs_endpoints currChecked))
      else do {
        effs \<leftarrow> updateEndpoints (mapOrder env) (cs_endpoints oldChecked) (cs_endpoints currChecked);
        State_Monad.return
          ([Send (mkEvent EventCreate (NamespaceObject (svc_Namespace cur))),
            Send (mkEvent EventCreate (ServiceObject (svc_Namespace cur) (svc_Name cur)))] @ effs)
      })"

text \<open>\<open>serviceUpdate env opts (new, old)\<close>; the deferred \<open>wq.Done\<close> is registered twice on the main path.\<close>

definition serviceUpdate ::
  "'w env \<Rightarrow> controllerOptions \<Rightarrow> kubeObject \<times> kubeObject \<Rightarrow> ('w, effect list) state" where
  "serviceUpdate env opts ue =
     (case ue of
        (KService cur, KService old) \<Rightarrow>
          if svc_DeletionTimestamp cur \<noteq> None
          then (if svc_DeletionTimestamp old \<noteq> None then State_Monad.return [WqDone]
                else do {
                  effs \<leftarrow> handleDelete env opts cur;
                  State_Monad.return (effs @ [WqDone])
                })
          else do {
            (watchNs, err) \<leftarrow> checkParentNamespace env opts cur;
            (if \<not> watchNs then State_Monad.return [WqDone, WqDone]
             else do {
               currChecked \<leftarrow> checkService env cur (co_ServiceAnnotations opts);
               oldChecked \<leftarrow> checkService env old (co_ServiceAnnotations opts);
               effs \<leftarrow> updateChecked env cur old currChecked oldChecked;
               State_Monad.return (effs @ [WqDone, WqDone])
             })
          }
      | _ \<Rightarrow> State_Monad.return [WqDone])"

definition serviceDelete :: "'w env \<Rightarrow> controllerOptions \<Rightarrow> kubeObject \<Rightarrow> ('w, effect list) state" where
  "serviceDelete env opts obj = State_Monad.return [WqDone]"

definition serviceGeneric :: "'w env \<Rightarrow> controllerOptions \<Rightarrow> kubeObject \<Rightarrow> ('w, effect list) state" where
  "serviceGeneric env opts obj = State_Monad.return [WqDone]"

section \<open>What each part sends\<close>

text \<open>
  \<open>aboutService s keep e\<close>: the event \<open>e\<close> is about the namespace of \<open>s\<close>, about \<open>s\<close>, or about an
  endpoint of \<open>s\<close> that has the right form and carries the allowed annotations of \<open>s\<close> as its metadata.
\<close>

definition aboutService :: "k8sService \<Rightarrow> string list \<Rightarrow> event \<Rightarrow> bool" where
  "aboutService s keep e \<longleftrightarrow>
     (case ev_Object e of
        NamespaceObject name \<Rightarrow> name = svc_Namespace s
      | ServiceObject namespace name \<Rightarrow> namespace = svc_Namespace s \<and> name = svc_Name s
      | EndpointObject ep \<Rightarrow> typedEndpoint s ep \<and> ep_Namespace ep = svc_Namespace s
          \<and> ep_Metadata ep = fmfilter (annotationAllowed keep) (svc_Annotations s)
      | OtherObject \<Rightarrow> False)"

lemma aboutService_endpoint:
  "checkSpec env s keep r \<Longrightarrow> ep \<in> set (cs_endpoints r) \<Longrightarrow> aboutService s keep (mkEvent t (EndpointObject ep))"
  by (simp add: aboutService_def checkSpec_endpoints checkSpec_typed)

text \<open>The three shapes of what is sent for one checked service.\<close>

definition createEvents :: "k8sService \<Rightarrow> endpoint list \<Rightarrow> event list" where
  "createEvents s eps =
     [mkEvent EventCreate (NamespaceObject (svc_Namespace s)),
      mkEvent EventCreate (ServiceObject (svc_Namespace s) (svc_Name s))]
     @ map (\<lambda>ep. mkEvent EventCreate (EndpointObject ep)) eps"

definition deleteEvents :: "k8sService \<Rightarrow> endpoint list \<Rightarrow> event list" where
  "deleteEvents s eps =
     map (\<lambda>ep. mkEvent EventDelete (EndpointObject ep)) eps
     @ [mkEvent EventDelete (ServiceObject (svc_Namespace s) (svc_Name s))]"

text \<open>
  \<open>updateEvents olds curs upd\<close>: the list \<open>upd\<close> holds one event for each of the names of the
  old endpoints and none other, an update for a name that is still there and a deletion for one
  that is not.
\<close>

definition updateEvents :: "endpoint list \<Rightarrow> endpoint list \<Rightarrow> event list \<Rightarrow> bool" where
  "updateEvents olds curs upd \<longleftrightarrow>
     (\<exists>eps. distinct (map ep_Name eps) \<and> set eps \<subseteq> set olds \<and> ep_Name ` set eps = ep_Name ` set olds
        \<and> upd = map (\<lambda>ep. case fmlookup (getEndpointsMapFromSlice curs) (ep_Name ep) of
             None \<Rightarrow> mkEvent EventDelete (EndpointObject ep)
           | Some currEp \<Rightarrow> mkEvent EventUpdate (EndpointObject currEp)) eps)"

lemma map_Send_sent: "WqDone \<notin> set effs \<Longrightarrow> map Send (sent effs) = effs"
  by (induction effs rule: sent.induct) auto

lemma updateEndpoints_sent:
  assumes "visitsOnce ord"
  shows "pred_state (\<lambda>effs. \<exists>upd. updateEvents olds curs upd \<and> effs = map Send upd) (updateEndpoints ord olds curs)"
proof -
  let ?om = "getEndpointsMapFromSlice olds" and ?cm = "getEndpointsMapFromSlice curs"
  let ?upd = "\<lambda>ep. case fmlookup ?cm (ep_Name ep) of
      None \<Rightarrow> mkEvent EventDelete (EndpointObject ep)
    | Some currEp \<Rightarrow> mkEvent EventUpdate (EndpointObject currEp)"
  have ups: "updateEvents olds curs (map ?upd (map snd oldPairs))" if v: "visitOf ?om oldPairs" for oldPairs
  proof -
    have named: "ep_Name (snd kv) = fst kv \<and> snd kv \<in> set olds" if "kv \<in> set oldPairs" for kv
    proof -
      from that v have "fmlookup ?om (fst kv) = Some (snd kv)" by (auto simp: visitOf_def)
      then show ?thesis by (auto dest: endpointsMap_named)
    qed
    then have names: "map ep_Name (map snd oldPairs) = map fst oldPairs" by simp
    have "set (map ep_Name (map snd oldPairs)) = set (map fst oldPairs)" by (simp only: names)
    then have "ep_Name ` set (map snd oldPairs) = fst ` set oldPairs" by (simp only: set_map)
    then have "ep_Name ` set (map snd oldPairs) = ep_Name ` set olds"
      by (simp only: visitOf_keys [OF v] endpointsMap_dom)
    moreover have "set (map snd oldPairs) \<subseteq> set olds" using named by auto
    moreover have "distinct (map ep_Name (map snd oldPairs))" unfolding names by (rule visitOf_distinct [OF v])
    ultimately show ?thesis unfolding updateEvents_def by blast
  qed
  have news: "concat (map (\<lambda>(_, ep). if \<not> mapHas ?cm (ep_Name ep)
      then [Send (mkEvent EventCreate (EndpointObject ep))] else []) currPairs) = []"
    if v: "visitOf ?cm currPairs" for currPairs
  proof -
    have "mapHas ?cm (ep_Name (snd kv))" if "kv \<in> set currPairs" for kv
    proof -
      from that v have "fmlookup ?cm (fst kv) = Some (snd kv)" by (auto simp: visitOf_def)
      then show ?thesis using endpointsMap_named [of curs "fst kv" "snd kv"] by (simp add: mapHas_def)
    qed
    then show ?thesis by auto
  qed
  have olds: "map (\<lambda>(_, ep). case fmlookup ?cm (ep_Name ep) of
      None \<Rightarrow> Send (mkEvent EventDelete (EndpointObject ep))
    | Some currEp \<Rightarrow> Send (mkEvent EventUpdate (EndpointObject currEp))) oldPairs =
      map Send (map ?upd (map snd oldPairs))" for oldPairs :: "(string \<times> endpoint) list"
    by (induction oldPairs) (auto split: option.split)
  show ?thesis
    unfolding updateEndpoints_def Let_def
  proof (rule pred_state_bind [OF goRange_visits [OF assms]], rule pred_state_bind [OF goRange_visits [OF assms]])
    fix oldPairs currPairs
    assume "visitOf ?om oldPairs" and v: "visitOf ?cm currPairs"
    then show "pred_state (\<lambda>effs. \<exists>upd. updateEvents olds curs upd \<and> effs = map Send upd) (State_Monad.return
          (map (\<lambda>(_, ep). case fmlookup ?cm (ep_Name ep) of
                None \<Rightarrow> Send (mkEvent EventDelete (EndpointObject ep))
              | Some currEp \<Rightarrow> Send (mkEvent EventUpdate (EndpointObject currEp))) oldPairs
           @ concat (map (\<lambda>(_, ep). if \<not> mapHas ?cm (ep_Name ep)
              then [Send (mkEvent EventCreate (EndpointObject ep))] else []) currPairs)))"
      unfolding pred_state_return_iff olds news [OF v] append_Nil2 using ups by blast
  qed
qed

lemma sent_map_Send_list [simp]: "sent (map Send es) = es"
  by (induction es) auto

lemma checkedEvents:
  "map Send (createEvents s eps) =
     [Send (mkEvent EventCreate (NamespaceObject (svc_Namespace s))),
      Send (mkEvent EventCreate (ServiceObject (svc_Namespace s) (svc_Name s)))] @ sendEndpoints EventCreate eps"
  "map Send (deleteEvents s eps) =
     sendEndpoints EventDelete eps @ [Send (mkEvent EventDelete (ServiceObject (svc_Namespace s) (svc_Name s)))]"
  by (simp_all add: createEvents_def deleteEvents_def)

lemma serviceCreate_sent:
  assumes "envLaws env"
  shows "pred_state (\<lambda>effs. effs = [WqDone]
      \<or> (\<exists>r. checkSpec env s (co_ServiceAnnotations opts) r \<and> cs_passed r
           \<and> effs = map Send (createEvents s (cs_endpoints r)) @ [WqDone]))
    (serviceCreate env opts (KService s))"
  unfolding serviceCreate_def checkedEvents
  by (auto intro!: pred_state_bindI pred_state_bind [OF checkService_spec [OF envLaws_visitsOnce [OF assms]]]) blast

lemma handleDelete_sent:
  assumes "envLaws env"
  shows "pred_state (\<lambda>effs. effs = []
      \<or> (\<exists>r. checkSpec env s (co_ServiceAnnotations opts) r \<and> effs = map Send (deleteEvents s (cs_endpoints r))))
    (handleDelete env opts s)"
  unfolding handleDelete_def checkedEvents
  by (auto intro!: pred_state_bindI pred_state_bind [OF checkService_spec [OF envLaws_visitsOnce [OF assms]]]) blast

text \<open>What an update of a service that is not being deleted sends, by the two checks.\<close>

definition updateOutcome ::
  "k8sService \<Rightarrow> k8sService \<Rightarrow> checkServiceResult \<Rightarrow> checkServiceResult \<Rightarrow> event list \<Rightarrow> bool" where
  "updateOutcome cur old curChecked oldChecked es \<longleftrightarrow>
     (case (cs_passed oldChecked, cs_passed curChecked) of
        (False, False) \<Rightarrow> es = []
      | (True, False) \<Rightarrow> es = deleteEvents old (cs_endpoints oldChecked)
      | (False, True) \<Rightarrow> es = createEvents cur (cs_endpoints curChecked)
      | (True, True) \<Rightarrow> \<exists>upd. updateEvents (cs_endpoints oldChecked) (cs_endpoints curChecked) upd
          \<and> es = createEvents cur [] @ upd)"

lemma updateChecked_sent:
  assumes "envLaws env"
  shows "pred_state (\<lambda>effs. \<exists>es. updateOutcome cur old curChecked oldChecked es \<and> effs = map Send es)
    (updateChecked env cur old curChecked oldChecked)"
proof (cases "cs_passed oldChecked \<and> cs_passed curChecked")
  case True
  have "\<exists>es. updateOutcome cur old curChecked oldChecked es
      \<and> [Send (mkEvent EventCreate (NamespaceObject (svc_Namespace cur))),
         Send (mkEvent EventCreate (ServiceObject (svc_Namespace cur) (svc_Name cur)))] @ map Send upd = map Send es"
    if "updateEvents (cs_endpoints oldChecked) (cs_endpoints curChecked) upd" for upd
    using True that by (intro exI [where x = "createEvents cur [] @ upd"])
      (auto simp: updateOutcome_def createEvents_def)
  with True show ?thesis
    unfolding updateChecked_def
    by (auto intro!: pred_state_bind [OF updateEndpoints_sent [OF envLaws_visitsOnce [OF assms]]])
next
  case False
  then show ?thesis
    unfolding updateChecked_def checkedEvents [symmetric]
    by (auto simp: updateOutcome_def)
qed

text \<open>What an update of a service sends: nothing, the deletion of the service, or the outcome above.\<close>

definition updateSends ::
  "'w env \<Rightarrow> string list \<Rightarrow> k8sService \<Rightarrow> k8sService \<Rightarrow> event list \<Rightarrow> bool" where
  "updateSends env keep cur old es \<longleftrightarrow>
     es = []
     \<or> (svc_DeletionTimestamp cur \<noteq> None \<and> svc_DeletionTimestamp old = None
        \<and> (\<exists>r. checkSpec env cur keep r \<and> es = deleteEvents cur (cs_endpoints r)))
     \<or> (svc_DeletionTimestamp cur = None
        \<and> (\<exists>rc ro. checkSpec env cur keep rc \<and> checkSpec env old keep ro \<and> updateOutcome cur old rc ro es))"

lemma serviceUpdate_sent:
  assumes "envLaws env"
  shows "pred_state (\<lambda>effs. updateSends env (co_ServiceAnnotations opts) cur old (sent effs)
      \<and> effs \<noteq> [] \<and> last effs = WqDone) (serviceUpdate env opts (KService cur, KService old))"
    (is "pred_state ?P _")
proof (cases "svc_DeletionTimestamp cur = None")
  case False
  then show ?thesis
    unfolding serviceUpdate_def
    by (auto intro!: pred_state_bind [OF handleDelete_sent [OF assms]] simp: updateSends_def)
next
  case True
  have step: "updateSends env (co_ServiceAnnotations opts) cur old es"
    if "updateOutcome cur old rc ro es" "checkSpec env cur (co_ServiceAnnotations opts) rc"
      "checkSpec env old (co_ServiceAnnotations opts) ro" for es rc ro
    using that True unfolding updateSends_def by blast
  have "updateSends env (co_ServiceAnnotations opts) cur old []" by (simp add: updateSends_def)
  with True show ?thesis
    unfolding serviceUpdate_def
    by (auto intro!: pred_state_bindI [of "checkParentNamespace env opts cur"]
        pred_state_bind [OF checkService_spec [OF envLaws_visitsOnce [OF assms]]]
        pred_state_bind [OF updateChecked_sent [OF assms]]) (rule step)
qed

section \<open>The contract of the service controller\<close>

fun objectNamespace :: "kubeObject \<Rightarrow> string" where
  "objectNamespace (KService s) = svc_Namespace s"
| "objectNamespace (KNamespace n) = ns_Name n"
| "objectNamespace KOther = ''''"

text \<open>An update is about one service: name and namespace of an object never change.\<close>

fun sameService :: "kubeObject \<times> kubeObject \<Rightarrow> bool" where
  "sameService (KService cur, KService old) =
     (svc_Namespace cur = svc_Namespace old \<and> svc_Name cur = svc_Name old)"
| "sameService _ = True"

definition endpointsOfService :: "k8sService \<Rightarrow> endpoint list \<Rightarrow> bool" where
  "endpointsOfService s eps \<longleftrightarrow>
     (\<forall>ep \<in> set eps. ep_Namespace ep = svc_Namespace s \<and> ep_Service ep = svc_Name s)"

lemma checkSpec_endpointsOfService: "checkSpec env s keep r \<Longrightarrow> endpointsOfService s (cs_endpoints r)"
  by (auto simp: endpointsOfService_def dest: checkSpec_endpoints)

lemma wellOrdered_createEvents:
  assumes "endpointsOfService s eps"
    and "NamespaceObject (svc_Namespace s) \<notin> d" "ServiceObject (svc_Namespace s) (svc_Name s) \<notin> d"
  shows "wellOrdered c d (createEvents s eps)"
proof -
  have "objectsOf EventDelete (map (\<lambda>ep. mkEvent EventCreate (EndpointObject ep)) eps) = {}"
    by (auto simp: in_objectsOf_iff)
  then have "wellOrdered (c \<union> {NamespaceObject (svc_Namespace s), ServiceObject (svc_Namespace s) (svc_Name s)}) d
      (map (\<lambda>ep. mkEvent EventCreate (EndpointObject ep)) eps)"
    using assms by (intro wellOrdered_leaves) (auto simp: endpointsOfService_def)
  with assms show ?thesis
    by (simp add: createEvents_def objectOf_def insert_commute Un_insert_right Un_insert_left)
qed

lemma wellOrdered_deleteEvents:
  assumes "endpointsOfService s eps"
    and "NamespaceObject (svc_Namespace s) \<notin> d" "ServiceObject (svc_Namespace s) (svc_Name s) \<notin> d"
  shows "wellOrdered c d (deleteEvents s eps)"
proof -
  have "objectsOf EventDelete (map (\<lambda>ep. mkEvent EventDelete (EndpointObject ep)) eps) = EndpointObject ` set eps"
    by (auto simp: in_objectsOf_iff)
  moreover from this have "wellOrdered c d (map (\<lambda>ep. mkEvent EventDelete (EndpointObject ep)) eps)"
    using assms by (intro wellOrdered_leaves) (auto simp: endpointsOfService_def)
  ultimately show ?thesis
    using assms by (auto simp: deleteEvents_def wellOrdered_append)
qed

lemma updateEvents_objects:
  assumes "updateEvents olds curs upd" and "e \<in> set upd"
  shows "\<exists>ep. ev_Object e = EndpointObject ep \<and> ep \<in> set olds \<union> set curs \<and> ev_EventType e \<noteq> EventCreate"
  using assms unfolding updateEvents_def
  by (auto split: option.splits dest!: endpointsMap_named) blast

lemma wellOrdered_updateEvents:
  assumes "updateEvents olds curs upd" and "endpointsOfService s (olds @ curs)"
  shows "wellOrdered {} {} (createEvents s [] @ upd)"
proof -
  have "wellOrdered c {} upd" for c
  proof (rule wellOrdered_leaves)
    fix e
    assume "e \<in> set upd"
    with updateEvents_objects [OF assms(1)] obtain ep where
      e: "ev_Object e = EndpointObject ep" "ev_EventType e \<noteq> EventCreate" by blast
    then show "ev_EventType e = EventCreate \<Longrightarrow> ancestors (ev_Object e) \<subseteq> c" by simp
    from e show "ancestors (ev_Object e) \<inter> ({} \<union> objectsOf EventDelete upd) = {}"
      using updateEvents_objects [OF assms(1)] by (fastforce simp: in_objectsOf_iff)
  qed
  then show ?thesis
    by (simp add: createEvents_def objectOf_def)
qed

text \<open>The events of the three shapes are about their service.\<close>

lemma createEvents_about:
  "checkSpec env s keep r \<Longrightarrow> e \<in> set (createEvents s (cs_endpoints r)) \<Longrightarrow> aboutService s keep e"
  by (auto simp: createEvents_def aboutService_endpoint) (simp_all add: aboutService_def)

lemma deleteEvents_about:
  "checkSpec env s keep r \<Longrightarrow> e \<in> set (deleteEvents s (cs_endpoints r)) \<Longrightarrow> aboutService s keep e"
  by (auto simp: deleteEvents_def aboutService_endpoint) (simp_all add: aboutService_def)

lemma aboutService_namespace: "aboutService s keep e \<Longrightarrow> getNamespaceNameFromEventObject e = svc_Namespace s"
  by (auto simp: aboutService_def getNamespaceNameFromEventObject_def split: registryObject.splits)

lemma updateOutcome_about:
  assumes "checkSpec env cur keep rc" and "checkSpec env old keep ro" and "updateOutcome cur old rc ro es"
    and "e \<in> set es"
  shows "aboutService cur keep e \<or> aboutService old keep e"
proof (cases "cs_passed ro \<and> cs_passed rc")
  case True
  with assms(3) obtain upd where upd: "updateEvents (cs_endpoints ro) (cs_endpoints rc) upd"
    and es: "es = createEvents cur [] @ upd" by (auto simp: updateOutcome_def)
  show ?thesis
  proof (cases "e \<in> set upd")
    case True
    with upd obtain ep where "ev_Object e = EndpointObject ep" "ep \<in> set (cs_endpoints ro) \<union> set (cs_endpoints rc)"
      by (auto dest: updateEvents_objects)
    with assms(1,2) show ?thesis by (cases e) (auto dest: aboutService_endpoint)
  next
    case False
    with es assms(4) show ?thesis by (auto simp: createEvents_def aboutService_def)
  qed
next
  case False
  with assms show ?thesis
    by (auto simp: updateOutcome_def dest: createEvents_about deleteEvents_about split: bool.splits)
qed

lemma updateOutcome_ordered:
  assumes "checkSpec env cur keep rc" and "checkSpec env old keep ro" and "updateOutcome cur old rc ro es"
    and "sameService (KService cur, KService old)"
  shows "wellOrdered {} {} es"
proof -
  have "endpointsOfService cur (cs_endpoints ro @ cs_endpoints rc)"
    using checkSpec_endpointsOfService [OF assms(1)] checkSpec_endpointsOfService [OF assms(2)] assms(4)
    by (auto simp: endpointsOfService_def)
  then show ?thesis
    using assms(3) checkSpec_endpointsOfService [OF assms(1)] checkSpec_endpointsOfService [OF assms(2)]
    by (auto simp: updateOutcome_def wellOrdered_createEvents wellOrdered_deleteEvents
        intro: wellOrdered_updateEvents split: bool.splits)
qed

lemma serviceCreate_about:
  assumes "envLaws env"
  shows "pred_state (\<lambda>effs. \<forall>e \<in> set (sent effs). aboutService s (co_ServiceAnnotations opts) e)
    (serviceCreate env opts (KService s))"
  by (rule pred_state_weaken [OF serviceCreate_sent [OF assms]]) (auto dest: createEvents_about)

lemma updateSends_about:
  assumes "updateSends env keep cur old es" and "e \<in> set es"
  shows "aboutService cur keep e \<or> aboutService old keep e"
  using assms unfolding updateSends_def by (auto dest: deleteEvents_about updateOutcome_about)

lemma updateSends_ordered:
  assumes "updateSends env keep cur old es" and "sameService (KService cur, KService old)"
  shows "wellOrdered {} {} es"
  using assms(1) unfolding updateSends_def
  by (auto intro: wellOrdered_deleteEvents checkSpec_endpointsOfService updateOutcome_ordered [OF _ _ _ assms(2)])

lemma serviceUpdate_other:
  "(\<nexists>cur old. ue = (KService cur, KService old)) \<Longrightarrow> serviceUpdate env opts ue = State_Monad.return [WqDone]"
  by (cases "fst ue"; cases "snd ue"; cases ue) (auto simp: serviceUpdate_def)

lemma serviceCreate_other:
  "(\<nexists>s. obj = KService s) \<Longrightarrow> serviceCreate env opts obj = State_Monad.return [WqDone]"
  by (cases obj) (auto simp: serviceCreate_def)

interpretation serviceCreate: event_producer serviceCreate objectNamespace "\<lambda>_. True"
proof unfold_locales
  fix env :: "'a env" and obj opts
  assume laws: "envLaws env"
  consider (service) s where "obj = KService s" | (other) "\<nexists>s. obj = KService s" by blast
  note cases = this
  show "pred_state (\<lambda>effs. \<forall>e \<in> set (sent effs). getNamespaceNameFromEventObject e = objectNamespace obj)
      (serviceCreate env opts obj)"
  proof (cases rule: cases)
    case (service s)
    then show ?thesis
      unfolding service objectNamespace.simps
      by (intro pred_state_weaken [OF serviceCreate_about [OF laws]]) (blast dest: aboutService_namespace)
  qed (simp add: serviceCreate_other)
  show "pred_state (\<lambda>effs. wellOrdered {} {} (sent effs)) (serviceCreate env opts obj)"
  proof (cases rule: cases)
    case (service s)
    have "wellOrdered {} {} (createEvents s (cs_endpoints r))"
      if "checkSpec env s (co_ServiceAnnotations opts) r" for r
      using that by (intro wellOrdered_createEvents) (auto intro: checkSpec_endpointsOfService)
    then show ?thesis
      unfolding service by (intro pred_state_weaken [OF serviceCreate_sent [OF laws]]) auto
  qed (simp add: serviceCreate_other)
  show "pred_state (\<lambda>effs. effs \<noteq> [] \<and> last effs = WqDone) (serviceCreate env opts obj)"
  proof (cases rule: cases)
    case (service s)
    then show ?thesis
      unfolding service by (intro pred_state_weaken [OF serviceCreate_sent [OF laws]]) auto
  qed (simp add: serviceCreate_other)
qed

lemma sameService_cases:
  assumes "sameService ue"
  obtains (update) cur old where "ue = (KService cur, KService old)"
      "svc_Namespace old = svc_Namespace cur" "svc_Name old = svc_Name cur"
    | (other) "\<nexists>cur old. ue = (KService cur, KService old)"
  using assms by (cases ue rule: sameService.cases) auto

interpretation serviceUpdate: event_producer serviceUpdate "\<lambda>ue. objectNamespace (fst ue)" sameService
proof unfold_locales
  fix env :: "'a env" and ue opts
  assume laws: "envLaws env" and same: "sameService ue"
  show "pred_state (\<lambda>effs. \<forall>e \<in> set (sent effs). getNamespaceNameFromEventObject e = objectNamespace (fst ue))
      (serviceUpdate env opts ue)"
    using same
  proof (cases rule: sameService_cases)
    case (update cur old)
    have "getNamespaceNameFromEventObject e = svc_Namespace cur"
      if "updateSends env (co_ServiceAnnotations opts) cur old es" "e \<in> set es" for es e
      using updateSends_about [OF that] update(2) by (metis aboutService_namespace)
    then show ?thesis
      unfolding update(1) fst_conv objectNamespace.simps
      by (intro pred_state_weaken [OF serviceUpdate_sent [OF laws]]) blast
  qed (simp add: serviceUpdate_other)
  show "pred_state (\<lambda>effs. wellOrdered {} {} (sent effs)) (serviceUpdate env opts ue)"
    using same
  proof (cases rule: sameService_cases)
    case (update cur old)
    with same show ?thesis
      unfolding update(1) by (intro pred_state_weaken [OF serviceUpdate_sent [OF laws]]) (blast intro: updateSends_ordered)
  qed (simp add: serviceUpdate_other)
  show "pred_state (\<lambda>effs. effs \<noteq> [] \<and> last effs = WqDone) (serviceUpdate env opts ue)"
    using same
  proof (cases rule: sameService_cases)
    case (update cur old)
    then show ?thesis
      unfolding update(1) by (intro pred_state_weaken [OF serviceUpdate_sent [OF laws]]) blast
  qed (simp add: serviceUpdate_other)
qed

interpretation serviceDelete: event_producer serviceDelete objectNamespace "\<lambda>_. True"
  by unfold_locales (simp_all add: serviceDelete_def)

section \<open>Properties\<close>

definition exampleOptions :: controllerOptions where
  "exampleOptions = \<lparr>co_WatchNamespacesByDefault = False, co_ServiceAnnotations = [''prefix.io/*'']\<rparr>"

lemma exampleOptions_keep: "co_ServiceAnnotations exampleOptions = [''prefix.io/*'']"
  by (simp add: exampleOptions_def)

lemma exampleNamespace_watched: "checkNsLabels (ns_Labels exampleNamespace) d"
  by (simp add: checkNsLabels_def exampleNamespace_def watch_label_defs)

lemma exampleNamespace_found:
  "run_state (getNamespace exampleEnv (svc_Namespace exampleService)) w = (Inr exampleNamespace, w)"
  by (simp add: exampleEnv_def exampleService_def)

text \<open>
  C31. The creation of a service in a watched namespace announces, if the service passes the
  check, its namespace, the service and one endpoint for every port and address, in this
  order; a service that does not pass announces nothing. Nothing is asked of the cluster beyond
  the namespace and the check.
\<close>

theorem serviceCreate_announces:
  assumes "envLaws env"
    and "run_state (getNamespace env (svc_Namespace s)) w = (Inr ns, w1)"
    and "checkNsLabels (ns_Labels ns) (co_WatchNamespacesByDefault opts)"
    and "run_state (checkService env s (co_ServiceAnnotations opts)) w1 = (r, w2)"
  shows "\<exists>effs. run_state (serviceCreate env opts (KService s)) w = (effs, w2)
    \<and> sent effs = (if cs_passed r then createEvents s (cs_endpoints r) else [])
    \<and> length (cs_endpoints r) = length (svc_Ports s) * length (cs_ips r)"
proof -
  have "checkSpec env s (co_ServiceAnnotations opts) r"
    using pred_stateD [OF checkService_spec [OF envLaws_visitsOnce [OF assms(1)]] assms(4)] .
  then have "length (cs_endpoints r) = length (svc_Ports s) * length (cs_ips r)"
    by (cases "cs_passed r") (simp_all add: checkSpec_def Let_def length_endpointsOf)
  with assms(2-4) show ?thesis
    by (simp add: serviceCreate_def checkParentNamespace_def createEvents_def)
qed

theorem serviceCreate_announces_witness:
  "\<exists>effs. run_state (serviceCreate exampleEnv exampleOptions (KService exampleService)) 0 = (effs, 3)
     \<and> length (sent effs) = 4"
proof -
  obtain r where r: "run_state (checkService exampleEnv exampleService (co_ServiceAnnotations exampleOptions)) 0 = (r, 3)"
    and p: "cs_passed r" "cs_ips r = [''10.0.0.1'', ''192.0.2.7'']"
    by (simp add: exampleOptions_def exampleService_checked)
  have "length (svc_Ports exampleService) = 1" by (simp add: exampleService_def)
  with serviceCreate_announces [OF exampleEnv_laws exampleNamespace_found exampleNamespace_watched r] p
  show ?thesis by (auto simp: createEvents_def)
qed



text \<open>
  When the service passes before and after the update, every endpoint name of the old
  service gets exactly one event, and no endpoint is ever created: an endpoint whose name
  the old service does not have is not mentioned at all.
\<close>

theorem serviceUpdate_ignores_new_endpoints:
  assumes "envLaws env" and "cs_passed oldChecked" and "cs_passed curChecked"
  shows "pred_state (\<lambda>effs. \<exists>upd. sent effs = createEvents cur [] @ upd
      \<and> length upd = card (ep_Name ` set (cs_endpoints oldChecked))
      \<and> (\<forall>e \<in> set upd. \<exists>ep. ev_Object e = EndpointObject ep \<and> ev_EventType e \<noteq> EventCreate
           \<and> ep_Name ep \<in> ep_Name ` set (cs_endpoints oldChecked)))
    (updateChecked env cur old curChecked oldChecked)"
proof (rule pred_state_weaken [OF updateChecked_sent [OF assms(1)]])
  fix effs
  assume "\<exists>es. updateOutcome cur old curChecked oldChecked es \<and> effs = map Send es"
  then obtain upd where upd: "updateEvents (cs_endpoints oldChecked) (cs_endpoints curChecked) upd"
    and s: "sent effs = createEvents cur [] @ upd"
    using assms(2,3) by (auto simp: updateOutcome_def)
  let ?f = "\<lambda>ep. case fmlookup (getEndpointsMapFromSlice (cs_endpoints curChecked)) (ep_Name ep) of
         None \<Rightarrow> mkEvent EventDelete (EndpointObject ep)
       | Some currEp \<Rightarrow> mkEvent EventUpdate (EndpointObject currEp)"
  from upd obtain eps where eps: "distinct (map ep_Name eps)" "ep_Name ` set eps = ep_Name ` set (cs_endpoints oldChecked)"
    and map: "upd = map ?f eps"
    unfolding updateEvents_def by blast
  have "length upd = card (ep_Name ` set (cs_endpoints oldChecked))"
    using eps map distinct_card [OF eps(1)] by simp
  moreover have "\<exists>ep. ev_Object e = EndpointObject ep \<and> ev_EventType e \<noteq> EventCreate
      \<and> ep_Name ep \<in> ep_Name ` set (cs_endpoints oldChecked)" if "e \<in> set upd" for e
    using that unfolding map eps(2) [symmetric] by (auto split: option.splits dest!: endpointsMap_named)
  ultimately show "\<exists>upd. sent effs = createEvents cur [] @ upd
      \<and> length upd = card (ep_Name ` set (cs_endpoints oldChecked))
      \<and> (\<forall>e \<in> set upd. \<exists>ep. ev_Object e = EndpointObject ep \<and> ev_EventType e \<noteq> EventCreate
           \<and> ep_Name ep \<in> ep_Name ` set (cs_endpoints oldChecked))"
    using s by blast
qed

theorem serviceUpdate_ignores_new_endpoints_witness:
  "\<exists>old cur. cs_passed old \<and> cs_passed cur \<and> cs_endpoints old = []
     \<and> cs_endpoints cur = [endpointOf exampleService fmempty ''10.0.0.1'' 80]
     \<and> sent (fst (run_state (updateChecked exampleEnv exampleService exampleService cur old) 0)) = createEvents exampleService []"
proof -
  let ?r = "\<lambda>eps. \<lparr>cs_passed = True, cs_reason = '''', cs_err = None, cs_annotations = fmempty, cs_ips = [''10.0.0.1''], cs_endpoints = eps\<rparr>"
  have "cs_passed (?r [])" "cs_passed (?r [endpointOf exampleService fmempty ''10.0.0.1'' 80])" by simp_all
  from pred_state_run_state [OF serviceUpdate_ignores_new_endpoints [OF exampleEnv_laws this], of exampleService exampleService 0]
  show ?thesis
    by (intro exI [where x = "?r []"] exI [where x = "?r [endpointOf exampleService fmempty ''10.0.0.1'' 80]"]) auto
qed

text \<open>
  No handler of the service controller lets an annotation out that the settings do not
  allow: every endpoint that is sent carries allowed keys only, with the values of the service.
\<close>

theorem annotations_never_leak:
  assumes "envLaws env"
  shows "pred_state (\<lambda>effs. \<forall>e \<in> set (sent effs). \<forall>ep. ev_Object e = EndpointObject ep \<longrightarrow>
        fset (fmdom (ep_Metadata ep)) \<subseteq> {key. annotationAllowed (co_ServiceAnnotations opts) key})
      (serviceCreate env opts obj)
    \<and> pred_state (\<lambda>effs. \<forall>e \<in> set (sent effs). \<forall>ep. ev_Object e = EndpointObject ep \<longrightarrow>
        fset (fmdom (ep_Metadata ep)) \<subseteq> {key. annotationAllowed (co_ServiceAnnotations opts) key})
      (serviceUpdate env opts ue)"
proof -
  have about: "fset (fmdom (ep_Metadata ep)) \<subseteq> {key. annotationAllowed keep key}"
    if "aboutService s keep e" "ev_Object e = EndpointObject ep" for s keep e ep
    using that by (auto simp: aboutService_def fmlookup_dom_iff split: if_splits)
  show ?thesis
  proof
    show "pred_state (\<lambda>effs. \<forall>e \<in> set (sent effs). \<forall>ep. ev_Object e = EndpointObject ep \<longrightarrow>
        fset (fmdom (ep_Metadata ep)) \<subseteq> {key. annotationAllowed (co_ServiceAnnotations opts) key})
      (serviceCreate env opts obj)"
    proof (cases "\<exists>s. obj = KService s")
      case True
      then show ?thesis
        using about by (auto intro!: pred_state_weaken [OF serviceCreate_about [OF assms]]) blast
    qed (simp add: serviceCreate_other)
    show "pred_state (\<lambda>effs. \<forall>e \<in> set (sent effs). \<forall>ep. ev_Object e = EndpointObject ep \<longrightarrow>
        fset (fmdom (ep_Metadata ep)) \<subseteq> {key. annotationAllowed (co_ServiceAnnotations opts) key})
      (serviceUpdate env opts ue)"
    proof (cases "\<exists>cur old. ue = (KService cur, KService old)")
      case True
      then obtain cur old where ue: "ue = (KService cur, KService old)" by blast
      show ?thesis
        unfolding ue by (rule pred_state_weaken [OF serviceUpdate_sent [OF assms]])
          (blast dest: updateSends_about about)
    qed (simp add: serviceUpdate_other)
  qed
qed

lemma exampleCreate_sent:
  "\<exists>ep. mkEvent EventCreate (EndpointObject ep) \<in>
     set (sent (fst (run_state (serviceCreate exampleEnv exampleOptions (KService exampleService)) 0)))"
proof -
  have "svc_Ports exampleService = [80]" by (simp add: exampleService_def)
  then show ?thesis
    by (simp add: serviceCreate_def checkParentNamespace_def exampleNamespace_found exampleNamespace_watched
        exampleService_checked [folded exampleOptions_keep] endpointsOf_def split: prod.splits) auto
qed

theorem annotations_never_leak_witness:
  "\<exists>ep. mkEvent EventCreate (EndpointObject ep) \<in>
     set (sent (fst (run_state (serviceCreate exampleEnv exampleOptions (KService exampleService)) 0)))
   \<and> fset (fmdom (ep_Metadata ep)) \<subseteq> {key. annotationAllowed [''prefix.io/*''] key}"
proof -
  have "pred_state (\<lambda>effs. \<forall>e \<in> set (sent effs). \<forall>ep. ev_Object e = EndpointObject ep \<longrightarrow>
        fset (fmdom (ep_Metadata ep)) \<subseteq> {key. annotationAllowed (co_ServiceAnnotations exampleOptions) key})
      (serviceCreate exampleEnv exampleOptions (KService exampleService))"
    using annotations_never_leak [OF exampleEnv_laws] by blast
  from pred_state_run_state [OF this, of 0] exampleCreate_sent show ?thesis
    by (metis event.select_convs(2) exampleOptions_keep)
qed



text \<open>
  C33. Nothing is sent for a service whose namespace is not watched: no handler of the
  service controller sends anything if the namespace cannot be read, carries the label
  that disables watching, or carries no such label while the default is not to watch.
\<close>

theorem unwatched_namespace_silent:
  assumes "pred_state (\<lambda>r. case r of Inl e \<Rightarrow> True
      | Inr ns \<Rightarrow> fmlookup (ns_Labels ns) watchLabel = Some watchDisabledLabel
          \<or> fmlookup (ns_Labels ns) watchLabel \<noteq> Some watchEnabledLabel \<and> \<not> co_WatchNamespacesByDefault opts)
    (getNamespace env (svc_Namespace s))"
  shows "pred_state (\<lambda>effs. sent effs = []) (serviceCreate env opts (KService s))
    \<and> pred_state (\<lambda>effs. sent effs = []) (serviceUpdate env opts (KService s, KService old))
    \<and> pred_state (\<lambda>effs. sent effs = []) (serviceDelete env opts (KService s))"
proof -
  have parent: "pred_state (\<lambda>(watchNs, err). \<not> watchNs) (checkParentNamespace env opts s)"
    unfolding checkParentNamespace_def
    by (rule pred_state_bind [OF assms])
      (auto simp: checkNsLabels_def watch_label_defs Let_def split: sum.splits option.splits)
  show ?thesis
    unfolding serviceCreate_def serviceUpdate_def serviceDelete_def handleDelete_def
    by (auto intro!: pred_state_bind [OF parent] pred_state_bind [where P = "\<lambda>effs. effs = []"])
qed

theorem unwatched_namespace_silent_witness:
  "pred_state (\<lambda>effs. sent effs = [])
     (serviceCreate exampleEnv exampleOptions (KService (exampleService\<lparr>svc_Namespace := ''other''\<rparr>)))"
  using unwatched_namespace_silent [of exampleOptions exampleEnv "exampleService\<lparr>svc_Namespace := ''other''\<rparr>"]
  by (simp add: exampleEnv_def)

end
