(* ===== verification/Namespace_Controller.thy ===== *)
theory Namespace_Controller
  imports Service_Controller
begin

text \<open>
  The namespace controller (package \<open>pkg/controllers\<close>, \<open>namespace.go\<close>): the handlers for the
  creation, the update and the deletion of a Kubernetes namespace. Only a change of the
  watch state, or the deletion of a watched namespace, makes it send anything.
\<close>

section \<open>Model\<close>

definition namespaceCreate :: "'w env \<Rightarrow> controllerOptions \<Rightarrow> kubeObject \<Rightarrow> ('w, effect list) state" where
  "namespaceCreate env opts obj = State_Monad.return [WqDone]"

text \<open>
  What is sent for one service of the namespace. The endpoints come after the service for a
  creation and before it for a deletion, and they are sent with \<open>EventDelete\<close> in both cases.
\<close>

definition serviceGroup :: "eventType \<Rightarrow> string \<Rightarrow> k8sService \<Rightarrow> checkServiceResult \<Rightarrow> event list" where
  "serviceGroup evType namespaceName service checkedService =
     (if \<not> cs_passed checkedService then []
      else
        let serviceEvent = [mkEvent evType (ServiceObject namespaceName (svc_Name service))];
            endpointEvents = map (\<lambda>ep. mkEvent EventDelete (EndpointObject ep)) (cs_endpoints checkedService)
        in (case evType of
              EventCreate \<Rightarrow> serviceEvent @ endpointEvents
            | EventDelete \<Rightarrow> endpointEvents @ serviceEvent
            | EventUpdate \<Rightarrow> endpointEvents))"

definition handleUpdateEvent ::
  "'w env \<Rightarrow> controllerOptions \<Rightarrow> k8sNamespace \<Rightarrow> eventType \<Rightarrow> ('w, effect list) state" where
  "handleUpdateEvent env opts namespace evType = do {
     r \<leftarrow> listServices env (ns_Name namespace);
     (case r of
        Inl e \<Rightarrow> State_Monad.return []
      | Inr items \<Rightarrow> do {
          checked \<leftarrow> State_Monad.traverse_list
            (\<lambda>service. checkService env service (co_ServiceAnnotations opts)) items;
          let namespaceEvent = [Send (mkEvent evType (NamespaceObject (ns_Name namespace)))];
          State_Monad.return
            ((if evType = EventCreate then namespaceEvent else [])
             @ map Send (concat (map (\<lambda>(s, c). serviceGroup evType (ns_Name namespace) s c) (zip items checked)))
             @ (if evType = EventDelete then namespaceEvent else []))
        })
   }"

definition namespaceUpdate ::
  "'w env \<Rightarrow> controllerOptions \<Rightarrow> kubeObject \<times> kubeObject \<Rightarrow> ('w, effect list) state" where
  "namespaceUpdate env opts ue =
     (case ue of
        (KNamespace cur, KNamespace old) \<Rightarrow>
          let watchNow = checkNsLabels (ns_Labels cur) (co_WatchNamespacesByDefault opts);
              watchedBefore = checkNsLabels (ns_Labels old) (co_WatchNamespacesByDefault opts)
          in do {
            effs \<leftarrow> (if watchedBefore \<and> watchNow then State_Monad.return []
                     else if watchedBefore \<and> \<not> watchNow then handleUpdateEvent env opts cur EventDelete
                     else if \<not> watchedBefore \<and> watchNow then handleUpdateEvent env opts cur EventCreate
                     else State_Monad.return []);
            State_Monad.return (effs @ [WqDone])
          }
      | _ \<Rightarrow> State_Monad.return [WqDone])"

definition namespaceDelete :: "'w env \<Rightarrow> controllerOptions \<Rightarrow> kubeObject \<Rightarrow> ('w, effect list) state" where
  "namespaceDelete env opts obj =
     (case obj of
        KNamespace namespace \<Rightarrow>
          if \<not> checkNsLabels (ns_Labels namespace) (co_WatchNamespacesByDefault opts)
          then State_Monad.return [WqDone]
          else do {
            effs \<leftarrow> handleUpdateEvent env opts namespace EventDelete;
            State_Monad.return (effs @ [WqDone])
          }
      | _ \<Rightarrow> State_Monad.return [WqDone])"

definition namespaceGeneric :: "'w env \<Rightarrow> controllerOptions \<Rightarrow> kubeObject \<Rightarrow> ('w, effect list) state" where
  "namespaceGeneric env opts obj = State_Monad.return [WqDone]"

section \<open>What is sent\<close>

definition namespaceEvents ::
  "eventType \<Rightarrow> string \<Rightarrow> (k8sService \<times> checkServiceResult) list \<Rightarrow> event list" where
  "namespaceEvents evType name checked =
     (if evType = EventCreate then [mkEvent evType (NamespaceObject name)] else [])
     @ concat (map (\<lambda>(s, c). serviceGroup evType name s c) checked)
     @ (if evType = EventDelete then [mkEvent evType (NamespaceObject name)] else [])"

text \<open>The services listed for a namespace, each with a result of its check.\<close>

definition listedServices ::
  "'w env \<Rightarrow> string list \<Rightarrow> string \<Rightarrow> (k8sService \<times> checkServiceResult) list \<Rightarrow> bool" where
  "listedServices env keep name checked \<longleftrightarrow>
     distinct (map (svc_Name \<circ> fst) checked)
     \<and> (\<forall>(s, c) \<in> set checked. svc_Namespace s = name \<and> checkSpec env s keep c)"

lemma handleUpdateEvent_sent:
  assumes "envLaws env"
  shows "pred_state (\<lambda>effs. effs = []
      \<or> (\<exists>checked. listedServices env (co_ServiceAnnotations opts) (ns_Name namespace) checked
           \<and> effs = map Send (namespaceEvents evType (ns_Name namespace) checked)))
    (handleUpdateEvent env opts namespace evType)"
  unfolding handleUpdateEvent_def
proof (rule pred_state_bind [where P = "\<lambda>r. case r of Inl e \<Rightarrow> True
    | Inr items \<Rightarrow> distinct (map svc_Name items) \<and> (\<forall>s \<in> set items. svc_Namespace s = ns_Name namespace)"])
  show "pred_state (\<lambda>r. case r of Inl e \<Rightarrow> True
    | Inr items \<Rightarrow> distinct (map svc_Name items) \<and> (\<forall>s \<in> set items. svc_Namespace s = ns_Name namespace))
    (listServices env (ns_Name namespace))"
    using assms by (simp add: envLaws_def)
next
  fix r :: "string + k8sService list"
  assume r: "case r of Inl e \<Rightarrow> True
    | Inr items \<Rightarrow> distinct (map svc_Name items) \<and> (\<forall>s \<in> set items. svc_Namespace s = ns_Name namespace)"
  have trav: "pred_state (list_all2 (\<lambda>s. checkSpec env s (co_ServiceAnnotations opts)) items)
      (State_Monad.traverse_list (\<lambda>service. checkService env service (co_ServiceAnnotations opts)) items)" for items
    by (rule pred_state_traverse_list) (rule checkService_spec [OF envLaws_visitsOnce [OF assms]])
  have listed: "listedServices env (co_ServiceAnnotations opts) (ns_Name namespace) (zip items checked)"
    if "r = Inr items" "list_all2 (\<lambda>s. checkSpec env s (co_ServiceAnnotations opts)) items checked" for items checked
    using that r unfolding listedServices_def
    by (auto simp: list_all2_iff map_map [symmetric] simp del: map_map dest: set_zip_leftD)
  show "pred_state (\<lambda>effs. effs = []
      \<or> (\<exists>checked. listedServices env (co_ServiceAnnotations opts) (ns_Name namespace) checked
           \<and> effs = map Send (namespaceEvents evType (ns_Name namespace) checked)))
    (case r of Inl e \<Rightarrow> State_Monad.return []
      | Inr items \<Rightarrow> do {
          checked \<leftarrow> State_Monad.traverse_list (\<lambda>service. checkService env service (co_ServiceAnnotations opts)) items;
          let namespaceEvent = [Send (mkEvent evType (NamespaceObject (ns_Name namespace)))];
          State_Monad.return
            ((if evType = EventCreate then namespaceEvent else [])
             @ map Send (concat (map (\<lambda>(s, c). serviceGroup evType (ns_Name namespace) s c) (zip items checked)))
             @ (if evType = EventDelete then namespaceEvent else []))
        })"
  proof (cases r)
    case (Inr items)
    have "\<exists>checked'. listedServices env (co_ServiceAnnotations opts) (ns_Name namespace) checked'
           \<and> (if evType = EventCreate then [Send (mkEvent evType (NamespaceObject (ns_Name namespace)))] else [])
             @ map Send (concat (map (\<lambda>(s, c). serviceGroup evType (ns_Name namespace) s c) (zip items checked)))
             @ (if evType = EventDelete then [Send (mkEvent evType (NamespaceObject (ns_Name namespace)))] else [])
             = map Send (namespaceEvents evType (ns_Name namespace) checked')"
      if "list_all2 (\<lambda>s. checkSpec env s (co_ServiceAnnotations opts)) items checked" for checked
      using listed [OF Inr that] by (intro exI [where x = "zip items checked"]) (simp add: namespaceEvents_def)
    then show ?thesis
      unfolding Inr sum.case Let_def by (intro pred_state_bind [OF trav]) (simp only: pred_state_return_iff, blast)
  qed simp
qed

section \<open>The contract of the namespace controller\<close>

lemma serviceGroup_deleted:
  "objectsOf EventDelete (serviceGroup t name s c) \<subseteq>
     range EndpointObject \<union> {ServiceObject name (svc_Name s)}"
  by (cases t) (auto simp: serviceGroup_def Let_def in_objectsOf_iff objectOf_def)

lemma wellOrdered_serviceGroup:
  assumes "endpointsOfService s (cs_endpoints c)" and "svc_Namespace s = name"
    and "NamespaceObject name \<notin> d" and "ServiceObject name (svc_Name s) \<notin> d"
    and "t = EventCreate \<Longrightarrow> NamespaceObject name \<in> cr"
  shows "wellOrdered cr d (serviceGroup t name s c)"
proof -
  let ?eps = "map (\<lambda>ep. mkEvent EventDelete (EndpointObject ep)) (cs_endpoints c)"
  have del: "objectsOf EventDelete ?eps = EndpointObject ` set (cs_endpoints c)"
    by (auto simp: in_objectsOf_iff)
  have "wellOrdered cr' d ?eps" for cr'
    using assms(1-4) by (intro wellOrdered_leaves) (auto simp: endpointsOfService_def del)
  then show ?thesis
    using assms by (cases t) (auto simp: serviceGroup_def wellOrdered_append del objectOf_def)
qed

lemma wellOrdered_serviceGroups:
  assumes "distinct (map (svc_Name \<circ> fst) checked)"
    and "\<And>s c. (s, c) \<in> set checked \<Longrightarrow> svc_Namespace s = name \<and> endpointsOfService s (cs_endpoints c)
           \<and> ServiceObject name (svc_Name s) \<notin> d"
    and "NamespaceObject name \<notin> d" and "t = EventCreate \<Longrightarrow> NamespaceObject name \<in> cr"
  shows "wellOrdered cr d (concat (map (\<lambda>(s, c). serviceGroup t name s c) checked))"
  using assms
proof (induction checked arbitrary: cr d)
  case (Cons sc checked)
  obtain s c where sc: "sc = (s, c)" by (cases sc)
  have "wellOrdered cr d (serviceGroup t name s c)"
    using Cons.prems sc by (intro wellOrdered_serviceGroup) auto
  moreover have "wellOrdered (cr \<union> objectsOf EventCreate (serviceGroup t name s c))
      (d \<union> objectsOf EventDelete (serviceGroup t name s c))
      (concat (map (\<lambda>(s, c). serviceGroup t name s c) checked))"
  proof (rule Cons.IH)
    show "distinct (map (svc_Name \<circ> fst) checked)" using Cons.prems(1) by (simp add: comp_def)
    show "NamespaceObject name \<notin> d \<union> objectsOf EventDelete (serviceGroup t name s c)"
      using Cons.prems(3) serviceGroup_deleted [of t name s c] by auto
    show "t = EventCreate \<Longrightarrow> NamespaceObject name \<in> cr \<union> objectsOf EventCreate (serviceGroup t name s c)"
      using Cons.prems(4) by simp
    fix s' c'
    assume s': "(s', c') \<in> set checked"
    with Cons.prems(1) sc have "svc_Name s' \<noteq> svc_Name s" by (force simp: image_iff)
    with s' Cons.prems(2) [of s' c'] serviceGroup_deleted [of t name s c]
    show "svc_Namespace s' = name \<and> endpointsOfService s' (cs_endpoints c')
        \<and> ServiceObject name (svc_Name s') \<notin> d \<union> objectsOf EventDelete (serviceGroup t name s c)"
      by auto
  qed
  ultimately show ?case by (simp add: sc wellOrdered_append)
qed simp

lemma namespaceEvents_ordered:
  assumes "listedServices env keep name checked"
  shows "wellOrdered {} {} (namespaceEvents t name checked)"
proof -
  have good: "svc_Namespace s = name \<and> endpointsOfService s (cs_endpoints c)" if "(s, c) \<in> set checked" for s c
    using assms that by (auto simp: listedServices_def intro: checkSpec_endpointsOfService)
  have "wellOrdered cr {} (concat (map (\<lambda>(s, c). serviceGroup t name s c) checked))"
    if "t = EventCreate \<Longrightarrow> NamespaceObject name \<in> cr" for cr
    using assms good that by (intro wellOrdered_serviceGroups) (auto simp: listedServices_def)
  then show ?thesis
    by (cases t) (auto simp: namespaceEvents_def wellOrdered_append objectOf_def)
qed

lemma namespaceEvents_namespace:
  assumes "listedServices env keep name checked" and "e \<in> set (namespaceEvents t name checked)"
  shows "getNamespaceNameFromEventObject e = name"
proof (cases "e \<in> set (concat (map (\<lambda>(s, c). serviceGroup t name s c) checked))")
  case True
  then obtain s c where sc: "(s, c) \<in> set checked" and e: "e \<in> set (serviceGroup t name s c)" by auto
  with assms(1) have "svc_Namespace s = name" "checkSpec env s keep c" by (auto simp: listedServices_def)
  then have "ep_Namespace ep = name" if "ep \<in> set (cs_endpoints c)" for ep
    using checkSpec_endpoints(1) that by blast
  with e show ?thesis
    by (cases t) (auto simp: serviceGroup_def Let_def getNamespaceNameFromEventObject_def split: if_splits)
next
  case False
  with assms(2) show ?thesis
    by (auto simp: namespaceEvents_def getNamespaceNameFromEventObject_def split: if_splits)
qed

text \<open>What both handlers do, whichever branch they take: nothing, or the events of one kind.\<close>

definition namespaceSends :: "'w env \<Rightarrow> string list \<Rightarrow> eventType \<Rightarrow> string \<Rightarrow> event list \<Rightarrow> bool" where
  "namespaceSends env keep t name es \<longleftrightarrow>
     es = [] \<or> (\<exists>checked. listedServices env keep name checked \<and> es = namespaceEvents t name checked)"

lemma namespaceSends_contract:
  assumes "namespaceSends env keep t name es"
  shows "wellOrdered {} {} es" "e \<in> set es \<Longrightarrow> getNamespaceNameFromEventObject e = name"
  using assms by (auto simp: namespaceSends_def intro: namespaceEvents_ordered dest: namespaceEvents_namespace)

abbreviation watchedBy :: "controllerOptions \<Rightarrow> k8sNamespace \<Rightarrow> bool" where
  "watchedBy opts ns \<equiv> checkNsLabels (ns_Labels ns) (co_WatchNamespacesByDefault opts)"

lemma handleUpdateEvent_done:
  assumes "envLaws env"
  shows "pred_state (\<lambda>effs. namespaceSends env (co_ServiceAnnotations opts) t (ns_Name ns) (sent (effs @ [WqDone])))
    (handleUpdateEvent env opts ns t)"
  by (rule pred_state_weaken [OF handleUpdateEvent_sent [OF assms]]) (auto simp: namespaceSends_def)

lemma namespaceUpdate_sent:
  assumes "envLaws env"
  shows "pred_state (\<lambda>effs. effs \<noteq> [] \<and> last effs = WqDone
      \<and> (if watchedBy opts old = watchedBy opts cur then sent effs = []
         else namespaceSends env (co_ServiceAnnotations opts)
           (if watchedBy opts cur then EventCreate else EventDelete) (ns_Name cur) (sent effs)))
    (namespaceUpdate env opts (KNamespace cur, KNamespace old))"
  unfolding namespaceUpdate_def
  by (auto simp: Let_def simp del: sent_append intro!: pred_state_bind [OF handleUpdateEvent_done [OF assms]])

lemma namespaceDelete_sent:
  assumes "envLaws env"
  shows "pred_state (\<lambda>effs. effs \<noteq> [] \<and> last effs = WqDone
      \<and> (if watchedBy opts ns then namespaceSends env (co_ServiceAnnotations opts) EventDelete (ns_Name ns) (sent effs)
         else sent effs = []))
    (namespaceDelete env opts (KNamespace ns))"
  unfolding namespaceDelete_def
  by (auto simp del: sent_append intro!: pred_state_bind [OF handleUpdateEvent_done [OF assms]])

fun sameNamespace :: "kubeObject \<times> kubeObject \<Rightarrow> bool" where
  "sameNamespace (KNamespace cur, KNamespace old) = (ns_Name cur = ns_Name old)"
| "sameNamespace _ = True"

lemma namespaceUpdate_other:
  "(\<nexists>cur old. ue = (KNamespace cur, KNamespace old)) \<Longrightarrow> namespaceUpdate env opts ue = State_Monad.return [WqDone]"
  by (cases "fst ue"; cases "snd ue"; cases ue) (auto simp: namespaceUpdate_def)

lemma namespaceDelete_other:
  "(\<nexists>ns. obj = KNamespace ns) \<Longrightarrow> namespaceDelete env opts obj = State_Monad.return [WqDone]"
  by (cases obj) (auto simp: namespaceDelete_def)

lemma namespaceUpdate_cases:
  obtains (update) cur old where "ue = (KNamespace cur, KNamespace old)"
    | (other) "\<nexists>cur old. ue = (KNamespace cur, KNamespace old)"
  by blast

interpretation namespaceUpdate: event_producer namespaceUpdate "\<lambda>ue. objectNamespace (fst ue)" sameNamespace
proof unfold_locales
  fix env :: "'a env" and ue opts
  assume laws: "envLaws env"
  note sends = pred_state_weaken [OF namespaceUpdate_sent [OF laws]]
  show "pred_state (\<lambda>effs. \<forall>e \<in> set (sent effs). getNamespaceNameFromEventObject e = objectNamespace (fst ue))
      (namespaceUpdate env opts ue)"
  proof (cases ue rule: namespaceUpdate_cases)
    case (update cur old)
    show ?thesis unfolding update fst_conv objectNamespace.simps
      by (intro sends) (auto split: if_splits dest: namespaceSends_contract(2))
  qed (simp add: namespaceUpdate_other)
  show "pred_state (\<lambda>effs. wellOrdered {} {} (sent effs)) (namespaceUpdate env opts ue)"
  proof (cases ue rule: namespaceUpdate_cases)
    case (update cur old)
    show ?thesis unfolding update
      by (intro sends) (auto split: if_splits intro: namespaceSends_contract(1))
  qed (simp add: namespaceUpdate_other)
  show "pred_state (\<lambda>effs. effs \<noteq> [] \<and> last effs = WqDone) (namespaceUpdate env opts ue)"
  proof (cases ue rule: namespaceUpdate_cases)
    case (update cur old)
    show ?thesis unfolding update by (intro sends) blast
  qed (simp add: namespaceUpdate_other)
qed

interpretation namespaceDelete: event_producer namespaceDelete objectNamespace "\<lambda>_. True"
proof unfold_locales
  fix env :: "'a env" and obj opts
  assume laws: "envLaws env"
  note sends = pred_state_weaken [OF namespaceDelete_sent [OF laws]]
  consider (delete) ns where "obj = KNamespace ns" | (other) "\<nexists>ns. obj = KNamespace ns" by blast
  note cases = this
  show "pred_state (\<lambda>effs. \<forall>e \<in> set (sent effs). getNamespaceNameFromEventObject e = objectNamespace obj)
      (namespaceDelete env opts obj)"
  proof (cases rule: cases)
    case (delete ns)
    show ?thesis unfolding delete objectNamespace.simps
      by (intro sends) (auto split: if_splits dest: namespaceSends_contract(2))
  qed (simp add: namespaceDelete_other)
  show "pred_state (\<lambda>effs. wellOrdered {} {} (sent effs)) (namespaceDelete env opts obj)"
  proof (cases rule: cases)
    case (delete ns)
    show ?thesis unfolding delete
      by (intro sends) (auto split: if_splits intro: namespaceSends_contract(1))
  qed (simp add: namespaceDelete_other)
  show "pred_state (\<lambda>effs. effs \<noteq> [] \<and> last effs = WqDone) (namespaceDelete env opts obj)"
  proof (cases rule: cases)
    case (delete ns)
    show ?thesis unfolding delete by (intro sends) blast
  qed (simp add: namespaceDelete_other)
qed

interpretation namespaceCreate: event_producer namespaceCreate objectNamespace "\<lambda>_. True"
  by unfold_locales (simp_all add: namespaceCreate_def)

section \<open>Properties\<close>


definition unwatchedNamespace :: k8sNamespace where
  "unwatchedNamespace = \<lparr>ns_Name = ''shop'', ns_Labels = fmempty\<rparr>"

lemma unwatchedNamespace_watched: "watchedBy exampleOptions unwatchedNamespace = False"
  by (simp add: checkNsLabels_def unwatchedNamespace_def watch_label_defs exampleOptions_def)

lemma startWatching_sends:
  "sent (fst (run_state (namespaceUpdate exampleEnv exampleOptions
     (KNamespace exampleNamespace, KNamespace unwatchedNamespace)) 0)) \<noteq> []"
  by (simp add: namespaceUpdate_def unwatchedNamespace_watched exampleNamespace_watched handleUpdateEvent_def
      exampleEnv_def split: prod.splits)

lemma exampleNamespace_Name: "ns_Name exampleNamespace = ''shop''"
  by (simp add: exampleNamespace_def)


text \<open>
  When a namespace becomes watched, its services are created but their endpoints are
  deleted: every event about an endpoint that the namespace controller sends is a deletion.
\<close>

theorem namespaceUpdate_deletes_endpoints:
  assumes "envLaws env"
  shows "pred_state (\<lambda>effs. \<forall>e \<in> set (sent effs). \<forall>ep. ev_Object e = EndpointObject ep \<longrightarrow> ev_EventType e = EventDelete)
    (namespaceUpdate env opts (KNamespace cur, KNamespace old))"
  by (rule pred_state_weaken [OF namespaceUpdate_sent [OF assms]])
    (fastforce simp: namespaceSends_def namespaceEvents_def serviceGroup_def Let_def split: if_splits eventType.splits)

lemma startWatching_endpoint:
  "\<exists>e \<in> set (sent (fst (run_state (namespaceUpdate exampleEnv exampleOptions
     (KNamespace exampleNamespace, KNamespace unwatchedNamespace)) 0))). \<exists>ep. ev_Object e = EndpointObject ep"
proof -
  have "svc_Ports exampleService = [80]" by (simp add: exampleService_def)
  moreover have "run_state (listServices exampleEnv (ns_Name exampleNamespace)) 0 = (Inr [exampleService], 0)"
    by (simp add: exampleEnv_def exampleNamespace_Name)
  ultimately show ?thesis
    by (simp add: namespaceUpdate_def unwatchedNamespace_watched exampleNamespace_watched handleUpdateEvent_def
        exampleOptions_keep exampleService_checked endpointsOf_def serviceGroup_def split: prod.splits)
qed

theorem namespaceUpdate_deletes_endpoints_witness:
  "\<exists>ep. mkEvent EventDelete (EndpointObject ep) \<in> set (sent (fst (run_state (namespaceUpdate exampleEnv exampleOptions
     (KNamespace exampleNamespace, KNamespace unwatchedNamespace)) 0)))"
  using pred_state_run_state [OF namespaceUpdate_deletes_endpoints [OF exampleEnv_laws,
      where opts = exampleOptions and old = unwatchedNamespace and cur = exampleNamespace], of 0] startWatching_endpoint
  by (metis event.surjective unit.exhaust)

end
