(* ===== verification/Operator_Configured.thy ===== *)
theory Operator_Configured
  imports Startup Operator_System Namespace_Controller
begin

text \<open>
  From the settings to the registry: the running operator with the metadata and the controllers that \<open>run\<close>
  has started it with.
\<close>

section \<open>What the controllers send\<close>

text \<open>A handler of a controller, given whatever object, runs in a world of the cluster, has effects and leaves a world.\<close>

inductive serviceHandles :: "'w env \<Rightarrow> controllerOptions \<Rightarrow> 'w \<Rightarrow> effect list \<Rightarrow> 'w \<Rightarrow> bool" for env opts where
  serviceCreated: "run_state (serviceCreate env opts obj) w = (effs, w') \<Longrightarrow> serviceHandles env opts w effs w'"
| serviceUpdated: "run_state (serviceUpdate env opts ue) w = (effs, w') \<Longrightarrow> serviceHandles env opts w effs w'"
| serviceDeleted: "run_state (serviceDelete env opts obj) w = (effs, w') \<Longrightarrow> serviceHandles env opts w effs w'"
| serviceOther: "run_state (serviceGeneric env opts obj) w = (effs, w') \<Longrightarrow> serviceHandles env opts w effs w'"

inductive namespaceHandles :: "'w env \<Rightarrow> controllerOptions \<Rightarrow> 'w \<Rightarrow> effect list \<Rightarrow> 'w \<Rightarrow> bool" for env opts where
  namespaceCreated: "run_state (namespaceCreate env opts obj) w = (effs, w') \<Longrightarrow> namespaceHandles env opts w effs w'"
| namespaceUpdated: "run_state (namespaceUpdate env opts ue) w = (effs, w') \<Longrightarrow> namespaceHandles env opts w effs w'"
| namespaceDeleted: "run_state (namespaceDelete env opts obj) w = (effs, w') \<Longrightarrow> namespaceHandles env opts w effs w'"
| namespaceOther: "run_state (namespaceGeneric env opts obj) w = (effs, w') \<Longrightarrow> namespaceHandles env opts w effs w'"

definition serviceEmits :: "'w env \<Rightarrow> controllerOptions \<Rightarrow> event \<Rightarrow> bool" where
  "serviceEmits env opts e \<longleftrightarrow> (\<exists>w effs w'. serviceHandles env opts w effs w' \<and> e \<in> set (sent effs))"

definition namespaceEmits :: "'w env \<Rightarrow> controllerOptions \<Rightarrow> event \<Rightarrow> bool" where
  "namespaceEmits env opts e \<longleftrightarrow> (\<exists>w effs w'. namespaceHandles env opts w effs w' \<and> e \<in> set (sent effs))"

text \<open>The metadata of an endpoint are allowed annotations, in whatever event it is sent.\<close>

definition allowedIn :: "string list \<Rightarrow> event \<Rightarrow> bool" where
  "allowedIn keep e \<longleftrightarrow>
     (case ev_Object e of EndpointObject ep \<Rightarrow> fset (fmdom (ep_Metadata ep)) \<subseteq> {key. annotationAllowed keep key} | _ \<Rightarrow> True)"

lemma aboutService_allowed: "aboutService s keep e \<Longrightarrow> allowedIn keep e"
  by (auto simp: aboutService_def allowedIn_def fmlookup_dom_iff split: registryObject.splits if_splits)

lemma serviceHandles_allowed:
  assumes "envLaws env" and "serviceHandles env opts w effs w'" and "e \<in> set (sent effs)"
  shows "allowedIn (co_ServiceAnnotations opts) e"
  using assms(2)
proof (cases rule: serviceHandles.cases)
  case (serviceCreated obj)
  then obtain s where s: "obj = KService s" using serviceCreate_other [of obj env opts] assms(3) by (cases obj) auto
  with pred_stateD [OF serviceCreate_about [OF assms(1)]] serviceCreated assms(3) show ?thesis
    by (blast intro: aboutService_allowed)
next
  case (serviceUpdated ue)
  then obtain cur old where ue: "ue = (KService cur, KService old)"
    using serviceUpdate_other [of ue env opts] assms(3) by fastforce
  from pred_stateD [OF serviceUpdate_sent [OF assms(1)]] serviceUpdated ue
  have "updateSends env (co_ServiceAnnotations opts) cur old (sent effs)" by blast
  from updateSends_about [OF this assms(3)] show ?thesis by (blast intro: aboutService_allowed)
qed (use assms(3) in \<open>auto simp: serviceDelete_def serviceGeneric_def\<close>)

lemma namespaceSends_allowed:
  assumes "namespaceSends env keep t name es" and "e \<in> set es"
  shows "allowedIn keep e"
proof -
  from assms obtain checked where c: "listedServices env keep name checked" "e \<in> set (namespaceEvents t name checked)"
    by (auto simp: namespaceSends_def)
  show ?thesis
  proof (cases "\<exists>ep. ev_Object e = EndpointObject ep")
    case True
    then obtain ep where ep: "ev_Object e = EndpointObject ep" by blast
    with c(2) obtain s r where sr: "(s, r) \<in> set checked" "e \<in> set (serviceGroup t name s r)"
      by (auto simp: namespaceEvents_def split: if_splits)
    then have "ep \<in> set (cs_endpoints r)" using ep by (cases t) (auto simp: serviceGroup_def Let_def split: if_splits)
    moreover have "checkSpec env s keep r" using c(1) sr(1) by (auto simp: listedServices_def)
    ultimately show ?thesis
      using checkSpec_endpoints(3) [of env s keep r ep] ep by (auto simp: allowedIn_def fmlookup_dom_iff split: if_splits)
  next
    case False
    then show ?thesis by (cases "ev_Object e") (auto simp: allowedIn_def)
  qed
qed

lemma namespaceHandles_allowed:
  assumes "envLaws env" and "namespaceHandles env opts w effs w'" and "e \<in> set (sent effs)"
  shows "allowedIn (co_ServiceAnnotations opts) e"
  using assms(2)
proof (cases rule: namespaceHandles.cases)
  case (namespaceUpdated ue)
  then obtain cur old where ue: "ue = (KNamespace cur, KNamespace old)"
    using namespaceUpdate_other [of ue env opts] assms(3) by fastforce
  from pred_stateD [OF namespaceUpdate_sent [OF assms(1)] namespaceUpdated [unfolded ue]] assms(3)
  have "\<exists>t name. namespaceSends env (co_ServiceAnnotations opts) t name (sent effs)" by (auto split: if_splits)
  with assms(3) show ?thesis by (blast intro: namespaceSends_allowed)
next
  case (namespaceDeleted obj)
  then obtain ns where ns: "obj = KNamespace ns" using namespaceDelete_other [of obj env opts] assms(3) by (cases obj) auto
  from pred_stateD [OF namespaceDelete_sent [OF assms(1)] namespaceDeleted [unfolded ns]] assms(3)
  have "\<exists>t name. namespaceSends env (co_ServiceAnnotations opts) t name (sent effs)" by (auto split: if_splits)
  with assms(3) show ?thesis by (blast intro: namespaceSends_allowed)
qed (use assms(3) in \<open>auto simp: namespaceCreate_def namespaceGeneric_def\<close>)

lemma emits_allowed:
  "envLaws env \<Longrightarrow> serviceEmits env opts e \<Longrightarrow> allowedIn (co_ServiceAnnotations opts) e"
  "envLaws env \<Longrightarrow> namespaceEmits env opts e \<Longrightarrow> allowedIn (co_ServiceAnnotations opts) e"
  unfolding serviceEmits_def namespaceEmits_def by (blast intro: serviceHandles_allowed namespaceHandles_allowed)+

section \<open>What the workers register\<close>

lemma progress_registers:
  assumes "progress n es st pc cs" and "RegisterCall t opts err \<in> set cs"
  shows "\<exists>e \<in> set es. ev_EventType e \<noteq> EventDelete \<and> eventTarget n (ev_Object e) = Some t
    \<and> opts = registerOptions n (ev_Object e)"
proof -
  from assms(1) obtain finished css part where cs: "cs = concat css @ part" "list_all2 (eventCalls n) finished css"
    and st: "case st of Handling e \<Rightarrow> es = finished @ [e] \<and> pcRun (eventStart n e) part = Some pc
            | _ \<Rightarrow> es = finished \<and> part = []" by (auto simp: progress_def)
  have "\<exists>e \<in> set es. \<exists>ds pc'. pcRun (eventStart n e) ds = Some pc' \<and> RegisterCall t opts err \<in> set ds"
  proof (cases "RegisterCall t opts err \<in> set part")
    case True
    with st show ?thesis by (cases st) auto
  next
    case False
    with assms(2) cs(1) obtain ds where ds: "ds \<in> set css" "RegisterCall t opts err \<in> set ds" by auto
    with cs(2) obtain e where "e \<in> set finished" "eventCalls n e ds"
      by (metis in_set_conv_nth list_all2_conv_all_nth)
    moreover have "set finished \<subseteq> set es" using st by (cases st) auto
    ultimately show ?thesis using ds(2) pcRun_eventCalls by blast
  qed
  then show ?thesis using pcRun_registers eventStart_register by metis
qed

lemma registered_from_event:
  assumes "operatorRun reg md (newOperator r) tr s" and "Call i (RegisterCall t opts err) \<in> set tr"
  shows "\<exists>n e. nw_persistentMeta n = md \<and> e \<in> set (produced tr) \<and> ev_EventType e \<noteq> EventDelete
    \<and> eventTarget n (ev_Object e) = Some t \<and> opts = registerOptions n (ev_Object e)"
proof -
  note i = operatorRun_worker(2) [OF assms]
  have "RegisterCall t opts err \<in> set (callsBy i tr)" using assms(2) by (simp add: callsBy_member)
  from progress_registers [OF operatorRun_worker(3) [OF assms(1) i] this] taken_produced [OF assms(1), of _ i]
  show ?thesis by (metis namespaceWorker.select_convs(2) workerOf_def)
qed

text \<open>The metadata of a registration: those of the operator win, and only an endpoint adds others.\<close>

lemma registered_metadata:
  assumes "metadataShape (nw_persistentMeta n)" and "allowedIn keep e"
  shows "fmlookup (givenMetadata (registerOptions n (ev_Object e))) ''owner'' = Some ''cnwan-operator''"
    and "fset (fmdom (givenMetadata (registerOptions n (ev_Object e)))) \<subseteq> {key. annotationAllowed keep key}
      \<union> {''owner'', ''cnwan.io/platform'', ''cnwan.io/network'', ''cnwan.io/sub-network''}"
  using assms
  by (cases "ev_Object e"; auto simp: metadataShape_def isOwnedByOperator_def allowedIn_def fmlookup_dom_iff)+

section \<open>Properties\<close>

text \<open>
  From the settings to the registry: whatever the started operator registers, in any interleaving and for
  whatever its controllers send, names the operator as owner, also if an annotation of the service says
  otherwise, and has no other keys than annotations allowed by the accepted settings
  and those of owner, platform and network.
\<close>

theorem started_registrations:
  assumes "run_state (run c x) p = (Started start, p')" and "envLaws env"
    and "operatorRun reg (os_persistentMeta start) (newOperator r) tr s"
    and "\<forall>e \<in> set (produced tr). \<exists>o1. os_serviceController start = Some o1 \<and> serviceEmits env o1 e
        \<or> os_namespaceController start = Some o1 \<and> namespaceEmits env o1 e"
    and "Call i (RegisterCall t opts err) \<in> set tr"
  shows "\<exists>content parsed st. yamlUnmarshal x content = Inr parsed \<and> ParseAndValidateSettings parsed = Inr st
    \<and> fmlookup (givenMetadata opts) ''owner'' = Some ''cnwan-operator''
    \<and> fset (fmdom (givenMetadata opts)) \<subseteq> {key. annotationAllowed (ss_Annotations (st_Service st)) key}
        \<union> {''owner'', ''cnwan.io/platform'', ''cnwan.io/network'', ''cnwan.io/sub-network''}"
proof -
  from pred_stateD [OF run_configured assms(1)] obtain content parsed st where
    st: "yamlUnmarshal x content = Inr parsed" "ParseAndValidateSettings parsed = Inr st" "startedWith st start" by auto
  obtain n e where n: "nw_persistentMeta n = os_persistentMeta start" "e \<in> set (produced tr)"
    "opts = registerOptions n (ev_Object e)" using registered_from_event [OF assms(3,5)] by blast
  have "allowedIn (ss_Annotations (st_Service st)) e"
    using assms(4) n(2) st(3) emits_allowed [OF assms(2)]
    unfolding startedWith_def by fastforce
  with registered_metadata [of n "ss_Annotations (st_Service st)" e] st n(1,3) show ?thesis
    unfolding startedWith_def by metis
qed

text \<open>The started operator registers the namespace of a service that passes.\<close>

definition exampleAnnotated :: k8sService where
  "exampleAnnotated = exampleService\<lparr>svc_Annotations := fmap_of_list [(''a/tier'', ''gold''), (''secret'', ''x'')]\<rparr>"

definition exampleStartOptions :: controllerOptions where
  "exampleStartOptions = \<lparr>co_WatchNamespacesByDefault = False, co_ServiceAnnotations = [''a/*'']\<rparr>"

definition exampleStartMeta :: "string gomap" where
  "exampleStartMeta = fmap_of_list [(''cnwan.io/platform'', ''GKE''), (''owner'', ''cnwan-operator'')]"

lemma exampleStarted_with:
  "(case fst (run_state (run exampleCloud exampleSdk) exampleProc) of
      Started os \<Rightarrow> os_persistentMeta os = exampleStartMeta \<and> os_serviceController os = Some exampleStartOptions
    | _ \<Rightarrow> False)"
  by code_simp

lemma exampleAnnotated_starts: "\<exists>rest w. serviceHandles exampleEnv exampleStartOptions 0 (effect.Send exampleEvent # rest) w"
proof -
  have kind: "svc_Type exampleAnnotated = serviceTypeLoadBalancer" "svc_Namespace exampleAnnotated = ''shop''"
    by (simp_all add: exampleAnnotated_def exampleService_def serviceTypeLoadBalancer_def)
  have order: "mapOrder exampleEnv = sortedOrder" by (simp add: exampleEnv_def)
  have anns: "run_state (filterAnnotations (sortedOrder :: nat map_order) (svc_Annotations exampleAnnotated) [''a/*'']) 0 =
      (fmap_of_list [(''a/tier'', ''gold'')], 0)" by code_simp
  have ips: "run_state (getIPsFromService exampleEnv exampleAnnotated 10) 0 = (Inr [''10.0.0.1'', ''192.0.2.7''], 3)" by code_simp
  have some: "fmap_of_list [(''a/tier'', ''gold'')] \<noteq> fmempty" by code_simp
  have found: "run_state (getNamespace exampleEnv ''shop'') w = (Inr exampleNamespace, w)" for w
    by (simp add: exampleEnv_def)
  obtain effs w where run: "run_state (serviceCreate exampleEnv exampleStartOptions (KService exampleAnnotated)) 0 = (effs, w)"
    by fastforce
  then have "\<exists>rest. effs = effect.Send exampleEvent # rest"
    by (auto simp: serviceCreate_def checkParentNamespace_def checkService_def found exampleNamespace_watched kind order some
        anns ips exampleStartOptions_def exampleEvent_def)
  with serviceCreated [OF run] show ?thesis by blast
qed

lemma exampleAnnotated_emits: "serviceEmits exampleEnv exampleStartOptions exampleEvent"
  using exampleAnnotated_starts unfolding serviceEmits_def by fastforce

definition startSchedule :: "schedule list" where
  "startSchedule = [Send exampleEvent, Do (Receive exampleEvent), Do (SendTo 0 exampleEvent), Do (Take 0 exampleEvent), CallOf 0]"

lemma startSchedule_runs:
  "case operateAll memoryClient exampleStartMeta startSchedule (newOperator fmempty) of
     None \<Rightarrow> False
   | Some (tr, s) \<Rightarrow> produced tr = [exampleEvent]
       \<and> callsBy 0 tr = [RegisterCall (NamespaceAt ''shop'') [WithMetadata exampleStartMeta] None]
       \<and> \<not> d_mainDone (op_dispatcher s)"
  by code_simp

theorem started_registrations_witness:
  "\<exists>start tr (s :: memory operator). fst (run_state (run exampleCloud exampleSdk) exampleProc) = Started start
     \<and> operatorRun (clientAnswers memoryClient) (os_persistentMeta start) (newOperator fmempty) tr s
     \<and> callsBy 0 tr = [RegisterCall (NamespaceAt ''shop'') [WithMetadata exampleStartMeta] None]
     \<and> fmlookup (givenMetadata [WithMetadata exampleStartMeta]) ''owner'' = Some ''cnwan-operator''"
proof -
  obtain start p' where start: "run_state (run exampleCloud exampleSdk) exampleProc = (Started start, p')"
    and given: "os_persistentMeta start = exampleStartMeta" "os_serviceController start = Some exampleStartOptions"
    using exampleStarted_with by (cases "run_state (run exampleCloud exampleSdk) exampleProc") (auto split: runResult.splits)
  obtain tr and s :: "memory operator" where
    op: "operateAll memoryClient exampleStartMeta startSchedule (newOperator fmempty) = Some (tr, s)"
    and tr: "produced tr = [exampleEvent]" "callsBy 0 tr = [RegisterCall (NamespaceAt ''shop'') [WithMetadata exampleStartMeta] None]"
    using startSchedule_runs by (auto split: option.splits)
  note run = operateAll_run [OF op, folded given(1)]
  have call: "Call 0 (RegisterCall (NamespaceAt ''shop'') [WithMetadata exampleStartMeta] None) \<in> set tr"
    by (simp add: callsBy_member tr(2))
  have "\<forall>e \<in> set (produced tr). \<exists>o1. os_serviceController start = Some o1 \<and> serviceEmits exampleEnv o1 e
      \<or> os_namespaceController start = Some o1 \<and> namespaceEmits exampleEnv o1 e"
    using exampleAnnotated_emits given(2) tr(1) by auto
  from started_registrations [OF start exampleEnv_laws run this call]
  have "fmlookup (givenMetadata [WithMetadata exampleStartMeta]) ''owner'' = Some ''cnwan-operator''" by blast
  with start run tr(2) show ?thesis by (intro exI [where x = start] exI [where x = tr] exI [where x = s]) simp
qed

end
