(* ===== verification/Operator_Progress.thy ===== *)
theory Operator_Progress
  imports Namespace_Order
begin

text \<open>
  The operator gets its work done: as long as it is not told to stop, it never gets stuck, and when the
  controllers have nothing more to send, it comes to rest after a bounded number of steps,
  in any order of them, with every event handled that was not lost with a worker.
\<close>

section \<open>Work\<close>

text \<open>The steps that handle events, each of which takes some of the work away.\<close>

fun forward :: "operatorAction \<Rightarrow> bool" where
  "forward (Call i cl) = True"
| "forward (Dispatch (Receive e)) = True"
| "forward (Dispatch (SendTo i e)) = True"
| "forward (Dispatch (Take i e)) = True"
| "forward (Dispatch (Finish i)) = True"
| "forward _ = False"

text \<open>
  An event in the channel has at most seven steps to go: it is received, sent to its worker and
  taken, three calls are made for it, and the handler returns.
\<close>

definition weight :: "namespaceWorkerData \<Rightarrow> workerPc \<Rightarrow> nat" where
  "weight w pc = 5 * length (wd_queue w) + (case wd_status w of Handling e \<Rightarrow> 1 + callsLeft pc | _ \<Rightarrow> 0)"

definition workLeft :: "'r operator \<Rightarrow> nat" where
  "workLeft s = 7 * length (op_channel s) + 6 * length (pending (op_dispatcher s))
     + (\<Sum>i < length (d_pool (op_dispatcher s)). weight (d_pool (op_dispatcher s) ! i) (op_pcs s i))"

lemma sum_one_changed:
  fixes f g :: "nat \<Rightarrow> nat"
  assumes "j < n" and "\<And>i. i < n \<Longrightarrow> i \<noteq> j \<Longrightarrow> g i = f i"
  shows "(\<Sum>i < n. g i) + f j = (\<Sum>i < n. f i) + g j"
proof -
  have "(\<Sum>i \<in> {..<n} - {j}. g i) = (\<Sum>i \<in> {..<n} - {j}. f i)" by (rule sum.cong) (use assms(2) in auto)
  moreover have "(\<Sum>i < n. g i) = g j + (\<Sum>i \<in> {..<n} - {j}. g i)" "(\<Sum>i < n. f i) = f j + (\<Sum>i \<in> {..<n} - {j}. f i)"
    using assms(1) by (simp_all add: sum.remove)
  ultimately show ?thesis by simp
qed

lemma weight_one_worker:
  assumes "j < length ws" and "\<And>i. i \<noteq> j \<Longrightarrow> pcs' i = pcs i"
  shows "(\<Sum>i < length ws. weight (ws[j := w] ! i) (pcs' i)) + weight (ws ! j) (pcs j)
    = (\<Sum>i < length ws. weight (ws ! i) (pcs i)) + weight w (pcs' j)"
  using sum_one_changed [OF assms(1), of "\<lambda>i. weight (ws[j := w] ! i) (pcs' i)" "\<lambda>i. weight (ws ! i) (pcs i)"] assms
  by simp

lemma workLeft_receive:
  assumes "chanRecv (op_channel s) = Some (e, q)" and "dispatchStep (op_dispatcher s) (Receive e) d"
  shows "workLeft (s\<lparr>op_channel := q, op_dispatcher := d\<rparr>) < workLeft s"
  using assms(2)
proof (cases rule: dispatchStep.cases)
  case skip
  with assms(1) show ?thesis by (simp add: workLeft_def chanRecv_Some)
next
  case (receive i d1)
  have "(\<Sum>i < length (d_pool d). weight (d_pool d ! i) (op_pcs s i))
      = (\<Sum>i < length (d_pool (op_dispatcher s)). weight (d_pool (op_dispatcher s) ! i) (op_pcs s i))"
    using receive(4) by (cases rule: getOrCreate_cases) (simp_all add: receive(1) nth_append weight_def)
  moreover have "pending d = [e]" "pending (op_dispatcher s) = []" by (simp_all add: pending_def receive(1,2))
  ultimately show ?thesis using assms(1) by (simp add: workLeft_def chanRecv_Some)
qed

lemma workLeft_worker:
  assumes "j < length (d_pool (op_dispatcher s))" and "d_pool d = (d_pool (op_dispatcher s))[j := w]"
    and "\<And>i. i \<noteq> j \<Longrightarrow> pcs i = op_pcs s i"
    and "6 * length (pending d) + weight w (pcs j)
      < 6 * length (pending (op_dispatcher s)) + weight (d_pool (op_dispatcher s) ! j) (op_pcs s j)"
  shows "workLeft (s\<lparr>op_dispatcher := d, op_pcs := pcs\<rparr>) < workLeft s"
  using weight_one_worker [OF assms(1), of pcs "op_pcs s" w] assms(2-4) by (simp add: workLeft_def)

lemma workLeft_forward:
  assumes "operatorStep reg md s a s'" and "forward a" and "dispatcherInv (op_dispatcher s)"
  shows "workLeft s' < workLeft s"
  using assms(1)
proof (cases rule: operatorStep.cases)
  case (receives e q d)
  with workLeft_receive show ?thesis by metis
next
  case (takes i e d)
  let ?w = "d_pool (op_dispatcher s) ! i"
  from takes(3) obtain q where i: "i < length (d_pool (op_dispatcher s))" "wd_status ?w = Idle" "wd_queue ?w = e # q"
    and d: "d = setWorker i (?w\<lparr>wd_queue := q, wd_status := Handling e\<rparr>) (op_dispatcher s)"
    by (auto simp: dispatchStep_simps chanRecv_Some)
  have "pending d = pending (op_dispatcher s)" by (simp add: d pending_def)
  then show ?thesis
    unfolding takes(2)
    by (intro workLeft_worker [OF i(1), where w = "?w\<lparr>wd_queue := q, wd_status := Handling e\<rparr>"]) (use i(2,3) callsLeft_eventStart [of "workerOf md ?w" e] in \<open>simp_all add: d weight_def\<close>)
next
  case (calls i e cl pc r)
  have "workLeft (s\<lparr>op_dispatcher := op_dispatcher s, op_pcs := (op_pcs s)(i := pc)\<rparr>) < workLeft s"
    by (rule workLeft_worker [OF calls(3), where w = "d_pool (op_dispatcher s) ! i"])
      (use calls(4) pcNext_callsLeft [OF calls(5)] in \<open>simp_all add: weight_def\<close>)
  then show ?thesis by (simp add: calls(2) workLeft_def)
next
  case (finishes i d)
  let ?w = "d_pool (op_dispatcher s) ! i"
  from finishes(4) obtain e where i: "i < length (d_pool (op_dispatcher s))" "wd_status ?w = Handling e"
    and d: "d = setWorker i (?w\<lparr>wd_status := Idle\<rparr>) (op_dispatcher s)" by (auto simp: dispatchStep_simps)
  have "pending d = pending (op_dispatcher s)" by (simp add: d pending_def)
  then have "workLeft (s\<lparr>op_dispatcher := d, op_pcs := op_pcs s\<rparr>) < workLeft s"
    by (intro workLeft_worker [OF i(1), where w = "?w\<lparr>wd_status := Idle\<rparr>"]) (use i(2) in \<open>simp_all add: d weight_def\<close>)
  then show ?thesis by (simp add: finishes(2))
next
  case (alone b d)
  from alone(1,3) assms(2) obtain i e where b: "b = SendTo i e" by (cases b) auto
  let ?d = "op_dispatcher s" let ?w = "d_pool ?d ! i"
  from alone(4) b have pc: "d_pc ?d = Sending i e"
    and d: "d = (setWorker i (?w\<lparr>wd_queue := wd_queue ?w @ [e], wd_lastEvent := Some (d_now ?d)\<rparr>) ?d)\<lparr>d_pc := Selecting\<rparr>"
    by (simp_all add: SendTo_iff)
  have i: "i < length (d_pool ?d)"
    using assms(3) pc mapInvD(1) by (fastforce simp: dispatcherInv_def pcInv_def)
  have "pending ?d = [e]" "pending d = []" by (simp_all add: pending_def pc) (simp add: d)
  then have "workLeft (s\<lparr>op_dispatcher := d, op_pcs := op_pcs s\<rparr>) < workLeft s"
    by (intro workLeft_worker [OF i, where w = "?w\<lparr>wd_queue := wd_queue ?w @ [e], wd_lastEvent := Some (d_now ?d)\<rparr>"])
      (simp_all add: d weight_def)
  then show ?thesis by (simp add: alone(2))
qed (use assms(2) in simp)

lemma workLeft_run:
  assumes "operatorRun reg md s tr s'" and "list_all forward tr" and "dispatcherInv (op_dispatcher s)"
  shows "length tr + workLeft s' \<le> workLeft s \<and> d_mainDone (op_dispatcher s') = d_mainDone (op_dispatcher s)"
  using assms
proof (induction rule: operatorRun.induct)
  case (more tr s1 a s2)
  then have "dispatcherInv (op_dispatcher s1)"
    using dispatcherInv_execution [OF operatorRun_dispatches [OF more(1)]] by simp
  with workLeft_forward [OF more(2)] more.prems have "workLeft s2 < workLeft s1" by simp
  moreover have "d_mainDone (op_dispatcher s2) = d_mainDone (op_dispatcher s1)"
    using more(2) more.prems(1)
    by (cases rule: operatorStep.cases)
      (auto elim!: dispatchStep.cases getOrCreate_cases simp: cleanUp_def cancelRequested_def)
  ultimately show ?case using more by simp
qed simp

section \<open>Rest\<close>

text \<open>Nothing is on its way, and every worker waits for events with an empty queue or has ended.\<close>

definition atRest :: "'r operator \<Rightarrow> bool" where
  "atRest s \<longleftrightarrow> op_channel s = [] \<and> pending (op_dispatcher s) = []
     \<and> (\<forall>w \<in> set (d_pool (op_dispatcher s)). wd_status w = Exited \<or> wd_status w = Idle \<and> wd_queue w = [])"

text \<open>A registry that answers every call, be it with an error.\<close>

definition answering :: "'r registry \<Rightarrow> bool" where
  "answering reg \<longleftrightarrow> (\<forall>r pc. pc \<noteq> AtEnd \<longrightarrow> (\<exists>cl pc' r'. pcNext pc cl = Some pc' \<and> reg r cl r'))"

lemma client_answering: "answering (clientAnswers c)"
  unfolding answering_def
proof (intro allI impI)
  fix r pc
  assume "pc \<noteq> AtEnd"
  then obtain cl r' where a: "answer c pc r = Some (cl, r')" "pcNext pc cl \<noteq> None"
    by (cases pc) (fastforce simp: answer_def split: prod.splits)+
  with answer_clientAnswers [OF a(1)] show "\<exists>cl pc' r'. pcNext pc cl = Some pc' \<and> clientAnswers c r cl r'" by blast
qed

definition settled :: "'r registry \<Rightarrow> string gomap \<Rightarrow> 'r operator \<Rightarrow> bool" where
  "settled reg md s \<longleftrightarrow> (\<forall>a s'. operatorStep reg md s a s' \<longrightarrow> \<not> forward a)"

lemma settledD: "settled reg md s \<Longrightarrow> operatorStep reg md s a s' \<Longrightarrow> \<not> forward a"
  unfolding settled_def by blast

lemma settled_worker:
  assumes "answering reg" and "settled reg md s"
    and "i < length (d_pool (op_dispatcher s))"
  shows "wd_status (d_pool (op_dispatcher s) ! i) = Exited
    \<or> wd_status (d_pool (op_dispatcher s) ! i) = Idle \<and> wd_queue (d_pool (op_dispatcher s) ! i) = []"
proof (cases "wd_status (d_pool (op_dispatcher s) ! i)")
  case Idle
  show ?thesis
  proof (cases "wd_queue (d_pool (op_dispatcher s) ! i)")
    case (Cons e q)
    then show ?thesis
      using settledD [OF assms(2) takes [OF take [OF assms(3) Idle, of e q]]] by simp
  qed (use Idle in simp)
next
  case (Handling e)
  show ?thesis
  proof (cases "op_pcs s i = AtEnd")
    case True
    then show ?thesis using settledD [OF assms(2) finishes [OF True finish [OF assms(3) Handling]]] by simp
  next
    case False
    then obtain cl pc r' where "pcNext (op_pcs s i) cl = Some pc" "reg (op_registry s) cl r'"
      using assms(1) unfolding answering_def by blast
    with settledD [OF assms(2) calls [OF assms(3) Handling]] show ?thesis by (metis forward.simps(1))
  qed
qed simp

lemma settled_atRest:
  assumes "answering reg" and "settled reg md s"
    and "dispatcherInv (op_dispatcher s)" and "\<not> d_mainDone (op_dispatcher s)"
  shows "atRest s"
proof -
  let ?d = "op_dispatcher s"
  note w = settled_worker [OF assms(1,2)]
  have "d_pc ?d \<noteq> Sending i e" for i e
  proof
    assume pc: "d_pc ?d = Sending i e"
    have look: "fmlookup (d_workers ?d) (getNamespaceNameFromEventObject e) = Some i" and m: "mapInv ?d"
      using assms(3) pc by (simp_all add: dispatcherInv_def pcInv_def)
    have i: "i < length (d_pool ?d)" "\<not> wd_canceled (d_pool ?d ! i)"
      using mapInvD(1,3) [OF m look] pc by auto
    with assms(3,4) have "wd_status (d_pool ?d ! i) \<noteq> Exited"
      by (auto simp: dispatcherInv_def workersInv_def workerOk_def)
    with w [OF i(1)] have "chanSend (wd_queue (d_pool ?d ! i)) e = Some [e]"
      by (auto simp: chanSend_def eventsChanSize_def)
    from settledD [OF assms(2) alone [OF _ send [OF pc this]]] show False by simp
  qed
  moreover have "d_pc ?d \<noteq> Waiting" "d_pc ?d \<noteq> Returned"
    using assms(3,4) by (auto simp: dispatcherInv_def pcInv_def)
  ultimately have pc: "d_pc ?d = Selecting" by (cases "d_pc ?d") auto
  have "op_channel s = []"
  proof (cases "op_channel s")
    case (Cons e q)
    obtain d where "dispatchStep ?d (Receive e) d"
      using skip [OF pc] receive [OF pc] by (metis surj_pair)
    with settledD [OF assms(2) receives] Cons show ?thesis by (metis chanRecv.simps(2) forward.simps(2))
  qed simp
  moreover have "pending ?d = []" by (simp add: pending_def pc)
  ultimately show ?thesis unfolding atRest_def using w by (metis in_set_conv_nth)
qed

text \<open>At rest after a calm run every queue is empty: no event was lost.\<close>

lemma atRest_absQueues:
  assumes "calmRun reg md (newOperator r) tr s" and "\<not> d_mainDone (op_dispatcher s)" and "atRest s"
  shows "absQueues s ns = []" and "\<not> busy (op_dispatcher s) ns e i"
proof -
  let ?d = "op_dispatcher s"
  have inv: "calmInv ?d" "workersInv ?d" "pcInv ?d"
    using calmRun_invariants [OF assms(1)] by (simp_all add: dispatcherInv_def)
  have "wd_queue (d_pool ?d ! i) = []" if "i < length (d_pool ?d)" for i
  proof (cases "wd_status (d_pool ?d ! i) = Exited")
    case True
    then have "wd_canceled (d_pool ?d ! i)"
      using inv(2) that assms(2) by (auto simp: workersInv_def workerOk_def)
    moreover have "d_pc ?d \<noteq> Waiting" "d_pc ?d \<noteq> Returned" using inv(3) assms(2) by (auto simp: pcInv_def)
    ultimately show ?thesis using calmInvD(2) [OF inv(1)] that by (simp add: quiet_def)
  next
    case False
    with assms(3) that show ?thesis by (auto simp: atRest_def dest: nth_mem)
  qed
  then have "poolQueue ns (d_pool ?d) = []"
    by (intro poolQueue_nil) (auto simp: in_set_conv_nth)
  with assms(3) show "absQueues s ns = []" by (simp add: absQueues_def atRest_def)
  show "\<not> busy ?d ns e i" using assms(3) nth_mem by (fastforce simp: busy_def atRest_def)
qed

context namespaced_contract
begin

lemma at_rest:
  assumes "calmRun reg md (newOperator r) tr s" and "\<not> d_mainDone (op_dispatcher s)" and "atRest s"
    and "meets reg view obeys" and "ns \<noteq> ''''"
  shows "handledInOrder obeys (nsWorker md ns) (ofNamespace ns (produced tr))
    (restrictTo ns (view r)) (restrictTo ns (view (op_registry s)))"
  using calmRun_fifo [OF assms(1,5)] serial [OF assms(1,4) atRest_absQueues(2) [OF assms(1-3)], where ns = ns]
    atRest_absQueues(1) [OF assms(1-3), of ns] by simp

end

section \<open>Properties\<close>

text \<open>
  The operator gets its work done: from any state that it can reach before it is told to stop,
  whatever the order in which received events are passed on, calls made and handlers ended, there
  are at most as many such steps as \<open>workLeft\<close> says, and after each of them either
  everything is at rest or another one is possible: neither the full queue of a worker nor a
  registry that fails can block the operator for ever.
\<close>

theorem operator_comes_to_rest:
  assumes "operatorRun reg md (newOperator r) tr s" and "\<not> d_mainDone (op_dispatcher s)" and "answering reg"
    and "operatorRun reg md s tr' s'" and "list_all forward tr'"
  shows "length tr' \<le> workLeft s \<and> (atRest s' \<or> (\<exists>a s''. operatorStep reg md s' a s'' \<and> forward a))"
proof -
  have inv: "dispatcherInv (op_dispatcher s)"
    using reachable_invariants [OF operatorRun_worker(1) [OF assms(1)]] by simp
  have "dispatcherInv (op_dispatcher s')"
    using dispatcherInv_execution [OF operatorRun_dispatches [OF assms(4)] inv] .
  then show ?thesis
    using workLeft_run [OF assms(4,5) inv] settled_atRest [OF assms(3)] assms(2) unfolding settled_def by auto
qed

lemma exampleSchedule_split:
  "(case operateAll memoryClient exampleOwner (take 3 exampleSchedule) (newOperator fmempty) of
      None \<Rightarrow> False
    | Some (tr, s) \<Rightarrow> \<not> d_mainDone (op_dispatcher s) \<and> workLeft s = 13
        \<and> (case operateAll memoryClient exampleOwner (filter (\<lambda>x. x \<noteq> Do CleanUp) (drop 3 exampleSchedule)) s of
              None \<Rightarrow> False
            | Some (tr', s') \<Rightarrow> length tr' = 11 \<and> list_all forward tr'))"
  by code_simp

theorem operator_comes_to_rest_witness:
  "\<exists>tr' (s :: memory operator) s'. operatorRun (clientAnswers memoryClient) exampleOwner s tr' s'
     \<and> length tr' = 11 \<and> length tr' \<le> workLeft s \<and> workLeft s = 13
     \<and> (atRest s' \<or> (\<exists>a s''. operatorStep (clientAnswers memoryClient) exampleOwner s' a s'' \<and> forward a))"
proof -
  obtain tr s where 1: "operateAll memoryClient exampleOwner (take 3 exampleSchedule) (newOperator fmempty) = Some (tr, s)"
    using exampleSchedule_split by (auto split: option.splits)
  then obtain tr' s' where 2: "operateAll memoryClient exampleOwner (filter (\<lambda>x. x \<noteq> Do CleanUp) (drop 3 exampleSchedule)) s = Some (tr', s')"
    using exampleSchedule_split by (auto split: option.splits)
  from 1 2 exampleSchedule_split have 3: "\<not> d_mainDone (op_dispatcher s)" "workLeft s = 13" "length tr' = 11" "list_all forward tr'"
    by simp_all
  from operator_comes_to_rest [OF operateAll_run [OF 1] 3(1) client_answering operateAll_run [OF 2] 3(4)]
  show ?thesis using 3 operateAll_run [OF 2] by metis
qed

text \<open>
  What the operator has done when it is at rest: after a calm run in which it was not told to stop, the
  part of the registry in each namespace is what one worker makes of it that handles all
  events the controllers have sent for this namespace, one after the other in their order.
\<close>

theorem atRest_all_handled:
  assumes "calmRun reg md (newOperator r) tr s" and "\<not> d_mainDone (op_dispatcher s)" and "atRest s"
    and "meets reg view callOk" and "ns \<noteq> ''''"
  shows "handledInOrder callOk (nsWorker md ns) (ofNamespace ns (produced tr))
    (restrictTo ns (view r)) (restrictTo ns (view (op_registry s)))"
  by (rule lawfulRegistry.at_rest [OF assms])

lemma exampleSchedule_rests:
  "(case operateCalm memoryClient exampleOwner exampleSchedule (newOperator fmempty) of
      None \<Rightarrow> False
    | Some (tr, s) \<Rightarrow> takenAll (dispatched tr) = [exampleEvent, exampleDeletion] \<and> op_registry s = fmempty
        \<and> \<not> d_mainDone (op_dispatcher s) \<and> atRest s)"
  by code_simp

theorem atRest_all_handled_witness:
  "\<exists>es. es \<noteq> [] \<and> handledInOrder callOk (nsWorker exampleOwner ''shop'') es (\<lambda>u. None) (\<lambda>u. None)"
proof -
  obtain tr s where run: "calmRun (clientAnswers memoryClient) exampleOwner (newOperator fmempty) tr s"
    and ex: "takenAll (dispatched tr) = [exampleEvent, exampleDeletion]" "op_registry s = fmempty"
    and rest: "\<not> d_mainDone (op_dispatcher s)" "atRest s"
  proof -
    obtain tr s where run: "operateCalm memoryClient exampleOwner exampleSchedule (newOperator fmempty) = Some (tr, s)"
      using exampleSchedule_rests by (auto split: option.splits)
    with exampleSchedule_rests operateCalm_run [OF run calm_none] that show thesis by simp
  qed
  have "ofNamespace ''shop'' [exampleEvent, exampleDeletion] = [exampleEvent, exampleDeletion]" by code_simp
  with calmRun_fifo [OF run, of "''shop''"] ex(1) have "ofNamespace ''shop'' (produced tr) \<noteq> []" by auto
  moreover have "restrictTo ''shop'' (fmlookup fmempty) = (\<lambda>u. None)" by (simp add: restrictTo_def fun_eq_iff)
  moreover have "handledInOrder callOk (nsWorker exampleOwner ''shop'') (ofNamespace ''shop'' (produced tr))
      (restrictTo ''shop'' (fmlookup fmempty)) (restrictTo ''shop'' (fmlookup (op_registry s)))"
    by (rule atRest_all_handled [OF run rest client_meets [OF memoryClient_laws]]) simp
  ultimately show ?thesis using ex(2) by auto
qed

end
