(* ===== verification/Operator_Runs.thy ===== *)
theory Operator_Runs
  imports Operator_Progress
begin

text \<open>
  Runs that exist: on a client as registry, the operator can serve any list of events of one
  namespace, one after the other, and is at rest afterwards.
\<close>

section \<open>Serving one event\<close>

text \<open>Nothing has come yet, or one worker waits for events of its namespace.\<close>

definition readyFor :: "string \<Rightarrow> 'r operator \<Rightarrow> bool" where
  "readyFor ns s \<longleftrightarrow> op_channel s = [] \<and> d_pc (op_dispatcher s) = Selecting \<and> \<not> d_mainDone (op_dispatcher s)
     \<and> (d_pool (op_dispatcher s) = [] \<and> d_workers (op_dispatcher s) = fmempty
        \<or> fmlookup (d_workers (op_dispatcher s)) ns = Some 0
           \<and> (\<exists>w. d_pool (op_dispatcher s) = [w] \<and> wd_queue w = [] \<and> wd_status w = Idle))"

lemma readyFor_new: "readyFor ns (newOperator r)"
  by (simp add: readyFor_def newOperator_def newEventHandler_def)

lemma readyFor_atRest: "readyFor ns s \<Longrightarrow> atRest s"
  by (auto simp: readyFor_def atRest_def pending_def)

text \<open>The calls for an event, made by the only worker.\<close>

lemma serve_calls:
  assumes "calmRun reg md s0 tr s" and "pcRun (op_pcs s 0) cs = Some AtEnd"
    and "answersAll reg (op_registry s) cs r'"
    and "d_pool (op_dispatcher s) = [w]" and "wd_status w = Handling e"
  shows "\<exists>tr' pcs. calmRun reg md s0 tr' (s\<lparr>op_pcs := pcs, op_registry := r'\<rparr>) \<and> pcs 0 = AtEnd
    \<and> produced tr' = produced tr"
  using assms
proof (induction cs arbitrary: s tr)
  case Nil
  then have "s\<lparr>op_pcs := op_pcs s, op_registry := r'\<rparr> = s" by simp
  with Nil show ?case by (intro exI [where x = tr] exI [where x = "op_pcs s"]) simp
next
  case (Cons cl cs)
  then obtain pc r1 where 1: "pcNext (op_pcs s 0) cl = Some pc" "pcRun pc cs = Some AtEnd"
    "reg (op_registry s) cl r1" "answersAll reg r1 cs r'" by (auto split: option.splits)
  let ?s1 = "s\<lparr>op_pcs := (op_pcs s)(0 := pc), op_registry := r1\<rparr>"
  have "operatorStep reg md s (Call 0 cl) ?s1"
    using calls [where s = s and i = 0 and cl = cl and pc = pc and r = r1] 1(1,3) Cons.prems(4,5) by simp
  then have "calmRun reg md s0 (tr @ [Call 0 cl]) ?s1" by (rule calm_more [OF Cons.prems(1)]) simp
  from Cons.IH [OF this] 1 Cons.prems(4,5) obtain tr' pcs where
    "calmRun reg md s0 tr' (?s1\<lparr>op_pcs := pcs, op_registry := r'\<rparr>)" "pcs 0 = AtEnd" "produced tr' = produced tr"
    by auto
  then show ?case by (intro exI [where x = tr'] exI [where x = pcs]) simp
qed

lemma calm_dispatch:
  "calmRun reg md s0 tr s1 \<Longrightarrow> operatorStep reg md s1 (Dispatch b) s2 \<Longrightarrow> b \<noteq> CleanUp \<Longrightarrow>
     calmRun reg md s0 (tr @ [Dispatch b]) s2"
  by (rule calm_more) (auto simp: calm_def)

lemma serve_event:
  assumes "calmRun (clientAnswers c) md s0 tr s" and "readyFor ns s"
    and "getNamespaceNameFromEventObject e = ns" and "ns \<noteq> ''''"
  shows "\<exists>tr' s'. calmRun (clientAnswers c) md s0 tr' s' \<and> readyFor ns s' \<and> produced tr' = produced tr @ [e]"
proof -
  let ?reg = "clientAnswers c" let ?d = "op_dispatcher s"
  have ready: "op_channel s = []" "d_pc ?d = Selecting" "\<not> d_mainDone ?d" using assms(2) by (simp_all add: readyFor_def)
  have "operatorStep ?reg md s (Produce e) (s\<lparr>op_channel := [e]\<rparr>)"
    by (rule produce) (simp add: operatorSend_def ready operatorChanSize_def)
  then have 1: "calmRun ?reg md s0 (tr @ [Produce e]) (s\<lparr>op_channel := [e]\<rparr>)" by (rule calm_more [OF assms(1)]) simp
  obtain d1 where d1: "getOrCreateNamespaceWorker ?d ns = (0, d1)" "fmlookup (d_workers d1) ns = Some 0"
      "d_pc d1 = Selecting" "\<not> d_mainDone d1" "\<exists>w. d_pool d1 = [w] \<and> wd_queue w = [] \<and> wd_status w = Idle"
    using assms(2) by (fastforce simp: readyFor_def getOrCreateNamespaceWorker_def)
  then obtain w where w: "d_pool d1 = [w]" "wd_queue w = []" "wd_status w = Idle" by blast
  let ?s2 = "s\<lparr>op_channel := [], op_dispatcher := d1\<lparr>d_pc := Sending 0 e\<rparr>\<rparr>"
  have "operatorStep ?reg md (s\<lparr>op_channel := [e]\<rparr>) (Dispatch (Receive e)) ?s2"
    using receives [of "s\<lparr>op_channel := [e]\<rparr>" e "[]" "d1\<lparr>d_pc := Sending 0 e\<rparr>"] receive [OF ready(2), of e 0 d1] d1(1) assms(3,4)
    by simp
  from calm_dispatch [OF 1 this] have 2: "calmRun ?reg md s0 (tr @ [Produce e, Dispatch (Receive e)]) ?s2" by simp
  define w3 where "w3 = w\<lparr>wd_queue := [e], wd_lastEvent := Some (d_now d1)\<rparr>"
  let ?s3 = "s\<lparr>op_channel := [], op_dispatcher := d1\<lparr>d_pool := [w3], d_pc := Selecting\<rparr>\<rparr>"
  have "dispatchStep (d1\<lparr>d_pc := Sending 0 e\<rparr>) (SendTo 0 e) (d1\<lparr>d_pool := [w3], d_pc := Selecting\<rparr>)"
    by (simp add: SendTo_iff w w3_def setWorker_def eventsChanSize_def)
  then have "operatorStep ?reg md ?s2 (Dispatch (SendTo 0 e)) ?s3"
    using alone [of "SendTo 0 e" ?s2] by simp
  from calm_dispatch [OF 2 this]
  have 3: "calmRun ?reg md s0 (tr @ [Produce e, Dispatch (Receive e), Dispatch (SendTo 0 e)]) ?s3" by simp
  define w4 where "w4 = w3\<lparr>wd_queue := [], wd_status := Handling e\<rparr>"
  let ?d4 = "d1\<lparr>d_pool := [w4], d_pc := Selecting\<rparr>"
  let ?s4 = "s\<lparr>op_channel := [], op_dispatcher := ?d4, op_pcs := (op_pcs s)(0 := eventStart (workerOf md w3) e)\<rparr>"
  have "dispatchStep (d1\<lparr>d_pool := [w3], d_pc := Selecting\<rparr>) (Take 0 e) ?d4"
    by (simp add: dispatchStep_simps w w3_def w4_def setWorker_def)
  then have "operatorStep ?reg md ?s3 (Dispatch (Take 0 e)) ?s4"
    using takes [of ?s3 0 e ?d4 ?reg md] by simp
  from calm_dispatch [OF 3 this]
  have 4: "calmRun ?reg md s0 (tr @ [Produce e, Dispatch (Receive e), Dispatch (SendTo 0 e), Dispatch (Take 0 e)]) ?s4" by simp
  obtain cs r' where "run_state (handleNamespacedEvent c (workerOf md w3) e) (op_registry s) = (cs, r')" by fastforce
  then have cs: "pcRun (op_pcs ?s4 0) cs = Some AtEnd" "answersAll ?reg (op_registry ?s4) cs r'"
    using handleNamespacedEvent_calls handled_answered by (fastforce simp: pcRun_eventCalls)+
  have w4: "d_pool (op_dispatcher ?s4) = [w4]" "wd_status w4 = Handling e" by (simp_all add: w4_def)
  have "produced [Produce e, Dispatch (Receive e), Dispatch (SendTo 0 e), Dispatch (Take 0 e)] = [e]"
    by (simp add: produced_def List.map_filter_def)
  with serve_calls [OF 4 cs w4] obtain tr5 pcs where
    5: "calmRun ?reg md s0 tr5 (?s4\<lparr>op_pcs := pcs, op_registry := r'\<rparr>)" "pcs 0 = AtEnd" "produced tr5 = produced tr @ [e]"
    by auto
  let ?s5 = "?s4\<lparr>op_pcs := pcs, op_registry := r'\<rparr>"
  let ?d6 = "setWorker 0 (w4\<lparr>wd_status := Idle\<rparr>) ?d4"
  have "operatorStep ?reg md ?s5 (Dispatch (Finish 0)) (?s5\<lparr>op_dispatcher := ?d6\<rparr>)"
    by (rule finishes) (simp_all add: 5(2) dispatchStep_simps w4_def)
  from calm_dispatch [OF 5(1) this]
  have "calmRun ?reg md s0 (tr5 @ [Dispatch (Finish 0)]) (?s5\<lparr>op_dispatcher := ?d6\<rparr>)" by simp
  moreover have "readyFor ns (?s5\<lparr>op_dispatcher := ?d6\<rparr>)"
    using d1 by (simp add: readyFor_def w4_def)
  ultimately show ?thesis using 5(3)
    by (intro exI [where x = "tr5 @ [Dispatch (Finish 0)]"] exI [where x = "?s5\<lparr>op_dispatcher := ?d6\<rparr>"]) simp
qed

lemma serve_events:
  assumes "\<And>e. e \<in> set es \<Longrightarrow> getNamespaceNameFromEventObject e = ns" and "ns \<noteq> ''''"
  shows "\<exists>tr s. calmRun (clientAnswers c) md (newOperator r) tr s \<and> \<not> d_mainDone (op_dispatcher s) \<and> atRest s
    \<and> produced tr = es"
proof -
  have "\<exists>tr s. calmRun (clientAnswers c) md (newOperator r) tr s \<and> readyFor ns s \<and> produced tr = es"
    using assms(1)
  proof (induction es rule: rev_induct)
    case Nil
    show ?case
      by (intro exI [where x = "[]"] exI [where x = "newOperator r"]) (simp add: calm_none readyFor_new)
  next
    case (snoc e es)
    then obtain tr s where "calmRun (clientAnswers c) md (newOperator r) tr s" "readyFor ns s" "produced tr = es" by auto
    with serve_event [OF this(1,2) _ assms(2), of e] snoc.prems show ?case by auto
  qed
  then obtain tr s where "calmRun (clientAnswers c) md (newOperator r) tr s" "readyFor ns s" "produced tr = es"
    by (elim exE conjE) (rule that)
  moreover from this have "\<not> d_mainDone (op_dispatcher s)" by (simp add: readyFor_def)
  ultimately show ?thesis using readyFor_atRest by blast
qed

end
