(* ===== verification/Lifecycle.thy ===== *)
theory Lifecycle
  imports Service_Controller Registry_Contract
begin

text \<open>
  The life of a service in the registry, from its creation to its deletion: what the service
  controller sends for both, carried out by the worker of its namespace on a registry that
  answers every call.
\<close>

section \<open>A registry that answers\<close>

definition reliable :: "'r client \<Rightarrow> ('r \<Rightarrow> contents) \<Rightarrow> bool" where
  "reliable c view \<longleftrightarrow> registryLaws c view
     \<and> (\<forall>t opts r. fst (run_state (register c t opts) r) = None)
     \<and> (\<forall>t r. view r t \<noteq> None \<longrightarrow> (\<exists>md. fst (run_state (get c t) r) = Inr md))
     \<and> (\<forall>t r. view r t \<noteq> None \<longrightarrow> fst (run_state (deregister c t) r) = None)
     \<and> (\<forall>t r. fst (run_state (listNext c t) r) \<in> {NextFound, NextDone})"

lemma reliableD:
  assumes "reliable c view"
  shows "registryLaws c view" "fst (run_state (register c t opts) r) = None"
    "view r t = Some md \<Longrightarrow> \<exists>md'. fst (run_state (get c t) r) = Inr md'"
    "view r t = Some md \<Longrightarrow> fst (run_state (deregister c t) r) = None"
    "fst (run_state (listNext c t) r) \<in> {NextFound, NextDone}"
  using assms unfolding reliable_def by auto

lemma memoryClient_reliable: "reliable memoryClient fmlookup"
  unfolding reliable_def
  by (intro conjI memoryClient_laws) (auto simp: memoryClient_def split: option.splits)

text \<open>\<open>ownedOrAbsent m t\<close>: nothing is at \<open>t\<close>, or something of the operator.\<close>

definition ownedOrAbsent :: "contents \<Rightarrow> target \<Rightarrow> bool" where
  "ownedOrAbsent m t \<longleftrightarrow> (\<forall>md. m t = Some md \<longrightarrow> isOwnedByOperator md)"

lemma reliable_wellAnswered:
  assumes "reliable c view"
  shows "meets (clientAnswers c) view wellAnswered"
  unfolding meets_def
proof (intro allI impI)
  fix r cl r'
  assume a: "clientAnswers c r cl r'"
  then have "callOk (view r) cl (view r')"
    using client_meets [OF reliableD(1) [OF assms]] unfolding meets_def by blast
  moreover have "answered (view r) cl"
    using a reliableD [OF assms] by (cases cl) (auto, (metis fst_conv)+)
  ultimately show "wellAnswered (view r) cl (view r')" by (simp add: wellAnswered_def)
qed

section \<open>One event\<close>

lemma register_event_carries:
  assumes "handledInOrder wellAnswered n [e] m m'" and "isOwnedByOperator (nw_persistentMeta n)"
    and "ev_EventType e \<noteq> EventDelete" and "eventTarget n (ev_Object e) = Some t"
  shows "\<exists>md. carries md (registerOptions n (ev_Object e)) \<and> isOwnedByOperator md \<and> m' = m(t \<mapsto> md)"
proof -
  let ?opts = "registerOptions n (ev_Object e)"
  from assms(1,3,4) have "registered m t ?opts m'"
    by (auto simp: handledInOrder_single eventCalls_def wellAnswered_def)
  moreover have "fmlookup (givenMetadata ?opts) ''owner'' = Some ''cnwan-operator''"
    using assms(2) by (cases "ev_Object e") (auto simp: isOwnedByOperator_def fmlookup_dom_iff)
  ultimately show ?thesis by (auto simp: registered_def carries_def isOwnedByOperator_def)
qed

lemma register_event:
  assumes "handledInOrder wellAnswered n [e] m m'" and "isOwnedByOperator (nw_persistentMeta n)"
    and "ev_EventType e \<noteq> EventDelete" and "eventTarget n (ev_Object e) = Some t"
  shows "\<exists>md. isOwnedByOperator md \<and> m' = m(t \<mapsto> md)"
  using register_event_carries [OF assms] by blast

text \<open>A deletion of an endpoint or of an empty service does what it says.\<close>

lemma delete_event:
  assumes "handledInOrder wellAnswered n [e] m m'" and "ev_EventType e = EventDelete"
    and "eventTarget n (ev_Object e) = Some t" and "ownedOrAbsent m t" and "childless m t"
    and "\<And>u. t \<in> enclosing u \<Longrightarrow> parent u = Some t"
  shows "m' = m(t := None)"
proof -
  from assms(1-3) obtain cs where cs: "deletionCalls t cs" "answersAll wellAnswered m cs m'"
    by (auto simp: handledInOrder_single eventCalls_def)
  from cs(1) consider (failed) e where "cs = [GetCall t (Inl e)]"
    | (foreign) md where "\<not> isOwnedByOperator md" "cs = [GetCall t (Inr md)]"
    | (stopped) md x where "x \<noteq> NextDone" "cs = [GetCall t (Inr md), ListCall t x]"
    | (gone) md err where "cs = [GetCall t (Inr md)] @ (if mayHold t then [ListCall t NextDone] else []) @ [DeregisterCall t err]"
    unfolding deletionCalls_def by blast
  then show ?thesis
  proof cases
    case failed
    with cs(2) have "m' = m" "m t = None" by (auto simp: wellAnswered_def)
    then show ?thesis by auto
  next
    case foreign
    with cs(2) assms(4) show ?thesis by (auto simp: wellAnswered_def ownedOrAbsent_def)
  next
    case stopped
    with cs(2) assms(5) show ?thesis by (cases x) (auto simp: wellAnswered_def)
  next
    case gone
    with cs(2) have "removed m t m'" by (cases err) (auto simp: wellAnswered_def split: if_splits)
    then show ?thesis
      using assms(5,6) unfolding removed_def childless_def fun_eq_iff fun_upd_apply by metis
  qed
qed

section \<open>Lists of endpoint events\<close>

definition endpointTargets :: "namespaceWorker \<Rightarrow> endpoint list \<Rightarrow> target set" where
  "endpointTargets n eps = (\<lambda>ep. EndpointAt (nw_namespace n) (ep_Service ep) (ep_Name ep)) ` set eps"

lemma register_endpoints:
  assumes "handledInOrder wellAnswered n (map (\<lambda>ep. mkEvent EventCreate (EndpointObject ep)) eps) m m'"
    and "isOwnedByOperator (nw_persistentMeta n)"
  shows "(\<forall>u. u \<notin> endpointTargets n eps \<longrightarrow> m' u = m u)
    \<and> (\<forall>u \<in> endpointTargets n eps. ownedOrAbsent m' u)"
  using assms(1)
proof (induction eps arbitrary: m)
  case (Cons ep eps)
  let ?e = "mkEvent EventCreate (EndpointObject ep)"
  from Cons.prems obtain m1 where 1: "handledInOrder wellAnswered n [?e] m m1"
    and 2: "handledInOrder wellAnswered n (map (\<lambda>ep. mkEvent EventCreate (EndpointObject ep)) eps) m1 m'"
    unfolding list.map by (rule handledInOrder_ConsE)
  obtain md where "isOwnedByOperator md"
    "m1 = m(EndpointAt (nw_namespace n) (ep_Service ep) (ep_Name ep) \<mapsto> md)"
    using register_event [OF 1 assms(2)] by auto
  with Cons.IH [OF 2] show ?case
    by (cases "EndpointAt (nw_namespace n) (ep_Service ep) (ep_Name ep) \<in> endpointTargets n eps")
      (auto simp: endpointTargets_def ownedOrAbsent_def)
qed (simp add: endpointTargets_def)

lemma delete_endpoints:
  assumes "handledInOrder wellAnswered n (map (\<lambda>ep. mkEvent EventDelete (EndpointObject ep)) eps) m m'"
    and "\<And>u. u \<in> endpointTargets n eps \<Longrightarrow> ownedOrAbsent m u"
  shows "m' = (\<lambda>u. if u \<in> endpointTargets n eps then None else m u)"
  using assms
proof (induction eps arbitrary: m)
  case (Cons ep eps)
  let ?t = "EndpointAt (nw_namespace n) (ep_Service ep) (ep_Name ep)" and ?e = "mkEvent EventDelete (EndpointObject ep)"
  from Cons.prems(1) obtain m1 where 1: "handledInOrder wellAnswered n [?e] m m1"
    and 2: "handledInOrder wellAnswered n (map (\<lambda>ep. mkEvent EventDelete (EndpointObject ep)) eps) m1 m'"
    unfolding list.map by (rule handledInOrder_ConsE)
  have outside: "?t \<notin> enclosing u" for u by (cases u) auto
  have "ownedOrAbsent m ?t" by (rule Cons.prems(2)) (simp add: endpointTargets_def)
  from delete_event [OF 1 _ _ this] outside have m1: "m1 = m(?t := None)" by simp
  have "m' = (\<lambda>u. if u \<in> endpointTargets n eps then None else m1 u)"
    by (rule Cons.IH [OF 2])
      (use Cons.prems(2) m1 in \<open>auto simp: endpointTargets_def ownedOrAbsent_def\<close>)
  then show ?case by (auto simp: m1 endpointTargets_def fun_eq_iff)
qed (simp add: endpointTargets_def)

section \<open>Creation and deletion\<close>

lemma create_delete_handled:
  assumes "handledInOrder wellAnswered n (createEvents s (cs_endpoints rc) @ deleteEvents s (cs_endpoints rd)) m m'"
    and "isOwnedByOperator (nw_persistentMeta n)" and "nw_namespace n = svc_Namespace s"
    and "endpointsOfService s (cs_endpoints rc)"
    and "set (cs_endpoints rd) = set (cs_endpoints rc)"
    and "m (ServiceAt (svc_Namespace s) (svc_Name s)) = None"
    and "childless m (ServiceAt (svc_Namespace s) (svc_Name s))"
  shows "\<exists>md. isOwnedByOperator md \<and> m' = m(NamespaceAt (svc_Namespace s) \<mapsto> md)"
proof -
  let ?ns = "NamespaceAt (svc_Namespace s)" and ?svc = "ServiceAt (svc_Namespace s) (svc_Name s)"
  let ?T = "endpointTargets n (cs_endpoints rc)"
  have same: "endpointTargets n (cs_endpoints rd) = ?T"
    using assms(5) by (simp add: endpointTargets_def)
  have parentT: "parent u = Some ?svc" if "u \<in> ?T" for u
    using that assms(3,4) by (auto simp: endpointTargets_def endpointsOfService_def)
  have absent: "m u = None" if "u \<in> ?T" for u
    using assms(7) parentT [OF that] by (simp add: childless_def)
  have "createEvents s (cs_endpoints rc) = [mkEvent EventCreate (NamespaceObject (svc_Namespace s))]
      @ [mkEvent EventCreate (ServiceObject (svc_Namespace s) (svc_Name s))]
      @ map (\<lambda>ep. mkEvent EventCreate (EndpointObject ep)) (cs_endpoints rc)"
    and "deleteEvents s (cs_endpoints rd) = map (\<lambda>ep. mkEvent EventDelete (EndpointObject ep)) (cs_endpoints rd)
      @ [mkEvent EventDelete (ServiceObject (svc_Namespace s) (svc_Name s))]"
    by (simp_all add: createEvents_def deleteEvents_def)
  with assms(1) obtain m1 m2 m3 m4 where
    1: "handledInOrder wellAnswered n [mkEvent EventCreate (NamespaceObject (svc_Namespace s))] m m1"
    and 2: "handledInOrder wellAnswered n [mkEvent EventCreate (ServiceObject (svc_Namespace s) (svc_Name s))] m1 m2"
    and 3: "handledInOrder wellAnswered n (map (\<lambda>ep. mkEvent EventCreate (EndpointObject ep)) (cs_endpoints rc)) m2 m3"
    and 4: "handledInOrder wellAnswered n (map (\<lambda>ep. mkEvent EventDelete (EndpointObject ep)) (cs_endpoints rd)) m3 m4"
    and 5: "handledInOrder wellAnswered n [mkEvent EventDelete (ServiceObject (svc_Namespace s) (svc_Name s))] m4 m'"
    by (simp only: handledInOrder_append) (elim exE conjE, rule that)
  obtain md1 where v1: "isOwnedByOperator md1" "m1 = m(?ns \<mapsto> md1)"
    using register_event [OF 1 assms(2)] assms(3) by auto
  obtain md2 where v2: "isOwnedByOperator md2" "m2 = m1(?svc \<mapsto> md2)"
    using register_event [OF 2 assms(2)] assms(3) by auto
  have v3: "u \<notin> ?T \<Longrightarrow> m3 u = m2 u" "u \<in> ?T \<Longrightarrow> ownedOrAbsent m3 u" for u
    using register_endpoints [OF 3 assms(2)] by auto
  have v4: "m4 = (\<lambda>u. if u \<in> ?T then None else m2 u)"
    using delete_endpoints [OF 4] v3 unfolding same by (auto simp: fun_eq_iff)
  have notT: "?svc \<notin> ?T" "?ns \<notin> ?T" using parentT by fastforce+
  have "childless m4 ?svc"
    using assms(7) v1 v2 unfolding childless_def v4 by (auto split: if_splits)
  moreover have "ownedOrAbsent m4 ?svc" using v2 notT by (simp add: ownedOrAbsent_def v4)
  moreover have "?svc \<in> enclosing u \<Longrightarrow> parent u = Some ?svc" for u by (cases u) auto
  ultimately have "m' = m4(?svc := None)"
    using delete_event [OF 5, of ?svc] assms(3) by simp
  then have "m' = m(?ns \<mapsto> md1)"
    using v1 v2 v4 notT absent assms(6) by (auto simp: fun_eq_iff)
  with v1(1) show ?thesis by blast
qed

text \<open>What the service controller sends for the creation and the deletion of a service.\<close>

lemma create_delete_sent:
  assumes "envLaws env"
    and "run_state (serviceCreate env opts (KService s)) w = (created, w1)" and "sent created \<noteq> []"
    and "run_state (handleDelete env opts s) w2 = (deleted, w3)" and "sent deleted \<noteq> []"
    and "ev_Object ` set (sent created) = insert (NamespaceObject (svc_Namespace s)) (ev_Object ` set (sent deleted))"
  shows "\<exists>(rc :: checkServiceResult) (rd :: checkServiceResult). sent created = createEvents s (cs_endpoints rc)
    \<and> sent deleted = deleteEvents s (cs_endpoints rd) \<and> endpointsOfService s (cs_endpoints rc)
    \<and> set (cs_endpoints rd) = set (cs_endpoints rc)"
proof -
  obtain rc where rc: "checkSpec env s (co_ServiceAnnotations opts) rc" "sent created = createEvents s (cs_endpoints rc)"
    using pred_stateD [OF serviceCreate_sent [OF assms(1)] assms(2)] assms(3) by auto
  obtain rd :: checkServiceResult where rd: "sent deleted = deleteEvents s (cs_endpoints rd)"
    using pred_stateD [OF handleDelete_sent [OF assms(1)] assms(4)] assms(5) by auto
  have "EndpointObject ` set (cs_endpoints rd) = EndpointObject ` set (cs_endpoints rc)"
    using assms(6) by (auto simp: rc(2) rd createEvents_def deleteEvents_def image_iff)
  then have "set (cs_endpoints rd) = set (cs_endpoints rc)" by (simp add: inj_image_eq_iff inj_def)
  with rc(2) rd checkSpec_endpointsOfService [OF rc(1)] show ?thesis by (intro exI conjI)
qed

section \<open>Properties\<close>

text \<open>
  Creation and deletion cancel out: if a service that is not registered, with nothing in it,
  is created and then deleted with the same endpoint names, and the worker of its namespace
  carries out what the controller sent, then afterwards the registry is what it was, but
  for the namespace, which is registered and owned by the operator.
\<close>

theorem created_then_deleted:
  assumes "envLaws env" and "reliable c view" and "isOwnedByOperator (nw_persistentMeta n)"
    and "nw_namespace n = svc_Namespace s"
    and "run_state (serviceCreate env opts (KService s)) w = (created, w1)" and "sent created \<noteq> []"
    and "run_state (handleDelete env opts s) w2 = (deleted, w3)" and "sent deleted \<noteq> []"
    and "ev_Object ` set (sent created) = insert (NamespaceObject (svc_Namespace s)) (ev_Object ` set (sent deleted))"
    and "view r (ServiceAt (svc_Namespace s) (svc_Name s)) = None"
    and "childless (view r) (ServiceAt (svc_Namespace s) (svc_Name s))"
    and "run_state (handleAll c n (sent created @ sent deleted)) r = (cs, r')"
  shows "\<exists>md. isOwnedByOperator md \<and> view r' = (view r)(NamespaceAt (svc_Namespace s) \<mapsto> md)"
proof -
  obtain rc rd :: checkServiceResult where sends: "sent created = createEvents s (cs_endpoints rc)"
    "sent deleted = deleteEvents s (cs_endpoints rd)" "endpointsOfService s (cs_endpoints rc)"
    "set (cs_endpoints rd) = set (cs_endpoints rc)"
    using create_delete_sent [OF assms(1,5-9)] by blast
  have "handledInOrder wellAnswered n (createEvents s (cs_endpoints rc) @ deleteEvents s (cs_endpoints rd)) (view r) (view r')"
    using handleAll_inOrder [OF reliable_wellAnswered [OF assms(2)] assms(12)] by (simp add: sends(1,2))
  from create_delete_handled [OF this assms(3,4) sends(3,4) assms(10,11)] show ?thesis .
qed

lemma exampleLifecycle:
  "\<exists>created w1 deleted w3.
     run_state (serviceCreate exampleEnv exampleOptions (KService exampleService)) 0 = (created, w1)
     \<and> run_state (handleDelete exampleEnv exampleOptions exampleService) 0 = (deleted, w3)
     \<and> length (sent created) = 4 \<and> length (sent deleted) = 3
     \<and> ev_Object ` set (sent created) = insert (NamespaceObject ''shop'') (ev_Object ` set (sent deleted))"
proof -
  define eps where "eps = endpointsOf exampleService (fmap_of_list [(''prefix.io/one'', ''1'')]) [''10.0.0.1'', ''192.0.2.7'']"
  have "svc_Ports exampleService = [80]" by (simp add: exampleService_def)
  then have two: "length eps = 2" by (simp add: eps_def length_endpointsOf)
  have "run_state (serviceCreate exampleEnv exampleOptions (KService exampleService)) 0 =
      (map Send (createEvents exampleService eps) @ [WqDone], 3)"
    by (simp add: serviceCreate_def checkParentNamespace_def exampleNamespace_found exampleNamespace_watched
        exampleOptions_keep exampleService_checked createEvents_def eps_def)
  moreover have "run_state (handleDelete exampleEnv exampleOptions exampleService) 0 =
      (map Send (deleteEvents exampleService eps), 3)"
    by (simp add: handleDelete_def checkParentNamespace_def exampleNamespace_found exampleNamespace_watched
        exampleOptions_keep exampleService_checked deleteEvents_def eps_def)
  moreover have "ev_Object ` set (createEvents exampleService eps) =
      insert (NamespaceObject ''shop'') (ev_Object ` set (deleteEvents exampleService eps))"
    by (simp add: createEvents_def deleteEvents_def image_image image_Un exampleService_def)
  moreover have "length (createEvents exampleService eps) = 4" "length (deleteEvents exampleService eps) = 3"
    using two by (simp_all add: createEvents_def deleteEvents_def)
  ultimately show ?thesis by simp
qed

theorem created_then_deleted_witness:
  "\<exists>es r'. length es = 7 \<and> snd (run_state (handleAll memoryClient exampleWorker es) fmempty) = r'
     \<and> fmlookup r' (NamespaceAt ''shop'') \<noteq> None \<and> fmlookup r' (ServiceAt ''shop'' ''web'') = None"
proof -
  obtain created w1 deleted w3 where
    ex: "run_state (serviceCreate exampleEnv exampleOptions (KService exampleService)) 0 = (created, w1)"
      "run_state (handleDelete exampleEnv exampleOptions exampleService) 0 = (deleted, w3)"
      "length (sent created) = 4" "length (sent deleted) = 3"
      "ev_Object ` set (sent created) = insert (NamespaceObject ''shop'') (ev_Object ` set (sent deleted))"
    using exampleLifecycle by (elim exE conjE) (rule that)
  obtain cs r' where run: "run_state (handleAll memoryClient exampleWorker (sent created @ sent deleted)) fmempty = (cs, r')"
    by fastforce
  have names: "svc_Namespace exampleService = ''shop''" "svc_Name exampleService = ''web''"
    by (simp_all add: exampleService_def)
  have worker: "isOwnedByOperator (nw_persistentMeta exampleWorker)" "nw_namespace exampleWorker = svc_Namespace exampleService"
    by (simp_all add: exampleWorker_def isOwnedByOperator_def names)
  have sends: "sent created \<noteq> []" "sent deleted \<noteq> []" using ex(3,4) by auto
  have empty: "fmlookup fmempty (ServiceAt (svc_Namespace exampleService) (svc_Name exampleService)) = None"
    "childless (fmlookup fmempty) (ServiceAt (svc_Namespace exampleService) (svc_Name exampleService))"
    by (simp_all add: childless_def)
  have "\<exists>md. isOwnedByOperator md \<and> fmlookup r' = (fmlookup fmempty)(NamespaceAt (svc_Namespace exampleService) \<mapsto> md)"
    by (rule created_then_deleted [OF exampleEnv_laws memoryClient_reliable worker ex(1) sends(1) ex(2) sends(2)
          ex(5) [folded names(1)] empty run])
  then obtain md where "fmlookup r' = (fmlookup fmempty)(NamespaceAt ''shop'' \<mapsto> md)"
    unfolding names by (elim exE conjE) (rule that)
  then have "fmlookup r' (NamespaceAt ''shop'') \<noteq> None" "fmlookup r' (ServiceAt ''shop'' ''web'') = None"
    by simp_all
  moreover have "length (sent created @ sent deleted) = 7" using ex(3,4) by simp
  moreover have "snd (run_state (handleAll memoryClient exampleWorker (sent created @ sent deleted)) fmempty) = r'"
    by (simp add: run)
  ultimately show ?thesis by (intro exI conjI)
qed

end
