(* ===== verification/Registry_Reflects.thy ===== *)
theory Registry_Reflects
  imports Operator_Runs Lifecycle
begin

text \<open>
  What is in the registry in the end. Whatever events the controllers send, and however they are
  interleaved, the last event about an object decides whether it is there and with which
  metadata, once the operator is at rest.
\<close>

section \<open>The last event about an object\<close>

definition about :: "namespaceWorker \<Rightarrow> target \<Rightarrow> event \<Rightarrow> bool" where
  "about n u e \<longleftrightarrow> eventTarget n (ev_Object e) = Some u"

definition lastAbout :: "namespaceWorker \<Rightarrow> target \<Rightarrow> event list \<Rightarrow> event option" where
  "lastAbout n u es = find (about n u) (rev es)"

text \<open>The only other event that can make an object disappear is a deletion of the namespace around it.\<close>

definition clears :: "namespaceWorker \<Rightarrow> target \<Rightarrow> event \<Rightarrow> bool" where
  "clears n u e \<longleftrightarrow> ev_EventType e = EventDelete \<and> u \<noteq> NamespaceAt (nw_namespace n)
     \<and> eventTarget n (ev_Object e) = Some (NamespaceAt (nw_namespace n))"

definition undisturbed :: "namespaceWorker \<Rightarrow> target \<Rightarrow> event list \<Rightarrow> bool" where
  "undisturbed n u es \<longleftrightarrow> list_all (\<lambda>e. \<not> clears n u e) (takeWhile (\<lambda>e. \<not> about n u e) (rev es))"

lemma lastAbout_simps [simp]:
  "lastAbout n u [] = None"
  "lastAbout n u (es @ [e]) = (if about n u e then Some e else lastAbout n u es)"
  by (simp_all add: lastAbout_def)

lemma lastAbout_append: "lastAbout n u (es @ es') = (case lastAbout n u es' of Some e \<Rightarrow> Some e | None \<Rightarrow> lastAbout n u es)"
  by (induction es' rule: rev_induct) (simp_all flip: append_assoc)

lemma undisturbed_simps [simp]:
  "undisturbed n u []"
  "undisturbed n u (es @ [e]) \<longleftrightarrow> about n u e \<or> \<not> clears n u e \<and> undisturbed n u es"
  by (simp_all add: undisturbed_def)

lemma undisturbedI: "(\<And>e. e \<in> set es \<Longrightarrow> \<not> clears n u e) \<Longrightarrow> undisturbed n u es"
  by (induction es rule: rev_induct) auto

lemma lastAbout_None: "lastAbout n u es = None \<longleftrightarrow> (\<forall>e \<in> set es. \<not> about n u e)"
  by (induction es rule: rev_induct) auto

lemma lastAbout_Some: "lastAbout n u es = Some e \<Longrightarrow> e \<in> set es \<and> about n u e"
  by (induction es rule: rev_induct) (auto split: if_splits)

lemma undisturbed_append: "lastAbout n u es' \<noteq> None \<Longrightarrow> undisturbed n u (es @ es') \<longleftrightarrow> undisturbed n u es'"
  by (induction es' rule: rev_induct) (auto simp flip: append_assoc split: if_splits)

text \<open>\<open>reflects n u es m m'\<close>: at \<open>u\<close> is in \<open>m'\<close> what the events \<open>es\<close> say, and what was in \<open>m\<close> if they say nothing.\<close>

definition reflects :: "namespaceWorker \<Rightarrow> target \<Rightarrow> event list \<Rightarrow> contents \<Rightarrow> contents \<Rightarrow> bool" where
  "reflects n u es m m' \<longleftrightarrow>
     (case lastAbout n u es of
        None \<Rightarrow> m' u = m u
      | Some e \<Rightarrow>
          if ev_EventType e = EventDelete then mayHold u \<or> m' u = None
          else \<exists>found. m' u = Some found \<and> carries found (registerOptions n (ev_Object e)) \<and> isOwnedByOperator found)"

lemma reflects_cong: "m1 u = m u \<Longrightarrow> m1' u = m' u \<Longrightarrow> reflects n u es m1 m1' \<longleftrightarrow> reflects n u es m m'"
  by (simp only: reflects_def)

section \<open>One event\<close>

lemma deletion_answered:
  assumes "deletionCalls t cs" and "answersAll wellAnswered m cs m'"
  shows "m' = m \<or> removed m t m' \<and> (mayHold t \<longrightarrow> childless m t)"
  using assms(1) unfolding deletionCalls_def
proof (elim disjE exE conjE)
  fix md x
  assume "x \<noteq> NextDone" and "cs = [GetCall t (Inr md), ListCall t x]"
  with assms(2) show ?thesis by (cases x) (auto simp: wellAnswered_def)
next
  fix md err
  assume "cs = [GetCall t (Inr md)] @ (if mayHold t then [ListCall t NextDone] else []) @ [DeregisterCall t err]"
  with assms(2) show ?thesis by (cases err) (auto simp: wellAnswered_def split: if_splits)
qed (use assms(2) in \<open>auto simp: wellAnswered_def\<close>)

text \<open>An event about another object leaves this one alone, if it does not delete the namespace around it.\<close>

lemma other_event:
  assumes "handledInOrder wellAnswered n [e] m m'" and "\<not> about n u e"
  shows "m' u = m u \<or> m' u = None \<and> clears n u e"
proof -
  from assms(1) obtain cs where cs: "eventCalls n e cs" "answersAll wellAnswered m cs m'"
    by (auto simp: handledInOrder_single)
  show ?thesis
  proof (cases "eventTarget n (ev_Object e)")
    case None
    with cs show ?thesis by (simp add: eventCalls_def)
  next
    case (Some t)
    with assms(2) have t: "t \<noteq> u" by (auto simp: about_def)
    show ?thesis
    proof (cases "ev_EventType e = EventDelete")
      case False
      with cs Some obtain err where "wellAnswered m (RegisterCall t (registerOptions n (ev_Object e)) err) m'"
        by (auto simp: eventCalls_def)
      with t show ?thesis by (cases err) (auto simp: wellAnswered_def registered_def)
    next
      case True
      with cs(1) Some have "deletionCalls t cs" by (simp add: eventCalls_def)
      with cs(2) have "m' = m \<or> removed m t m' \<and> (mayHold t \<longrightarrow> childless m t)"
        using deletion_answered by blast
      then show ?thesis
      proof (elim disjE conjE)
        assume gone: "removed m t m'" "mayHold t \<longrightarrow> childless m t"
        show ?thesis
        proof (cases "t \<in> enclosing u")
          case False
          with gone(1) t show ?thesis by (auto simp: removed_def)
        next
          case inside: True
          with gone(1) t have "m' u = m u \<or> m' u = None" by (auto simp: removed_def)
          moreover have "m u = None" if "parent u = Some t"
          proof -
            have "mayHold t" using that by (cases u) auto
            with gone(2) that show ?thesis by (auto simp: childless_def)
          qed
          moreover have "t = NamespaceAt (nw_namespace n)" "u \<noteq> NamespaceAt (nw_namespace n)" if "parent u \<noteq> Some t"
            using that inside eventTarget_namespace [OF Some] by (cases u; auto)+
          ultimately show ?thesis using True Some by (cases "parent u = Some t") (auto simp: clears_def)
        qed
      qed simp
    qed
  qed
qed

lemma about_event:
  assumes "handledInOrder wellAnswered n [e] m m'" and "about n u e"
    and "isOwnedByOperator (nw_persistentMeta n)" and "ownedOrAbsent m u"
  shows "reflects n u [e] m m' \<and> ownedOrAbsent m' u"
proof (cases "ev_EventType e = EventDelete")
  case False
  with register_event_carries [OF assms(1,3)] assms(2) show ?thesis
    by (auto simp: about_def reflects_def lastAbout_def ownedOrAbsent_def)
next
  case True
  have last: "lastAbout n u [e] = Some e" using assms(2) by (simp add: lastAbout_def)
  from assms(1,2) True obtain cs where "deletionCalls u cs" "answersAll wellAnswered m cs m'"
    by (auto simp: handledInOrder_single eventCalls_def about_def)
  with deletion_answered have kept: "m' = m \<or> m' u = None" by (fastforce simp: removed_def)
  have "mayHold u \<or> m' u = None"
  proof (cases u)
    case (EndpointAt ns s ep)
    with delete_event [OF assms(1) True] assms(2,4) show ?thesis by (simp add: about_def)
  qed simp_all
  with kept last True assms(4) show ?thesis by (auto simp: reflects_def ownedOrAbsent_def)
qed

section \<open>All events\<close>

lemma handled_reflects:
  assumes "handledInOrder wellAnswered n es m m'" and "isOwnedByOperator (nw_persistentMeta n)" and "ownedOrAbsent m u"
  shows "ownedOrAbsent m' u \<and> (undisturbed n u es \<longrightarrow> reflects n u es m m')"
  using assms(1)
proof (induction es arbitrary: m' rule: rev_induct)
  case Nil
  with assms(3) show ?case by (simp add: reflects_def)
next
  case (snoc e es)
  then obtain m1 where 1: "handledInOrder wellAnswered n es m m1" "handledInOrder wellAnswered n [e] m1 m'"
    unfolding handledInOrder_append by blast
  note IH = snoc.IH [OF 1(1)]
  show ?case
  proof (cases "about n u e")
    case True
    with about_event [OF 1(2) True assms(2)] IH show ?thesis
      by (simp add: reflects_def lastAbout_def)
  next
    case False
    note other = other_event [OF 1(2) False]
    have "ownedOrAbsent m' u" using other IH by (auto simp: ownedOrAbsent_def)
    moreover have "reflects n u (es @ [e]) m m'" if "undisturbed n u (es @ [e])"
    proof -
      from that False other have "m1 u = m' u" "undisturbed n u es" by auto
      with IH reflects_cong [of m u m m1 m' n es] False show ?thesis by (simp add: reflects_def)
    qed
    ultimately show ?thesis by blast
  qed
qed

lemma ownedOrAbsent_restrict: "ownedOrAbsent m u \<Longrightarrow> ownedOrAbsent (restrictTo ns m) u"
  by (auto simp: ownedOrAbsent_def restrictTo_def)

lemma operator_reflects:
  assumes "calmRun reg md (newOperator r) tr s" and "\<not> d_mainDone (op_dispatcher s)" and "atRest s"
    and "meets reg view wellAnswered" and "isOwnedByOperator md" and "ns \<noteq> ''''" and "targetNamespace u = ns"
    and "ownedOrAbsent (view r) u" and "undisturbed (nsWorker md ns) u (ofNamespace ns (produced tr))"
  shows "reflects (nsWorker md ns) u (ofNamespace ns (produced tr)) (view r) (view (op_registry s))"
proof -
  have "reflects (nsWorker md ns) u (ofNamespace ns (produced tr)) (restrictTo ns (view r)) (restrictTo ns (view (op_registry s)))"
    using handled_reflects [OF dependableRegistry.at_rest [OF assms(1-4,6)] _ ownedOrAbsent_restrict [OF assms(8)]] assms(5,9)
    by (simp add: nsWorker_def)
  then show ?thesis
    using reflects_cong [of "restrictTo ns (view r)" u "view r" "restrictTo ns (view (op_registry s))"] assms(7)
    by (simp add: restrictTo_def)
qed

section \<open>Properties\<close>

text \<open>
  C2. The last event wins: in a calm run that has come to rest, whatever the controllers sent in whatever
  interleaving, an object that was absent or owned by the operator is there, owned by the operator and with the metadata
  of its last event, if that was a creation or an update; an endpoint is gone if that was
  a deletion; and what no event was about is as it was. No deletion of the namespace may follow
  that last event.
\<close>

theorem last_event_wins:
  assumes "calmRun reg md (newOperator r) tr s" and "\<not> d_mainDone (op_dispatcher s)" and "atRest s"
    and "meets reg view wellAnswered" and "isOwnedByOperator md" and "targetNamespace u \<noteq> ''''"
    and "\<And>found. view r u = Some found \<Longrightarrow> isOwnedByOperator found"
    and "undisturbed (nsWorker md (targetNamespace u)) u (ofNamespace (targetNamespace u) (produced tr))"
  shows "case lastAbout (nsWorker md (targetNamespace u)) u (ofNamespace (targetNamespace u) (produced tr)) of
      None \<Rightarrow> view (op_registry s) u = view r u
    | Some e \<Rightarrow>
        if ev_EventType e = EventDelete then mayHold u \<or> view (op_registry s) u = None
        else \<exists>found. view (op_registry s) u = Some found \<and> isOwnedByOperator found
               \<and> carries found (registerOptions (nsWorker md (targetNamespace u)) (ev_Object e))"
proof -
  have "ownedOrAbsent (view r) u" using assms(7) by (simp add: ownedOrAbsent_def)
  from operator_reflects [OF assms(1-6) refl this assms(8)] show ?thesis
    unfolding reflects_def by (auto split: option.splits if_splits)
qed

definition exampleWeb :: "string \<Rightarrow> endpoint" where
  "exampleWeb tier = \<lparr>ep_Namespace = ''shop'', ep_Service = ''web'', ep_Name = ''web-0'', ep_Address = ''10.0.0.1'',
     ep_Port = 80, ep_Metadata = fmap_of_list [(''tier'', tier)]\<rparr>"

definition exampleEvents :: "event list" where
  "exampleEvents = [mkEvent EventCreate (EndpointObject (exampleWeb ''one'')), mkEvent EventCreate (ServiceObject ''shop'' ''web''),
     mkEvent EventUpdate (EndpointObject (exampleWeb ''two'')), mkEvent EventDelete (ServiceObject ''shop'' ''web'')]"

theorem last_event_wins_witness:
  "\<exists>tr (s :: memory operator). calmRun (clientAnswers memoryClient) exampleOwner (newOperator fmempty) tr s
     \<and> produced tr = exampleEvents
     \<and> (\<exists>found. fmlookup (op_registry s) (EndpointAt ''shop'' ''web'' ''web-0'') = Some found \<and> fmlookup found ''tier'' = Some ''two'')"
proof -
  let ?n = "nsWorker exampleOwner ''shop''" and ?u = "EndpointAt ''shop'' ''web'' ''web-0''"
  have own: "getNamespaceNameFromEventObject e = ''shop''" if "e \<in> set exampleEvents" for e
    using that by (auto simp: exampleEvents_def exampleWeb_def getNamespaceNameFromEventObject_def)
  obtain tr and s :: "memory operator" where run: "calmRun (clientAnswers memoryClient) exampleOwner (newOperator fmempty) tr s"
    "\<not> d_mainDone (op_dispatcher s)" "atRest s" and all: "produced tr = exampleEvents"
    using serve_events [where es = exampleEvents and ns = "''shop''" and c = memoryClient and md = exampleOwner and r = fmempty, OF own]
    by auto
  have only: "ofNamespace ''shop'' (produced tr) = exampleEvents" unfolding all using own by (simp add: ofNamespace_def filter_id_conv)
  have ex: "lastAbout ?n ?u exampleEvents = Some (mkEvent EventUpdate (EndpointObject (exampleWeb ''two''))) \<and> undisturbed ?n ?u exampleEvents"
    by code_simp
  have "isOwnedByOperator exampleOwner" by (simp add: exampleOwner_def isOwnedByOperator_def)
  from last_event_wins [OF run reliable_wellAnswered [OF memoryClient_reliable] this, of ?u] only ex
  obtain found where "fmlookup (op_registry s) ?u = Some found"
    "carries found (registerOptions ?n (EndpointObject (exampleWeb ''two'')))" by auto
  moreover from this(2) have "fmlookup found ''tier'' = Some ''two''"
    by (auto simp: carries_def exampleWeb_def nsWorker_def exampleOwner_def fmap_of_list.rep_eq)
  ultimately show ?thesis using run(1) all by blast
qed

end
