(* ===== verification/Controllers_Running.thy ===== *)
theory Controllers_Running
  imports Operator_Configured Registry_Reflects
begin

text \<open>
  The two controllers while the manager runs: each calls its handlers one after the other, in a goroutine of its own, and
  a handler reads from the cluster before it sends. Between the two, and between two sends, the other
  controller goes on. What they send together is what the running operator gets.
\<close>

section \<open>State and steps\<close>

text \<open>
  What is left of the effects of the handler that each controller is in, and the world of the
  cluster. The reads of a handler are one step with its start. A controller whose options are \<open>None\<close>
  was not created and starts no handler.
\<close>

record 'w controllers =
  ct_world :: 'w
  ct_service :: "effect list"
  ct_namespace :: "effect list"

definition idleControllers :: "'w \<Rightarrow> 'w controllers" where
  "idleControllers w = \<lparr>ct_world = w, ct_service = [], ct_namespace = []\<rparr>"

datatype controllerAction =
    ServiceStarts "effect list"
  | NamespaceStarts "effect list"
  | ServiceActs effect
  | NamespaceActs effect
  | ClusterChanges

inductive controllerStep ::
  "'w env \<Rightarrow> controllerOptions option \<Rightarrow> controllerOptions option \<Rightarrow> 'w controllers \<Rightarrow> controllerAction \<Rightarrow> 'w controllers \<Rightarrow> bool"
  for env so no where
  serviceStarts: "so = Some o1 \<Longrightarrow> ct_service s = [] \<Longrightarrow> serviceHandles env o1 (ct_world s) effs w \<Longrightarrow>
    controllerStep env so no s (ServiceStarts effs) (s\<lparr>ct_world := w, ct_service := effs\<rparr>)"
| namespaceStarts: "no = Some o1 \<Longrightarrow> ct_namespace s = [] \<Longrightarrow> namespaceHandles env o1 (ct_world s) effs w \<Longrightarrow>
    controllerStep env so no s (NamespaceStarts effs) (s\<lparr>ct_world := w, ct_namespace := effs\<rparr>)"
| serviceActs: "ct_service s = eff # effs \<Longrightarrow> controllerStep env so no s (ServiceActs eff) (s\<lparr>ct_service := effs\<rparr>)"
| namespaceActs: "ct_namespace s = eff # effs \<Longrightarrow> controllerStep env so no s (NamespaceActs eff) (s\<lparr>ct_namespace := effs\<rparr>)"
| clusterChanges: "controllerStep env so no s ClusterChanges (s\<lparr>ct_world := w\<rparr>)"

inductive controllersRun ::
  "'w env \<Rightarrow> controllerOptions option \<Rightarrow> controllerOptions option \<Rightarrow> 'w controllers \<Rightarrow> controllerAction list \<Rightarrow> 'w controllers \<Rightarrow> bool"
  for env so no s where
  resting: "controllersRun env so no s [] s"
| stepping: "controllersRun env so no s as s1 \<Longrightarrow> controllerStep env so no s1 a s2 \<Longrightarrow> controllersRun env so no s (as @ [a]) s2"

section \<open>History\<close>

text \<open>What was sent on the channel, by both and by each, and the effects of the handlers that were started.\<close>

fun emittedBy :: "controllerAction \<Rightarrow> event list" where
  "emittedBy (ServiceActs (effect.Send e)) = [e]"
| "emittedBy (NamespaceActs (effect.Send e)) = [e]"
| "emittedBy _ = []"

fun serviceSentBy :: "controllerAction \<Rightarrow> event list" where
  "serviceSentBy (ServiceActs (effect.Send e)) = [e]"
| "serviceSentBy _ = []"

fun namespaceSentBy :: "controllerAction \<Rightarrow> event list" where
  "namespaceSentBy (NamespaceActs (effect.Send e)) = [e]"
| "namespaceSentBy _ = []"

fun serviceStartedBy :: "controllerAction \<Rightarrow> effect list list" where
  "serviceStartedBy (ServiceStarts effs) = [effs]"
| "serviceStartedBy _ = []"

fun namespaceStartedBy :: "controllerAction \<Rightarrow> effect list list" where
  "namespaceStartedBy (NamespaceStarts effs) = [effs]"
| "namespaceStartedBy _ = []"

definition history :: "('b \<Rightarrow> 'a list) \<Rightarrow> 'b list \<Rightarrow> 'a list" where
  "history f as = concat (map f as)"

lemma history_simps [simp]: "history f [] = []" "history f (as @ bs) = history f as @ history f bs" "history f [a] = f a"
  by (simp_all add: history_def)

lemma shuffles_snoc:
  "zs \<in> shuffles xs ys \<Longrightarrow> zs @ [x] \<in> shuffles (xs @ [x]) ys \<and> zs @ [x] \<in> shuffles xs (ys @ [x])"
proof (induction xs ys arbitrary: zs rule: shuffles.induct)
  case (1 ys)
  have "ys @ [x] \<in> shuffles [x] ys" by (induction ys) auto
  with 1 show ?case by simp
next
  case (2 xs)
  have "xs @ [x] \<in> shuffles xs [x]" by (induction xs) auto
  with 2 show ?case by simp
next
  case (3 a as b bs)
  then show ?case by (cases zs) fastforce+
qed

definition handledBy :: "('w \<Rightarrow> effect list \<Rightarrow> 'w \<Rightarrow> bool) \<Rightarrow> effect list \<Rightarrow> bool" where
  "handledBy handles effs \<longleftrightarrow> (\<exists>w w'. handles w effs w')"

definition runInv :: "'w env \<Rightarrow> controllerOptions option \<Rightarrow> controllerOptions option \<Rightarrow> controllerAction list \<Rightarrow> 'w controllers \<Rightarrow> bool" where
  "runInv env so no as s \<longleftrightarrow>
     history emittedBy as \<in> shuffles (history serviceSentBy as) (history namespaceSentBy as)
     \<and> history serviceSentBy as @ sent (ct_service s) = concat (map sent (history serviceStartedBy as))
     \<and> history namespaceSentBy as @ sent (ct_namespace s) = concat (map sent (history namespaceStartedBy as))
     \<and> list_all (\<lambda>effs. \<exists>o1. so = Some o1 \<and> handledBy (serviceHandles env o1) effs) (history serviceStartedBy as)
     \<and> list_all (\<lambda>effs. \<exists>o1. no = Some o1 \<and> handledBy (namespaceHandles env o1) effs) (history namespaceStartedBy as)"

lemma runInv_step:
  assumes "controllerStep env so no s a s'" and "runInv env so no as s"
  shows "runInv env so no (as @ [a]) s'"
  using assms(1)
proof (cases rule: controllerStep.cases)
  case (serviceActs eff effs)
  with assms(2) shuffles_snoc [of "history emittedBy as" "history serviceSentBy as" "history namespaceSentBy as"]
  show ?thesis by (cases eff) (auto simp: runInv_def)
next
  case (namespaceActs eff effs)
  with assms(2) shuffles_snoc [of "history emittedBy as" "history serviceSentBy as" "history namespaceSentBy as"]
  show ?thesis by (cases eff) (auto simp: runInv_def)
qed (use assms(2) in \<open>auto simp: runInv_def handledBy_def\<close>)

lemma runInv_run: "controllersRun env so no (idleControllers w) as s \<Longrightarrow> runInv env so no as s"
  by (induction rule: controllersRun.induct) (simp add: runInv_def idleControllers_def, rule runInv_step)

text \<open>All that was sent is what some handler of one of the controllers sends.\<close>

lemma emitted_by_handlers:
  assumes "controllersRun env so no (idleControllers w) as s" and "e \<in> set (history emittedBy as)"
  shows "(\<exists>o1. so = Some o1 \<and> serviceEmits env o1 e) \<or> (\<exists>o1. no = Some o1 \<and> namespaceEmits env o1 e)"
proof -
  note inv = runInv_run [OF assms(1)]
  from inv assms(2) have "e \<in> set (history serviceSentBy as) \<or> e \<in> set (history namespaceSentBy as)"
    unfolding runInv_def using set_shuffles by fastforce
  then show ?thesis
  proof
    assume "e \<in> set (history serviceSentBy as)"
    with inv have "e \<in> set (concat (map sent (history serviceStartedBy as)))" unfolding runInv_def by (metis Un_iff set_append)
    with inv show ?thesis unfolding runInv_def serviceEmits_def handledBy_def list_all_iff by fastforce
  next
    assume "e \<in> set (history namespaceSentBy as)"
    with inv have "e \<in> set (concat (map sent (history namespaceStartedBy as)))" unfolding runInv_def by (metis Un_iff set_append)
    with inv show ?thesis unfolding runInv_def namespaceEmits_def handledBy_def list_all_iff by fastforce
  qed
qed

section \<open>A namespace that is no longer watched\<close>

text \<open>
  The cluster of the examples, in which the namespace stops being watched while the host name of the service
  is looked up.
\<close>

definition racingEnv :: "nat env" where
  "racingEnv = exampleEnv\<lparr>getNamespace := (\<lambda>name. State (\<lambda>n.
     (if name = ''shop'' then Inr (if n < 3 then exampleNamespace else unwatchedNamespace) else Inl ''not found'', n)))\<rparr>"

definition racingEndpoints :: "endpoint list" where
  "racingEndpoints = endpointsOf exampleService (fmap_of_list [(''prefix.io/one'', ''1'')]) [''10.0.0.1'', ''192.0.2.7'']"

lemma racingEnv_laws: "envLaws racingEnv"
  using exampleEnv_laws by (simp add: envLaws_def racingEnv_def)

lemma racing_checked:
  "\<exists>r w. run_state (checkService racingEnv exampleService [''prefix.io/*'']) 0 = (r, 3) \<and> cs_passed r \<and> cs_endpoints r = racingEndpoints"
  "\<exists>r w. run_state (checkService racingEnv exampleService [''prefix.io/*'']) 3 = (r, 4) \<and> cs_passed r \<and> cs_endpoints r = racingEndpoints"
proof -
  have kind: "svc_Type exampleService = serviceTypeLoadBalancer" by (simp add: exampleService_def serviceTypeLoadBalancer_def)
  have order: "mapOrder racingEnv = sortedOrder" by (simp add: racingEnv_def exampleEnv_def)
  have some: "fmap_of_list [(''prefix.io/one'', ''1'')] \<noteq> fmempty" by code_simp
  have anns: "run_state (filterAnnotations (sortedOrder :: nat map_order) (svc_Annotations exampleService) [''prefix.io/*'']) 3 =
      (fmap_of_list [(''prefix.io/one'', ''1'')], 3)" by code_simp
  have ips: "run_state (getIPsFromService racingEnv exampleService 10) 0 = (Inr [''10.0.0.1'', ''192.0.2.7''], 3)"
    "run_state (getIPsFromService racingEnv exampleService 10) 3 = (Inr [''10.0.0.1'', ''192.0.2.7''], 4)" by code_simp+
  show "\<exists>r w. run_state (checkService racingEnv exampleService [''prefix.io/*'']) 0 = (r, 3) \<and> cs_passed r \<and> cs_endpoints r = racingEndpoints"
    by (simp add: checkService_def kind order some exampleService_annotations ips racingEndpoints_def)
  show "\<exists>r w. run_state (checkService racingEnv exampleService [''prefix.io/*'']) 3 = (r, 4) \<and> cs_passed r \<and> cs_endpoints r = racingEndpoints"
    by (simp add: checkService_def kind order some anns ips racingEndpoints_def)
qed

lemma racing_service:
  "run_state (serviceCreate racingEnv exampleOptions (KService exampleService)) 0 =
     (map effect.Send (createEvents exampleService racingEndpoints) @ [WqDone], 3)"
proof -
  have shop: "svc_Namespace exampleService = ''shop''" by (simp add: exampleService_def)
  have found: "run_state (getNamespace racingEnv ''shop'') 0 = (Inr exampleNamespace, 0)" by (simp add: racingEnv_def)
  show ?thesis
    using racing_checked(1)
    by (auto simp: serviceCreate_def checkParentNamespace_def shop found exampleNamespace_watched exampleOptions_keep createEvents_def)
qed

lemma racing_namespace:
  "run_state (namespaceUpdate racingEnv exampleOptions (KNamespace unwatchedNamespace, KNamespace exampleNamespace)) 3 =
     (map effect.Send (deleteEvents exampleService racingEndpoints @ [exampleDeletion]) @ [WqDone], 4)"
proof -
  have list: "run_state (listServices racingEnv ''shop'') 3 = (Inr [exampleService], 3)" by (simp add: racingEnv_def exampleEnv_def)
  have "\<not> checkNsLabels (ns_Labels unwatchedNamespace) False"
    using unwatchedNamespace_watched by (simp add: exampleOptions_def)
  moreover have "ns_Name unwatchedNamespace = ''shop''" "co_WatchNamespacesByDefault exampleOptions = False" "svc_Namespace exampleService = ''shop''"
    by (simp_all add: unwatchedNamespace_def exampleNamespace_def exampleOptions_def exampleService_def)
  ultimately show ?thesis
    using racing_checked(2)
    by (auto simp: namespaceUpdate_def handleUpdateEvent_def list exampleNamespace_watched exampleOptions_keep Let_def
        serviceGroup_def deleteEvents_def exampleDeletion_def)
qed

lemma lastAbout_created_service:
  assumes "nw_namespace n = svc_Namespace s"
  shows "lastAbout n (ServiceAt (svc_Namespace s) (svc_Name s)) (createEvents s eps)
    = Some (mkEvent EventCreate (ServiceObject (svc_Namespace s) (svc_Name s)))"
proof -
  let ?u = "ServiceAt (svc_Namespace s) (svc_Name s)"
  have "lastAbout n ?u (map (\<lambda>ep. mkEvent EventCreate (EndpointObject ep)) eps) = None"
    by (auto simp: lastAbout_None about_def)
  then show ?thesis
    using lastAbout_append [of n ?u "[mkEvent EventCreate (NamespaceObject (svc_Namespace s)),
        mkEvent EventCreate (ServiceObject (svc_Namespace s) (svc_Name s))]"] assms
    by (simp add: createEvents_def lastAbout_def about_def)
qed

text \<open>One controller works off the effects of its handler while the other one waits.\<close>

lemma work_off:
  "controllersRun env so no s0 as s \<Longrightarrow> ct_service s = effs @ rest \<Longrightarrow>
     controllersRun env so no s0 (as @ map ServiceActs effs) (s\<lparr>ct_service := rest\<rparr>)"
  "controllersRun env so no s0 as s \<Longrightarrow> ct_namespace s = effs @ rest \<Longrightarrow>
     controllersRun env so no s0 (as @ map NamespaceActs effs) (s\<lparr>ct_namespace := rest\<rparr>)"
proof (induction effs arbitrary: as s)
  case Nil
  {
    case 1
    then have same: "s\<lparr>ct_service := rest\<rparr> = s" by (cases s) simp
    show ?case using 1(1) by (simp only: same list.map append_Nil2)
  next
    case 2
    then have same: "s\<lparr>ct_namespace := rest\<rparr> = s" by (cases s) simp
    show ?case using 2(1) by (simp only: same list.map append_Nil2)
  }
next
  case (Cons eff effs)
  {
    case 1
    from 1(2) have "ct_service s = eff # (effs @ rest)" by simp
    from Cons.IH(1) [OF stepping [OF 1(1) serviceActs [OF this]]] show ?case by simp
  next
    case 2
    from 2(2) have "ct_namespace s = eff # (effs @ rest)" by simp
    from Cons.IH(2) [OF stepping [OF 2(1) namespaceActs [OF this]]] show ?case by simp
  }
qed

lemma history_map_Send [simp]:
  "history emittedBy (map ServiceActs (map effect.Send es @ [WqDone])) = es"
  "history emittedBy (map NamespaceActs (map effect.Send es @ [WqDone])) = es"
  by (induction es) (auto simp: history_def)

lemma racing_run:
  "\<exists>as. controllersRun racingEnv (Some exampleOptions) (Some exampleOptions) (idleControllers 0) as (idleControllers 4)
     \<and> history emittedBy as =
         deleteEvents exampleService racingEndpoints @ [exampleDeletion] @ createEvents exampleService racingEndpoints"
proof -
  let ?creates = "map effect.Send (createEvents exampleService racingEndpoints) @ [WqDone]"
  let ?deletes = "map effect.Send (deleteEvents exampleService racingEndpoints @ [exampleDeletion]) @ [WqDone]"
  let ?run = "controllersRun racingEnv (Some exampleOptions) (Some exampleOptions) (idleControllers (0 :: nat))"
  let ?s1 = "(idleControllers (0 :: nat))\<lparr>ct_world := 3, ct_service := ?creates\<rparr>"
  let ?s2 = "?s1\<lparr>ct_world := 4, ct_namespace := ?deletes\<rparr>"
  have "controllerStep racingEnv (Some exampleOptions) (Some exampleOptions) (idleControllers 0) (ServiceStarts ?creates) ?s1"
    by (rule serviceStarts [OF refl]) (simp_all add: idleControllers_def serviceCreated [OF racing_service])
  then have "?run [ServiceStarts ?creates] ?s1" using stepping [OF resting] by fastforce
  moreover have "controllerStep racingEnv (Some exampleOptions) (Some exampleOptions) ?s1 (NamespaceStarts ?deletes) ?s2"
    by (rule namespaceStarts [OF refl]) (use namespaceUpdated [OF racing_namespace] in \<open>simp_all add: idleControllers_def\<close>)
  ultimately have "?run ([ServiceStarts ?creates] @ [NamespaceStarts ?deletes]) ?s2" by (rule stepping)
  from work_off(2) [OF this, of ?deletes "[]"]
  have "?run ([ServiceStarts ?creates, NamespaceStarts ?deletes] @ map NamespaceActs ?deletes) (?s2\<lparr>ct_namespace := []\<rparr>)" by simp
  from work_off(1) [OF this, of ?creates "[]"]
  have "?run (([ServiceStarts ?creates, NamespaceStarts ?deletes] @ map NamespaceActs ?deletes) @ map ServiceActs ?creates)
      (?s2\<lparr>ct_namespace := [], ct_service := []\<rparr>)" by simp
  moreover have "?s2\<lparr>ct_namespace := [], ct_service := []\<rparr> = idleControllers 4" by (simp add: idleControllers_def)
  moreover have "history emittedBy [ServiceStarts ?creates, NamespaceStarts ?deletes] = []" by (simp add: history_def)
  ultimately show ?thesis
    by (intro exI [where x = "([ServiceStarts ?creates, NamespaceStarts ?deletes] @ map NamespaceActs ?deletes) @ map ServiceActs ?creates"])
      (simp only: history_simps history_map_Send append_assoc append_Nil simp_thms)
qed

section \<open>Properties\<close>

text \<open>
  What reaches the channel of the operator is an interleaving of what the two controllers send, each in the
  order of its handlers, and of each handler in the order in which it sends; what is missing
  is what the handlers at work have still to send. Every event is one that a handler sends.
\<close>

theorem controllers_interleave:
  assumes "controllersRun env so no (idleControllers w) as s"
  shows "history emittedBy as \<in> shuffles (history serviceSentBy as) (history namespaceSentBy as)
    \<and> history serviceSentBy as @ sent (ct_service s) = concat (map sent (history serviceStartedBy as))
    \<and> history namespaceSentBy as @ sent (ct_namespace s) = concat (map sent (history namespaceStartedBy as))
    \<and> list_all (\<lambda>e. (\<exists>o1. so = Some o1 \<and> serviceEmits env o1 e) \<or> (\<exists>o1. no = Some o1 \<and> namespaceEmits env o1 e)) (history emittedBy as)"
  using runInv_run [OF assms] emitted_by_handlers [OF assms] by (auto simp: runInv_def list_all_iff)

theorem controllers_interleave_witness:
  "\<exists>as. history emittedBy as \<in> shuffles (history serviceSentBy as) (history namespaceSentBy as)
     \<and> exampleDeletion \<in> set (history emittedBy as)"
proof -
  obtain as where run: "controllersRun racingEnv (Some exampleOptions) (Some exampleOptions) (idleControllers 0) as (idleControllers 4)"
    and sends: "history emittedBy as =
         deleteEvents exampleService racingEndpoints @ [exampleDeletion] @ createEvents exampleService racingEndpoints"
    using racing_run by blast
  from controllers_interleave [OF run] sends show ?thesis by (intro exI [where x = as]) simp
qed

text \<open>
  A service that is created while its namespace stops being watched can stay registered: both controllers have
  done all their work, the namespace is not watched, the operator is at rest, and the service
  is in the registry. The handler for the creation had looked at the namespace before, and sends after the deletion.
\<close>

theorem unwatched_registered:
  "\<exists>env as s tr (st :: memory operator).
     controllersRun env (Some exampleOptions) (Some exampleOptions) (idleControllers (0 :: nat)) as s
     \<and> ct_service s = [] \<and> ct_namespace s = []
     \<and> run_state (checkParentNamespace env exampleOptions exampleService) (ct_world s) = ((False, None), ct_world s)
     \<and> exampleDeletion \<in> set (history emittedBy as)
     \<and> calmRun (clientAnswers memoryClient) exampleOwner (newOperator fmempty) tr st
     \<and> produced tr = history emittedBy as \<and> \<not> d_mainDone (op_dispatcher st) \<and> atRest st
     \<and> fmlookup (op_registry st) (ServiceAt ''shop'' ''web'') \<noteq> None"
proof -
  let ?n = "nsWorker exampleOwner ''shop''" and ?u = "ServiceAt ''shop'' ''web''"
  have names: "svc_Namespace exampleService = ''shop''" "svc_Name exampleService = ''web''" by (simp_all add: exampleService_def)
  obtain as where run: "controllersRun racingEnv (Some exampleOptions) (Some exampleOptions) (idleControllers 0) as (idleControllers 4)"
    and all_sends: "history emittedBy as =
         deleteEvents exampleService racingEndpoints @ [exampleDeletion] @ createEvents exampleService racingEndpoints"
    using racing_run by blast
  define before where "before = deleteEvents exampleService racingEndpoints @ [exampleDeletion]"
  have sends: "history emittedBy as = before @ createEvents exampleService racingEndpoints"
    by (simp add: all_sends before_def)
  have "ep_Namespace ep = ''shop''" if "ep \<in> set racingEndpoints" for ep
    using that by (auto simp: racingEndpoints_def set_endpointsOf endpointOf_def names)
  then have own: "getNamespaceNameFromEventObject e = ''shop''" if "e \<in> set (history emittedBy as)" for e
    using that unfolding sends
    by (auto simp: before_def deleteEvents_def createEvents_def exampleDeletion_def getNamespaceNameFromEventObject_def names)
  obtain tr and st :: "memory operator" where op: "calmRun (clientAnswers memoryClient) exampleOwner (newOperator fmempty) tr st"
    "\<not> d_mainDone (op_dispatcher st)" "atRest st" and all: "produced tr = history emittedBy as"
    using serve_events [where es = "history emittedBy as" and ns = "''shop''" and c = memoryClient
        and md = exampleOwner and r = fmempty, OF own] by auto
  have only: "ofNamespace ''shop'' (produced tr) = history emittedBy as"
    unfolding all using own by (simp add: ofNamespace_def filter_id_conv)
  have last: "lastAbout ?n ?u (createEvents exampleService racingEndpoints) = Some (mkEvent EventCreate (ServiceObject ''shop'' ''web''))"
    using lastAbout_created_service [of ?n exampleService] by (simp add: names nsWorker_def)
  moreover have "undisturbed ?n ?u (createEvents exampleService racingEndpoints)"
    by (rule undisturbedI) (auto simp: createEvents_def clears_def)
  ultimately have "undisturbed ?n ?u (history emittedBy as)" "lastAbout ?n ?u (history emittedBy as) = Some (mkEvent EventCreate (ServiceObject ''shop'' ''web''))"
    unfolding sends by (simp_all add: undisturbed_append lastAbout_append)
  moreover have "isOwnedByOperator exampleOwner" "ownedOrAbsent (fmlookup fmempty) ?u"
    by (simp_all add: exampleOwner_def isOwnedByOperator_def ownedOrAbsent_def)
  ultimately have "fmlookup (op_registry st) ?u \<noteq> None"
    using operator_reflects [OF op reliable_wellAnswered [OF memoryClient_reliable], of "''shop''" ?u] only
    by (auto simp: reflects_def)
  moreover have "run_state (checkParentNamespace racingEnv exampleOptions exampleService) 4 = ((False, None), 4)"
    using unwatchedNamespace_watched by (simp add: checkParentNamespace_def racingEnv_def names)
  moreover have "exampleDeletion \<in> set (history emittedBy as)" by (simp add: sends before_def)
  ultimately show ?thesis using run op all by (intro exI conjI) (auto simp: idleControllers_def)
qed

end
