(* ===== verification/Shutdown.thy ===== *)
theory Shutdown
  imports Main
begin

text \<open>
  The end of \<open>run\<close> in \<open>main.go\<close>: the main goroutine waits for a signal and then for the channel
  \<open>exitChan\<close>, which the goroutine of the dispatcher closes when \<open>WatchForEvents\<close> returns and
  the goroutine of the manager when it ends. Closing it a second time panics and ends the
  process.
\<close>

section \<open>Model\<close>

datatype mainPc = AwaitSignal | AwaitExit | MainReturned

text \<open>A goroutine runs, then closes \<open>exitChan\<close>, then has ended.\<close>

datatype goroutine = GoRunning | GoClosing | GoEnded

record process =
  ps_main :: mainPc
  ps_watcher :: goroutine
  ps_manager :: goroutine
  ps_signalled :: bool
  ps_watchDone :: bool
  ps_ctxDone :: bool
  ps_exitClosed :: bool
  ps_panicked :: bool

definition startedProcess :: process where
  "startedProcess = \<lparr>ps_main = AwaitSignal, ps_watcher = GoRunning, ps_manager = GoRunning,
     ps_signalled = False, ps_watchDone = False, ps_ctxDone = False, ps_exitClosed = False, ps_panicked = False\<rparr>"

definition closeExit :: "process \<Rightarrow> process" where
  "closeExit p = (if ps_exitClosed p then p\<lparr>ps_panicked := True\<rparr> else p\<lparr>ps_exitClosed := True\<rparr>)"

text \<open>
  The steps: the signal comes; the main goroutine gets it and cancels the context of the
  dispatcher; \<open>WatchForEvents\<close> returns once that context, or the one above it, is done, and its
  goroutine closes the channel; \<open>manager.Start\<close> returns, with an error at any time or when its
  context is done, and its goroutine closes the channel; the main goroutine sees the closed
  channel and returns, which cancels the context of the manager. Nothing runs after a panic.
\<close>

datatype processAction = Signal | GetSignal | WatchReturns | WatcherCloses | ManagerReturns | ManagerCloses | MainExits

fun processStep :: "processAction \<Rightarrow> process \<Rightarrow> process option" where
  "processStep a p =
     (if ps_panicked p then None
      else case a of
        Signal \<Rightarrow> Some (p\<lparr>ps_signalled := True\<rparr>)
      | GetSignal \<Rightarrow>
          if ps_main p = AwaitSignal \<and> ps_signalled p
          then Some (p\<lparr>ps_main := AwaitExit, ps_watchDone := True\<rparr>) else None
      | WatchReturns \<Rightarrow>
          if ps_watcher p = GoRunning \<and> (ps_watchDone p \<or> ps_ctxDone p)
          then Some (p\<lparr>ps_watcher := GoClosing\<rparr>) else None
      | WatcherCloses \<Rightarrow>
          if ps_watcher p = GoClosing then Some (closeExit (p\<lparr>ps_watcher := GoEnded\<rparr>)) else None
      | ManagerReturns \<Rightarrow>
          if ps_manager p = GoRunning then Some (p\<lparr>ps_manager := GoClosing\<rparr>) else None
      | ManagerCloses \<Rightarrow>
          if ps_manager p = GoClosing then Some (closeExit (p\<lparr>ps_manager := GoEnded\<rparr>)) else None
      | MainExits \<Rightarrow>
          if ps_main p = AwaitExit \<and> ps_exitClosed p
          then Some (p\<lparr>ps_main := MainReturned, ps_ctxDone := True\<rparr>) else None)"

inductive processRun :: "processAction list \<Rightarrow> process \<Rightarrow> bool" where
  initial: "processRun [] startedProcess"
| again: "processRun as p \<Longrightarrow> processStep a p = Some p' \<Longrightarrow> processRun (as @ [a]) p'"

section \<open>Invariant\<close>

definition processInv :: "process \<Rightarrow> bool" where
  "processInv p \<longleftrightarrow>
     (ps_exitClosed p \<longleftrightarrow> ps_watcher p = GoEnded \<or> ps_manager p = GoEnded)
     \<and> (ps_panicked p \<longleftrightarrow> ps_watcher p = GoEnded \<and> ps_manager p = GoEnded)
     \<and> (ps_main p \<noteq> AwaitSignal \<longrightarrow> ps_signalled p)
     \<and> (ps_watchDone p \<longrightarrow> ps_signalled p) \<and> (ps_ctxDone p \<longrightarrow> ps_signalled p)
     \<and> (ps_watcher p \<noteq> GoRunning \<longrightarrow> ps_signalled p)
     \<and> (ps_main p = MainReturned \<longrightarrow> ps_exitClosed p)"

lemma processInv_run: "processRun as p \<Longrightarrow> processInv p"
proof (induction rule: processRun.induct)
  case (again as p a p')
  then show ?case
    by (cases a; cases "ps_watcher p"; cases "ps_manager p"; cases "ps_main p";
        clarsimp simp: processInv_def closeExit_def split: if_split_asm)
qed (simp add: processInv_def startedProcess_def)

section \<open>Properties\<close>

text \<open>
  The channel \<open>exitChan\<close> is closed by each of the two goroutines, so that the process panics
  exactly when both have ended; the main goroutine returns only after a signal, also when
  the manager has failed, and the dispatcher is only stopped by a signal.
\<close>

theorem main_shutdown:
  assumes "processRun as p"
  shows "(ps_panicked p \<longleftrightarrow> ps_watcher p = GoEnded \<and> ps_manager p = GoEnded)
    \<and> (ps_main p = MainReturned \<longrightarrow> ps_signalled p \<and> (ps_watcher p = GoEnded \<or> ps_manager p = GoEnded))
    \<and> (ps_watcher p \<noteq> GoRunning \<longrightarrow> ps_signalled p)"
  using processInv_run [OF assms] unfolding processInv_def by auto

lemma exampleShutdown:
  "processRun [ManagerReturns, ManagerCloses, Signal, GetSignal, WatchReturns, WatcherCloses]
     \<lparr>ps_main = AwaitExit, ps_watcher = GoEnded, ps_manager = GoEnded, ps_signalled = True,
      ps_watchDone = True, ps_ctxDone = False, ps_exitClosed = True, ps_panicked = True\<rparr>"
proof -
  have run: "processRun (as @ bs) q" if "processRun as p" "fold (\<lambda>a r. Option.bind r (processStep a)) bs (Some p) = Some q"
    for as bs p q
    using that
  proof (induction bs arbitrary: as p)
    case (Cons b bs)
    have none: "fold (\<lambda>a r. Option.bind r (processStep a)) cs None = None" for cs by (induction cs) auto
    from Cons.prems(2) none obtain p1 where p1: "processStep b p = Some p1"
      by (cases "processStep b p") (auto simp del: processStep.simps)
    with Cons.prems(2) Cons.IH [OF processRun.again [OF Cons.prems(1) p1]] show ?case
      by (simp del: processStep.simps)
  qed simp
  from run [OF processRun.initial, of "[ManagerReturns, ManagerCloses, Signal, GetSignal, WatchReturns, WatcherCloses]"]
  show ?thesis by (simp add: startedProcess_def closeExit_def)
qed

theorem main_shutdown_witness:
  "\<exists>as p. processRun as p \<and> ps_panicked p \<and> ps_main p = AwaitExit \<and> ps_watcher p = GoEnded \<and> ps_manager p = GoEnded"
  using main_shutdown [OF exampleShutdown] exampleShutdown by (intro exI conjI) auto

end
