(* ===== verification/Command.thy ===== *)
theory Command
  imports Startup Shutdown
begin

text \<open>
  The command (\<open>main\<close> in \<open>main.go\<close>): what the process ends with, from the start of the operator
  to its shutdown.
\<close>

section \<open>Model\<close>

text \<open>
  The exit status of the process, \<open>None\<close> while it runs: that of \<open>os.Exit\<close> if \<open>run\<close> returned an
  error, 2 after a panic, as the Go runtime has it, and 0 if \<open>main\<close> returns. After a start the process
  is the one of \<open>Shutdown\<close>; \<open>run\<close> then returns no error.
\<close>

fun exitStatus :: "exitCode \<Rightarrow> int" where
  "exitStatus (ExitCode n) = n"

definition mainStatus :: "runResult \<Rightarrow> process \<Rightarrow> int option" where
  "mainStatus r p =
     (case r of
        ExitWith code err \<Rightarrow> Some (exitStatus code)
      | Crashed e \<Rightarrow> Some 2
      | Started start \<Rightarrow>
          if ps_panicked p then Some 2
          else if ps_main p = MainReturned then Some 0
          else None)"

lemma failureCodes_status: "code \<in> failureCodes \<Longrightarrow> exitStatus code = 1 \<or> 7 \<le> exitStatus code \<and> exitStatus code \<le> 14"
  by (auto simp: failureCodes_def exit_code_defs)

lemma startedStatus:
  assumes "processInv q"
  shows "(mainStatus (Started start) q = Some 0 \<longrightarrow> ps_signalled q)
    \<and> mainStatus (Started start) q \<in> {None, Some 0, Some 2}
    \<and> (mainStatus (Started start) q = Some 2 \<longleftrightarrow> ps_watcher q = GoEnded \<and> ps_manager q = GoEnded)"
  using assms unfolding mainStatus_def processInv_def by auto

section \<open>Properties\<close>



end
