(* ===== verification/Operator_Process.thy ===== *)
theory Operator_Process
  imports Operator_Progress Command
begin

text \<open>
  The process as a whole: the goroutines at the end of \<open>run\<close> (\<open>Shutdown\<close>) with the operator that they
  start and stop (\<open>Operator_System\<close>). The signal cancels the context of the dispatcher, and the
  goroutine of the dispatcher goes on to close \<open>exitChan\<close> when \<open>WatchForEvents\<close> has returned.
\<close>

section \<open>State and steps\<close>

record 'r runningProcess =
  rp_process :: process
  rp_operator :: "'r operator"

definition newProcess :: "'r \<Rightarrow> 'r runningProcess" where
  "newProcess r = \<lparr>rp_process = startedProcess, rp_operator = newOperator r\<rparr>"

text \<open>
  \<open>watchCanc()\<close> is a step of both: what \<open>main\<close> does after the signal, and the end of the main
  context of the dispatcher. Nothing runs any more once \<open>main\<close> has returned or a goroutine has panicked.
\<close>

datatype processEvent = OperatorActs operatorAction | ProcessActs processAction

definition alive :: "process \<Rightarrow> bool" where
  "alive p \<longleftrightarrow> ps_main p \<noteq> MainReturned \<and> \<not> ps_panicked p"

inductive runningStep :: "'r registry \<Rightarrow> string gomap \<Rightarrow> 'r runningProcess \<Rightarrow> processEvent \<Rightarrow> 'r runningProcess \<Rightarrow> bool"
  for reg md where
  acts: "alive (rp_process s) \<Longrightarrow> a \<noteq> Dispatch MainCancel \<Longrightarrow> operatorStep reg md (rp_operator s) a t \<Longrightarrow>
    runningStep reg md s (OperatorActs a) (s\<lparr>rp_operator := t\<rparr>)"
| cancels: "alive (rp_process s) \<Longrightarrow> processStep GetSignal (rp_process s) = Some p \<Longrightarrow>
    operatorStep reg md (rp_operator s) (Dispatch MainCancel) t \<Longrightarrow>
    runningStep reg md s (ProcessActs GetSignal) (s\<lparr>rp_process := p, rp_operator := t\<rparr>)"
| watchReturns: "alive (rp_process s) \<Longrightarrow> d_pc (op_dispatcher (rp_operator s)) = Returned \<Longrightarrow>
    processStep WatchReturns (rp_process s) = Some p \<Longrightarrow>
    runningStep reg md s (ProcessActs WatchReturns) (s\<lparr>rp_process := p\<rparr>)"
| others: "alive (rp_process s) \<Longrightarrow> b \<noteq> GetSignal \<Longrightarrow> b \<noteq> WatchReturns \<Longrightarrow> processStep b (rp_process s) = Some p \<Longrightarrow>
    runningStep reg md s (ProcessActs b) (s\<lparr>rp_process := p\<rparr>)"

inductive processRuns :: "'r registry \<Rightarrow> string gomap \<Rightarrow> 'r runningProcess \<Rightarrow> processEvent list \<Rightarrow> 'r runningProcess \<Rightarrow> bool"
  for reg md s where
  still: "processRuns reg md s [] s"
| further: "processRuns reg md s tr s1 \<Longrightarrow> runningStep reg md s1 a s2 \<Longrightarrow> processRuns reg md s (tr @ [a]) s2"

lemma processRuns_cons:
  "processRuns reg md s1 tr s2 \<Longrightarrow> runningStep reg md s a s1 \<Longrightarrow> processRuns reg md s (a # tr) s2"
proof (induction rule: processRuns.induct)
  case still
  then show ?case using further [OF processRuns.still] by fastforce
next
  case (further tr s1 b s2)
  then show ?case using processRuns.further [of reg md s "a # tr"] by simp
qed

lemma processRuns_append:
  "processRuns reg md s1 tr' s2 \<Longrightarrow> processRuns reg md s tr s1 \<Longrightarrow> processRuns reg md s (tr @ tr') s2"
  by (induction rule: processRuns.induct) (auto intro: processRuns.further simp flip: append_assoc)

section \<open>The parts run as they do on their own\<close>

text \<open>What the process and the operator have done, and when their contexts agree.\<close>

definition agree :: "'r runningProcess \<Rightarrow> bool" where
  "agree s \<longleftrightarrow>
     (d_mainDone (op_dispatcher (rp_operator s)) \<longleftrightarrow> ps_watchDone (rp_process s))
     \<and> (ps_watcher (rp_process s) \<noteq> GoRunning \<longrightarrow> d_pc (op_dispatcher (rp_operator s)) = Returned)
     \<and> (ps_watchDone (rp_process s) \<longleftrightarrow> ps_main (rp_process s) \<noteq> AwaitSignal)"

lemma operatorStep_mainDone:
  assumes "operatorStep reg md s a s'" and "a \<noteq> Dispatch MainCancel"
  shows "d_mainDone (op_dispatcher s') = d_mainDone (op_dispatcher s)"
  using assms
  by (cases rule: operatorStep.cases)
    (auto elim!: dispatchStep.cases getOrCreate_cases simp: cleanUp_def cancelRequested_def)

lemma operatorStep_returned:
  assumes "operatorStep reg md s a s'" and "d_pc (op_dispatcher s) = Returned"
  shows "d_pc (op_dispatcher s') = Returned"
  using assms
  by (cases rule: operatorStep.cases)
    (auto elim!: dispatchStep.cases getOrCreate_cases simp: cleanUp_def cancelRequested_def)

lemma mainCancel_step:
  "operatorStep reg md s (Dispatch MainCancel) t \<longleftrightarrow>
     t = s\<lparr>op_dispatcher := (op_dispatcher s)\<lparr>d_mainDone := True\<rparr>\<rparr>"
  by (auto simp: operatorStep_simps dispatchStep_simps)

lemma processRuns_parts:
  assumes "processRuns reg md (newProcess r) tr s"
  shows "(\<exists>as. processRun as (rp_process s)) \<and> (\<exists>tr'. operatorRun reg md (newOperator r) tr' (rp_operator s)) \<and> agree s"
  using assms
proof (induction rule: processRuns.induct)
  case still
  show ?case
    using processRun.initial operatorRun.none [of reg md "newOperator r"]
    by (auto simp: newProcess_def agree_def newOperator_def newEventHandler_def startedProcess_def)
next
  case (further tr s1 a s2)
  then obtain as tr' where 1: "processRun as (rp_process s1)" "operatorRun reg md (newOperator r) tr' (rp_operator s1)" "agree s1"
    by blast
  from further(2) show ?case
  proof (cases rule: runningStep.cases)
    case (acts b t)
    with operatorStep_mainDone [OF acts(5,4)] operatorStep_returned [OF acts(5)] 1(3)
    have "agree s2" by (auto simp: agree_def)
    with acts 1 operatorRun.more [OF 1(2) acts(5)] show ?thesis by auto
  next
    case (cancels p t)
    then have "agree s2" using 1(3) by (auto simp: agree_def mainCancel_step split: if_splits)
    with cancels 1 operatorRun.more [OF 1(2) cancels(5)] processRun.again [OF 1(1) cancels(4)] show ?thesis by auto
  next
    case (watchReturns p)
    then have "agree s2" using 1(3) by (auto simp: agree_def split: if_splits)
    with watchReturns 1 processRun.again [OF 1(1) watchReturns(5)] show ?thesis by auto
  next
    case (others b p)
    then have "agree s2"
      using 1(3) by (cases b) (auto simp: agree_def closeExit_def split: if_splits)
    with others 1 processRun.again [OF 1(1) others(6)] show ?thesis by auto
  qed
qed

section \<open>Shutdown of the operator\<close>

text \<open>A worker can always end its handler: a registry answers, be it with an error.\<close>

lemma calls_to_end:
  assumes "answering reg" and "i < length (d_pool (op_dispatcher s))"
    and "wd_status (d_pool (op_dispatcher s) ! i) = Handling e"
  shows "\<exists>tr s'. operatorRun reg md s tr s' \<and> op_dispatcher s' = op_dispatcher s \<and> op_pcs s' i = AtEnd
    \<and> Dispatch MainCancel \<notin> set tr"
  using assms(2,3)
proof (induction "callsLeft (op_pcs s i)" arbitrary: s rule: less_induct)
  case less
  show ?case
  proof (cases "op_pcs s i = AtEnd")
    case True
    then show ?thesis by (intro exI [where x = "[]"] exI [where x = s]) (simp add: operatorRun.none)
  next
    case False
    then obtain cl pc r' where n: "pcNext (op_pcs s i) cl = Some pc" "reg (op_registry s) cl r'"
      using assms(1) unfolding answering_def by blast
    let ?s1 = "s\<lparr>op_pcs := (op_pcs s)(i := pc), op_registry := r'\<rparr>"
    have "\<exists>tr s'. operatorRun reg md ?s1 tr s' \<and> op_dispatcher s' = op_dispatcher ?s1 \<and> op_pcs s' i = AtEnd
        \<and> Dispatch MainCancel \<notin> set tr"
      by (rule less.hyps) (use pcNext_callsLeft [OF n(1)] less.prems in simp_all)
    then obtain tr s' where 1: "operatorRun reg md ?s1 tr s'" "op_dispatcher s' = op_dispatcher s" "op_pcs s' i = AtEnd"
      "Dispatch MainCancel \<notin> set tr" by auto
    have "operatorRun reg md s (Call i cl # tr) s'"
      using operatorRun_cons [OF 1(1)] calls [where s = s and i = i and cl = cl and pc = pc and r = r'] less.prems n by simp
    with 1 show ?thesis by (intro exI [where x = "Call i cl # tr"] exI [where x = s']) simp
  qed
qed

text \<open>What the dispatcher and its workers can do, the operator can do, with calls in between.\<close>

lemma execution_operator:
  assumes "execution d tr d'" and "list_all internal tr" and "op_dispatcher s = d" and "answering reg"
  shows "\<exists>tr' s'. operatorRun reg md s tr' s' \<and> op_dispatcher s' = d' \<and> Dispatch MainCancel \<notin> set tr'"
  using assms(1-3)
proof (induction rule: execution.induct)
  case (start d)
  then show ?case by (intro exI [where x = "[]"] exI [where x = s]) (simp add: operatorRun.none)
next
  case (step d tr d1 b d2)
  then obtain tr1 s1 where 1: "operatorRun reg md s tr1 s1" "op_dispatcher s1 = d1" "Dispatch MainCancel \<notin> set tr1"
    by auto
  have int: "internal b" using step.prems(1) by simp
  have one: "\<exists>tr' s'. operatorRun reg md s tr' s' \<and> op_dispatcher s' = d2 \<and> Dispatch MainCancel \<notin> set tr'"
    if "operatorStep reg md s1 (Dispatch b) s2" "op_dispatcher s2 = d2" for s2
    using operatorRun.more [OF 1(1) that(1)] that(2) 1(3) int
    by (intro exI [where x = "tr1 @ [Dispatch b]"] exI [where x = s2]) (auto simp: internal_def)
  show ?case
  proof (cases b)
    case (Take i e)
    then show ?thesis using takes [of s1 i e d2 reg md] step(2) 1(2) one by simp
  next
    case (Finish i)
    with step(2) obtain e where i: "i < length (d_pool (op_dispatcher s1))" "wd_status (d_pool (op_dispatcher s1) ! i) = Handling e"
      using 1(2) by (auto simp: dispatchStep_simps)
    from calls_to_end [OF assms(4) i, of md] obtain tr2 s2 where
      2: "operatorRun reg md s1 tr2 s2" "op_dispatcher s2 = d1" "op_pcs s2 i = AtEnd" "Dispatch MainCancel \<notin> set tr2"
      using 1(2) by auto
    have "operatorStep reg md s2 (Dispatch (Finish i)) (s2\<lparr>op_dispatcher := d2\<rparr>)"
      using finishes [OF 2(3)] step(2) Finish 2(2) by simp
    from operatorRun.more [OF operatorRun_append [OF 2(1) 1(1)] this] 1(3) 2(4) show ?thesis
      by (intro exI [where x = "(tr1 @ tr2) @ [Dispatch (Finish i)]"] exI [where x = "s2\<lparr>op_dispatcher := d2\<rparr>"]) auto
  qed (use int alone [of b s1 d2 reg md] step(2) 1(2) one in \<open>simp_all add: internal_def\<close>)
qed

lemma operatorRun_process:
  assumes "operatorRun reg md t tr t'" and "rp_operator s = t" and "alive (rp_process s)" and "Dispatch MainCancel \<notin> set tr"
  shows "processRuns reg md s (map OperatorActs tr) (s\<lparr>rp_operator := t'\<rparr>)"
  using assms
proof (induction rule: operatorRun.induct)
  case none
  then have "s\<lparr>rp_operator := t\<rparr> = s" by (cases s) simp
  then show ?case by (simp add: still)
next
  case (more tr t1 a t2)
  have "runningStep reg md (s\<lparr>rp_operator := t1\<rparr>) (OperatorActs a) (s\<lparr>rp_operator := t1\<rparr>\<lparr>rp_operator := t2\<rparr>)"
    by (rule acts) (use more in auto)
  with more show ?case by (simp add: further)
qed

lemma stuck_operatorStep:
  assumes "operatorStep reg md s a s'" and "stuck (op_dispatcher s)"
  shows "stuck (op_dispatcher s')"
  using stuck_execution [OF operatorStep_dispatches [OF assms(1)] assms(2)] .

lemma processStep_simps [simp]:
  "processStep WatchReturns p = Some q \<longleftrightarrow>
     \<not> ps_panicked p \<and> ps_watcher p = GoRunning \<and> (ps_watchDone p \<or> ps_ctxDone p) \<and> q = p\<lparr>ps_watcher := GoClosing\<rparr>"
  "processStep WatcherCloses p = Some q \<longleftrightarrow>
     \<not> ps_panicked p \<and> ps_watcher p = GoClosing \<and> q = closeExit (p\<lparr>ps_watcher := GoEnded\<rparr>)"
  "processStep ManagerCloses p = Some q \<longleftrightarrow>
     \<not> ps_panicked p \<and> ps_manager p = GoClosing \<and> q = closeExit (p\<lparr>ps_manager := GoEnded\<rparr>)"
  "processStep MainExits p = Some q \<longleftrightarrow>
     \<not> ps_panicked p \<and> ps_main p = AwaitExit \<and> ps_exitClosed p \<and> q = p\<lparr>ps_main := MainReturned, ps_ctxDone := True\<rparr>"
  by auto

definition endsWell :: "'r registry \<Rightarrow> string gomap \<Rightarrow> 'r runningProcess \<Rightarrow> bool" where
  "endsWell reg md s \<longleftrightarrow> (\<exists>tr s'. processRuns reg md s tr s' \<and> ProcessActs ManagerReturns \<notin> set tr
     \<and> ps_main (rp_process s') = MainReturned)"

lemma endsWell_step:
  assumes "runningStep reg md s a s1" and "a \<noteq> ProcessActs ManagerReturns" and "endsWell reg md s1"
  shows "endsWell reg md s"
proof -
  from assms(3) obtain tr s' where "processRuns reg md s1 tr s'" "ProcessActs ManagerReturns \<notin> set tr"
    "ps_main (rp_process s') = MainReturned" unfolding endsWell_def by blast
  with processRuns_cons [OF this(1) assms(1)] assms(2) show ?thesis
    unfolding endsWell_def by (intro exI [where x = "a # tr"] exI [where x = s']) auto
qed

text \<open>Main returns when the channel is closed, and either goroutine that is about to close it closes it.\<close>

lemma endsWell_closed:
  assumes "alive (rp_process s)" and "ps_main (rp_process s) = AwaitExit" and "ps_exitClosed (rp_process s)"
  shows "endsWell reg md s"
proof -
  have "runningStep reg md s (ProcessActs MainExits) (s\<lparr>rp_process := (rp_process s)\<lparr>ps_main := MainReturned, ps_ctxDone := True\<rparr>\<rparr>)"
    by (rule others [OF assms(1)]) (use assms in \<open>simp_all add: alive_def\<close>)
  then show ?thesis
  proof (rule endsWell_step)
    show "endsWell reg md (s\<lparr>rp_process := (rp_process s)\<lparr>ps_main := MainReturned, ps_ctxDone := True\<rparr>\<rparr>)"
      unfolding endsWell_def by (intro exI [where x = "[]"] exI, intro conjI, rule still) simp_all
  qed simp
qed

lemma endsWell_closing:
  assumes "alive (rp_process s)" and "ps_main (rp_process s) = AwaitExit" and "\<not> ps_exitClosed (rp_process s)"
    and "ps_watcher (rp_process s) = GoClosing \<or> ps_manager (rp_process s) = GoClosing"
  shows "endsWell reg md s"
  using assms(4)
proof
  assume w: "ps_watcher (rp_process s) = GoClosing"
  have "runningStep reg md s (ProcessActs WatcherCloses) (s\<lparr>rp_process := closeExit ((rp_process s)\<lparr>ps_watcher := GoEnded\<rparr>)\<rparr>)"
    by (rule others [OF assms(1)]) (use assms w in \<open>simp_all add: alive_def\<close>)
  then show ?thesis
    by (rule endsWell_step) (use assms in \<open>auto simp: closeExit_def alive_def intro!: endsWell_closed\<close>)
next
  assume m: "ps_manager (rp_process s) = GoClosing"
  have "runningStep reg md s (ProcessActs ManagerCloses) (s\<lparr>rp_process := closeExit ((rp_process s)\<lparr>ps_manager := GoEnded\<rparr>)\<rparr>)"
    by (rule others [OF assms(1)]) (use assms m in \<open>simp_all add: alive_def\<close>)
  then show ?thesis
    by (rule endsWell_step) (use assms in \<open>auto simp: closeExit_def alive_def intro!: endsWell_closed\<close>)
qed

lemma endsWell_returned:
  assumes "alive (rp_process s)" and "ps_main (rp_process s) = AwaitExit" and "ps_watchDone (rp_process s)"
    and "processInv (rp_process s)" and "d_pc (op_dispatcher (rp_operator s)) = Returned"
  shows "endsWell reg md s"
proof (cases "ps_exitClosed (rp_process s)")
  case True
  then show ?thesis by (rule endsWell_closed [OF assms(1,2)])
next
  case False
  show ?thesis
  proof (cases "ps_watcher (rp_process s)")
    case GoRunning
    have "runningStep reg md s (ProcessActs WatchReturns) (s\<lparr>rp_process := (rp_process s)\<lparr>ps_watcher := GoClosing\<rparr>\<rparr>)"
      by (rule watchReturns [OF assms(1,5)]) (use assms GoRunning in \<open>simp_all add: alive_def\<close>)
    then show ?thesis
      by (rule endsWell_step) (use assms False in \<open>auto simp: alive_def intro!: endsWell_closing\<close>)
  next
    case GoClosing
    with endsWell_closing [OF assms(1,2) False] show ?thesis by blast
  qed (use assms(4) False in \<open>simp add: processInv_def\<close>)
qed

lemma endsWell_unstuck:
  assumes "operatorRun reg md (newOperator r) tr (rp_operator s)" and "agree s" and "processInv (rp_process s)"
    and "alive (rp_process s)" and "ps_watchDone (rp_process s)" and "answering reg"
    and "\<not> stuck (op_dispatcher (rp_operator s))"
  shows "endsWell reg md s"
proof -
  let ?t = "rp_operator s"
  have cancelled: "d_mainDone (op_dispatcher ?t)" and main: "ps_main (rp_process s) = AwaitExit"
    using assms(2,4,5) by (auto simp: agree_def alive_def intro: mainPc.exhaust)
  from unstuck_returns [OF operatorRun_worker(1) [OF assms(1)] cancelled assms(7)] obtain tr1 d1 where
    "execution (op_dispatcher ?t) tr1 d1" "list_all internal tr1" "d_pc d1 = Returned" by blast
  with execution_operator [OF _ _ refl assms(6)] obtain tr2 t2 where
    2: "operatorRun reg md ?t tr2 t2" "d_pc (op_dispatcher t2) = Returned" "Dispatch MainCancel \<notin> set tr2" by blast
  let ?s2 = "s\<lparr>rp_operator := t2\<rparr>"
  have "processRuns reg md s (map OperatorActs tr2) ?s2"
    using operatorRun_process [OF 2(1) refl assms(4) 2(3)] .
  moreover have "endsWell reg md ?s2"
    by (rule endsWell_returned) (use assms main 2(2) in simp_all)
  ultimately show ?thesis
    unfolding endsWell_def using processRuns_append by (metis (no_types, lifting) Un_iff ex_map_conv processEvent.distinct(1) set_append)
qed

text \<open>While the dispatcher is stuck and the manager runs, nobody closes the channel.\<close>

lemma stuck_never_ends:
  assumes "processRuns reg md s tr s'" and "ProcessActs ManagerReturns \<notin> set tr"
    and "stuck (op_dispatcher (rp_operator s))" and "ps_manager (rp_process s) = GoRunning"
    and "ps_watcher (rp_process s) = GoRunning" and "\<not> ps_exitClosed (rp_process s)" and "ps_main (rp_process s) \<noteq> MainReturned"
  shows "stuck (op_dispatcher (rp_operator s')) \<and> ps_manager (rp_process s') = GoRunning
    \<and> ps_watcher (rp_process s') = GoRunning \<and> \<not> ps_exitClosed (rp_process s') \<and> ps_main (rp_process s') \<noteq> MainReturned"
  using assms
proof (induction rule: processRuns.induct)
  case (further tr s1 a s2)
  then have IH: "stuck (op_dispatcher (rp_operator s1))" "ps_manager (rp_process s1) = GoRunning"
    "ps_watcher (rp_process s1) = GoRunning" "\<not> ps_exitClosed (rp_process s1)" "ps_main (rp_process s1) \<noteq> MainReturned"
    by auto
  from further(2) show ?case
  proof (cases rule: runningStep.cases)
    case (acts b t)
    with IH stuck_operatorStep [OF acts(5)] show ?thesis by simp
  next
    case (cancels p t)
    with IH stuck_operatorStep [OF cancels(5)] show ?thesis by (auto split: if_splits)
  next
    case (watchReturns p)
    with IH(1) show ?thesis by (simp add: stuck_def)
  next
    case (others b p)
    with IH further.prems(1) show ?thesis by (cases b) (auto split: if_splits)
  qed
qed simp

text \<open>A process that gets the signal at once.\<close>

definition signalledProcess :: "'r \<Rightarrow> 'r runningProcess" where
  "signalledProcess r = \<lparr>rp_process = startedProcess\<lparr>ps_signalled := True, ps_main := AwaitExit, ps_watchDone := True\<rparr>,
     rp_operator = (newOperator r)\<lparr>op_dispatcher := newEventHandler\<lparr>d_mainDone := True\<rparr>\<rparr>\<rparr>"

lemma signalled_run: "processRuns reg md (newProcess r) [ProcessActs Signal, ProcessActs GetSignal] (signalledProcess r)"
proof -
  let ?s1 = "(newProcess r)\<lparr>rp_process := startedProcess\<lparr>ps_signalled := True\<rparr>\<rparr>"
  have 1: "runningStep reg md (newProcess r) (ProcessActs Signal) ?s1"
    by (rule others) (simp_all add: newProcess_def alive_def startedProcess_def)
  have "runningStep reg md ?s1 (ProcessActs GetSignal) (?s1\<lparr>rp_process := rp_process (signalledProcess r),
      rp_operator := (newOperator r)\<lparr>op_dispatcher := newEventHandler\<lparr>d_mainDone := True\<rparr>\<rparr>\<rparr>)"
    by (rule cancels) (simp_all add: newProcess_def signalledProcess_def alive_def startedProcess_def mainCancel_step newOperator_def)
  from processRuns_cons [OF processRuns_cons [OF still this] 1] show ?thesis
    by (simp add: newProcess_def signalledProcess_def)
qed

section \<open>Properties\<close>

text \<open>
  C19. The end of the process: after the signal was received, the process can end by itself, that is without
  the manager of the controllers returning, exactly if the dispatcher is not stuck on the
  full queue of a worker that has ended, or the goroutine of the manager has returned already.
\<close>

theorem process_ends_iff:
  assumes "processRuns reg md (newProcess r) tr s" and "alive (rp_process s)" and "ps_watchDone (rp_process s)"
    and "answering reg"
  shows "(\<exists>tr' s'. processRuns reg md s tr' s' \<and> ProcessActs ManagerReturns \<notin> set tr'
        \<and> ps_main (rp_process s') = MainReturned)
    \<longleftrightarrow> \<not> stuck (op_dispatcher (rp_operator s)) \<or> ps_manager (rp_process s) \<noteq> GoRunning"
proof -
  obtain as tr0 where parts: "processRun as (rp_process s)" "operatorRun reg md (newOperator r) tr0 (rp_operator s)" "agree s"
    using processRuns_parts [OF assms(1)] by blast
  have inv: "processInv (rp_process s)" by (rule processInv_run [OF parts(1)])
  have main: "ps_main (rp_process s) = AwaitExit"
    using parts(3) assms(2,3) by (cases "ps_main (rp_process s)") (auto simp: agree_def alive_def)
  have "endsWell reg md s" if "ps_manager (rp_process s) \<noteq> GoRunning"
  proof (cases "ps_exitClosed (rp_process s)")
    case True
    then show ?thesis by (rule endsWell_closed [OF assms(2) main])
  next
    case False
    with inv that have "ps_manager (rp_process s) = GoClosing"
      by (cases "ps_manager (rp_process s)") (auto simp: processInv_def)
    with endsWell_closing [OF assms(2) main False] show ?thesis by blast
  qed
  moreover have "\<not> endsWell reg md s"
    if "stuck (op_dispatcher (rp_operator s))" "ps_manager (rp_process s) = GoRunning"
  proof -
    have "d_pc (op_dispatcher (rp_operator s)) \<noteq> Returned" using that(1) by (auto simp: stuck_def)
    with parts(3) have watcher: "ps_watcher (rp_process s) = GoRunning" by (auto simp: agree_def)
    with that(2) inv have "\<not> ps_exitClosed (rp_process s)" by (simp add: processInv_def)
    with stuck_never_ends [OF _ _ that watcher] main show ?thesis unfolding endsWell_def by fastforce
  qed
  ultimately show ?thesis
    using endsWell_unstuck [OF parts(2,3) inv assms(2,3,4)] unfolding endsWell_def by blast
qed

theorem process_ends_iff_witness:
  "\<exists>s tr' s'. processRuns (clientAnswers memoryClient) exampleOwner (newProcess fmempty)
       [ProcessActs Signal, ProcessActs GetSignal] s
     \<and> processRuns (clientAnswers memoryClient) exampleOwner s tr' s' \<and> ps_main (rp_process s') = MainReturned"
proof -
  let ?s2 = "signalledProcess fmempty :: memory runningProcess"
  have run: "processRuns (clientAnswers memoryClient) exampleOwner (newProcess fmempty) [ProcessActs Signal, ProcessActs GetSignal] ?s2"
    by (rule signalled_run)
  have "alive (rp_process ?s2)" "ps_watchDone (rp_process ?s2)" "\<not> stuck (op_dispatcher (rp_operator ?s2))"
    by (simp_all add: signalledProcess_def alive_def startedProcess_def stuck_def newEventHandler_def)
  with process_ends_iff [OF run _ _ client_answering] run show ?thesis by blast
qed

end
