(* ===== verification/Whole_Program.thy ===== *)
theory Whole_Program
  imports Controllers_Running Operator_Process
begin

text \<open>
  The whole program after \<open>run\<close> has started it: the two controllers (\<open>Controllers_Running\<close>) beside the process
  with the operator in it (\<open>Operator_Process\<close>). They meet at the channel \<open>eventsChan\<close>: a controller
  that sends waits for a free place in it, and a send is one step of both.
\<close>

section \<open>State and steps\<close>

record ('w, 'r) program =
  pg_controllers :: "'w controllers"
  pg_process :: "'r runningProcess"

definition newProgram :: "'w \<Rightarrow> 'r \<Rightarrow> ('w, 'r) program" where
  "newProgram w r = \<lparr>pg_controllers = idleControllers w, pg_process = newProcess r\<rparr>"

fun sendsOf :: "processEvent \<Rightarrow> event list" where
  "sendsOf (OperatorActs (Produce e)) = [e]"
| "sendsOf _ = []"

text \<open>
  \<open>Sends\<close> is a send of a controller, \<open>Controls\<close> any other action of one, \<open>Runs\<close> any step of the
  process that is no send. The context of the manager is done only when \<open>main\<close> has returned, so that nothing but
  the end of the process keeps the controllers from going on. A manager that has failed starts no handlers
  any more, which is left open here; those at work go on.
\<close>

datatype programAction = Sends controllerAction event | Controls controllerAction | Runs processEvent

inductive programStep ::
  "'w env \<Rightarrow> controllerOptions option \<Rightarrow> controllerOptions option \<Rightarrow> 'r registry \<Rightarrow> string gomap
     \<Rightarrow> ('w, 'r) program \<Rightarrow> programAction \<Rightarrow> ('w, 'r) program \<Rightarrow> bool"
  for env so no reg md where
  sends: "emittedBy a = [e] \<Longrightarrow> controllerStep env so no (pg_controllers s) a c \<Longrightarrow>
    runningStep reg md (pg_process s) (OperatorActs (Produce e)) p \<Longrightarrow>
    programStep env so no reg md s (Sends a e) (s\<lparr>pg_controllers := c, pg_process := p\<rparr>)"
| controls: "emittedBy a = [] \<Longrightarrow> alive (rp_process (pg_process s)) \<Longrightarrow> controllerStep env so no (pg_controllers s) a c \<Longrightarrow>
    programStep env so no reg md s (Controls a) (s\<lparr>pg_controllers := c\<rparr>)"
| runs: "sendsOf b = [] \<Longrightarrow> runningStep reg md (pg_process s) b p \<Longrightarrow>
    programStep env so no reg md s (Runs b) (s\<lparr>pg_process := p\<rparr>)"

inductive programRun ::
  "'w env \<Rightarrow> controllerOptions option \<Rightarrow> controllerOptions option \<Rightarrow> 'r registry \<Rightarrow> string gomap
     \<Rightarrow> ('w, 'r) program \<Rightarrow> programAction list \<Rightarrow> ('w, 'r) program \<Rightarrow> bool"
  for env so no reg md s where
  begins: "programRun env so no reg md s [] s"
| goesOn: "programRun env so no reg md s tr s1 \<Longrightarrow> programStep env so no reg md s1 a s2 \<Longrightarrow>
    programRun env so no reg md s (tr @ [a]) s2"

text \<open>The operator that runs in the process, and the parts that controllers, process and operator have in a run.\<close>

abbreviation pg_operator :: "('w, 'r) program \<Rightarrow> 'r operator" where
  "pg_operator s \<equiv> rp_operator (pg_process s)"

fun controllerPart :: "programAction \<Rightarrow> controllerAction list" where
  "controllerPart (Sends a e) = [a]"
| "controllerPart (Controls a) = [a]"
| "controllerPart (Runs b) = []"

fun processPart :: "programAction \<Rightarrow> processEvent list" where
  "processPart (Sends a e) = [OperatorActs (Produce e)]"
| "processPart (Controls a) = []"
| "processPart (Runs b) = [b]"

fun operatorPart :: "processEvent \<Rightarrow> operatorAction list" where
  "operatorPart (OperatorActs a) = [a]"
| "operatorPart (ProcessActs GetSignal) = [Dispatch MainCancel]"
| "operatorPart (ProcessActs _) = []"

abbreviation operatorTrace :: "programAction list \<Rightarrow> operatorAction list" where
  "operatorTrace tr \<equiv> history operatorPart (history processPart tr)"

section \<open>From the program to its parts\<close>

lemma programRun_parts:
  "programRun env so no reg md s tr s' \<Longrightarrow>
     controllersRun env so no (pg_controllers s) (history controllerPart tr) (pg_controllers s')
     \<and> processRuns reg md (pg_process s) (history processPart tr) (pg_process s')
     \<and> history sendsOf (history processPart tr) = history emittedBy (history controllerPart tr)"
proof (induction rule: programRun.induct)
  case begins
  show ?case by (simp add: resting still)
next
  case (goesOn tr s1 a s2)
  from goesOn(2) goesOn.IH show ?case
    by (cases rule: programStep.cases) (auto intro: stepping further)
qed

lemma runningStep_operator:
  assumes "runningStep reg md s b s'"
  shows "operatorRun reg md (rp_operator s) (operatorPart b) (rp_operator s')"
  using assms
proof (cases rule: runningStep.cases)
  case (acts a t)
  from operatorRun.more [OF operatorRun.none acts(5)] acts(1,2) show ?thesis by simp
next
  case (cancels p t)
  from operatorRun.more [OF operatorRun.none cancels(5)] cancels(1,2) show ?thesis by simp
next
  case (others a p)
  then show ?thesis by (cases a) (simp_all add: operatorRun.none)
qed (simp add: operatorRun.none)

lemma processRuns_operator:
  "processRuns reg md s tr s' \<Longrightarrow> operatorRun reg md (rp_operator s) (history operatorPart tr) (rp_operator s')"
proof (induction rule: processRuns.induct)
  case (further tr s1 a s2)
  from operatorRun_append [OF runningStep_operator [OF further(2)] further.IH] show ?case by simp
qed (simp add: operatorRun.none)

lemma produced_operatorPart: "produced (history operatorPart tr) = history sendsOf tr"
proof (induction tr rule: rev_induct)
  case (snoc b tr)
  have "produced (operatorPart b) = sendsOf b"
    by (cases b rule: operatorPart.cases) (auto split: operatorAction.split elim: sendsOf.elims)
  with snoc show ?case by simp
qed simp

lemma programRun_operator:
  assumes "programRun env so no reg md (newProgram w r) tr s"
  shows "operatorRun reg md (newOperator r) (operatorTrace tr) (pg_operator s)"
    and "produced (operatorTrace tr) = history emittedBy (history controllerPart tr)"
    and "controllersRun env so no (idleControllers w) (history controllerPart tr) (pg_controllers s)"
    and "processRuns reg md (newProcess r) (history processPart tr) (pg_process s)"
  using programRun_parts [OF assms] processRuns_operator
  by (fastforce simp: newProgram_def newProcess_def produced_operatorPart)+

section \<open>From the parts to the program\<close>

text \<open>
  Runs of the controllers and of the process that agree on the events sent are the parts of a run
  of the program.
\<close>

lemma runningStep_send_alive: "runningStep reg md s b s' \<Longrightarrow> sendsOf b = [e] \<Longrightarrow> alive (rp_process s')"
  by (erule runningStep.cases) auto

lemma emittedBy_cases: "(emittedBy a = [] \<Longrightarrow> P) \<Longrightarrow> (\<And>e. emittedBy a = [e] \<Longrightarrow> P) \<Longrightarrow> P"
  by (cases a rule: emittedBy.cases) auto

lemma sendsOf_cases: "(sendsOf b = [] \<Longrightarrow> P) \<Longrightarrow> (\<And>e. sendsOf b = [e] \<Longrightarrow> b = OperatorActs (Produce e) \<Longrightarrow> P) \<Longrightarrow> P"
  by (cases b rule: sendsOf.cases) auto

definition mergesTo :: "'w env \<Rightarrow> controllerOptions option \<Rightarrow> controllerOptions option \<Rightarrow> 'r registry \<Rightarrow> string gomap
     \<Rightarrow> ('w, 'r) program \<Rightarrow> controllerAction list \<Rightarrow> processEvent list \<Rightarrow> ('w, 'r) program \<Rightarrow> bool" where
  "mergesTo env so no reg md s as ps s' \<longleftrightarrow>
     (\<exists>tr. programRun env so no reg md s tr s' \<and> history controllerPart tr = as \<and> history processPart tr = ps)"

lemma mergesTo_step:
  "mergesTo env so no reg md s as ps s1 \<Longrightarrow> programStep env so no reg md s1 a s2 \<Longrightarrow>
     mergesTo env so no reg md s (as @ controllerPart a) (ps @ processPart a) s2"
  unfolding mergesTo_def by (elim exE conjE, rule exI, intro conjI, rule goesOn) auto

lemma controllersRun_snoc:
  "controllersRun env so no s (as @ [a]) s' \<longleftrightarrow> (\<exists>s1. controllersRun env so no s as s1 \<and> controllerStep env so no s1 a s')"
  by (auto elim: controllersRun.cases intro: stepping)

lemma processRuns_snoc:
  "processRuns reg md s (ps @ [b]) s' \<longleftrightarrow> (\<exists>s1. processRuns reg md s ps s1 \<and> runningStep reg md s1 b s')"
  by (auto elim: processRuns.cases intro: further)

lemma controllersRun_Nil: "controllersRun env so no s [] s' \<longleftrightarrow> s' = s"
  by (auto elim: controllersRun.cases intro: resting)

lemma processRuns_Nil: "processRuns reg md s [] s' \<longleftrightarrow> s' = s"
  by (auto elim: processRuns.cases intro: still)

lemma merged:
  assumes "controllersRun env so no (pg_controllers s) as c" and "processRuns reg md (pg_process s) ps p"
    and "history sendsOf ps = history emittedBy as" and "alive (rp_process (pg_process s))"
  shows "mergesTo env so no reg md s as ps (s\<lparr>pg_controllers := c, pg_process := p\<rparr>)"
  using assms(1-3)
proof (induction "length as + length ps" arbitrary: as c ps p rule: less_induct)
  case less
  let ?merges = "mergesTo env so no reg md s"
  have controls_last: ?case if as: "as = as' @ [a]" and quiet: "emittedBy a = []" and live: "alive (rp_process p)" for as' a
  proof -
    from less.prems(1) as obtain c1 where c1: "controllersRun env so no (pg_controllers s) as' c1" "controllerStep env so no c1 a c"
      by (auto simp: controllersRun_snoc)
    have "?merges as' ps (s\<lparr>pg_controllers := c1, pg_process := p\<rparr>)"
      by (rule less.hyps) (use less.prems(2,3) as quiet c1(1) in simp_all)
    from mergesTo_step [OF this controls [OF quiet]] live c1(2) as show ?thesis by (cases s) simp
  qed
  show ?case
  proof (cases ps rule: rev_cases)
    case Nil
    with less.prems(2) have p: "p = pg_process s" by (simp add: processRuns_Nil)
    show ?thesis
    proof (cases as rule: rev_cases)
      case Nil
      with \<open>ps = []\<close> p less.prems(1) show ?thesis
        by (auto simp: mergesTo_def controllersRun_Nil intro!: exI [where x = "[]"] begins)
    next
      case (snoc as' a)
      with less.prems(3) \<open>ps = []\<close> have "emittedBy a = []" by simp
      with controls_last [OF snoc] assms(4) p show ?thesis by simp
    qed
  next
    case ps: (snoc ps' b)
    from less.prems(2) ps obtain p1 where p1: "processRuns reg md (pg_process s) ps' p1" "runningStep reg md p1 b p"
      by (auto simp: processRuns_snoc)
    show ?thesis
    proof (rule sendsOf_cases [of b])
      assume quiet: "sendsOf b = []"
      have "?merges as ps' (s\<lparr>pg_controllers := c, pg_process := p1\<rparr>)"
        by (rule less.hyps) (use less.prems(1,3) ps quiet p1(1) in simp_all)
      from mergesTo_step [OF this runs [OF quiet]] p1(2) ps show ?thesis by simp
    next
      fix e
      assume e: "sendsOf b = [e]" "b = OperatorActs (Produce e)"
      have live: "alive (rp_process p)" by (rule runningStep_send_alive [OF p1(2) e(1)])
      from less.prems(3) ps e(1) have "as \<noteq> []" by auto
      then obtain as' a where as: "as = as' @ [a]" by (cases as rule: rev_cases) auto
      show ?thesis
      proof (rule emittedBy_cases [of a])
        assume "emittedBy a = []"
        with controls_last [OF as _ live] show ?thesis by simp
      next
        fix e'
        assume "emittedBy a = [e']"
        with less.prems(3) ps as e(1) have sent: "emittedBy a = [e]" "history sendsOf ps' = history emittedBy as'" by simp_all
        from less.prems(1) as obtain c1 where c1: "controllersRun env so no (pg_controllers s) as' c1" "controllerStep env so no c1 a c"
          by (auto simp: controllersRun_snoc)
        have "?merges as' ps' (s\<lparr>pg_controllers := c1, pg_process := p1\<rparr>)"
          by (rule less.hyps) (use sent(2) ps as c1(1) p1(1) in simp_all)
        from mergesTo_step [OF this sends [OF sent(1)]] c1(2) p1(2) ps as e(2) show ?thesis by simp
      qed
    qed
  qed
qed

lemma alive_new: "alive (rp_process (newProcess r))"
  by (simp add: alive_def newProcess_def startedProcess_def)

lemma merged_new:
  "controllersRun env so no (idleControllers w) as c \<Longrightarrow> processRuns reg md (newProcess r) ps p \<Longrightarrow>
     history sendsOf ps = history emittedBy as \<Longrightarrow>
     mergesTo env so no reg md (newProgram w r) as ps \<lparr>pg_controllers = c, pg_process = p\<rparr>"
  using merged [of env so no "newProgram w r" as c reg md ps p] by (simp add: newProgram_def alive_new)

text \<open>A run of the operator that was not told to stop, and one of the controllers that send the same, are one of the program.\<close>

lemma operator_merges:
  assumes "controllersRun env so no (idleControllers w) as c" and "operatorRun reg md (newOperator r) tr t"
    and "Dispatch MainCancel \<notin> set tr" and "produced tr = history emittedBy as"
  shows "\<exists>ptr s. programRun env so no reg md (newProgram w r) ptr s \<and> history controllerPart ptr = as
    \<and> operatorTrace ptr = tr \<and> pg_controllers s = c \<and> pg_operator s = t"
proof -
  have trace: "history operatorPart (map OperatorActs tr) = tr" by (induction tr) (simp_all add: history_def)
  have process: "processRuns reg md (newProcess r) (map OperatorActs tr) ((newProcess r)\<lparr>rp_operator := t\<rparr>)"
    by (rule operatorRun_process [OF assms(2) _ alive_new assms(3)]) (simp add: newProcess_def)
  have "history sendsOf (map OperatorActs tr) = history emittedBy as"
    using produced_operatorPart [of "map OperatorActs tr"] assms(4) trace by simp
  from merged_new [OF assms(1) process this] obtain ptr where ptr: "programRun env so no reg md (newProgram w r) ptr
      \<lparr>pg_controllers = c, pg_process = (newProcess r)\<lparr>rp_operator := t\<rparr>\<rparr>"
    "history controllerPart ptr = as" "history processPart ptr = map OperatorActs tr"
    unfolding mergesTo_def by (elim exE conjE) (rule that)
  show ?thesis
    by (rule exI [where x = ptr], rule exI [where x = "\<lparr>pg_controllers = c, pg_process = (newProcess r)\<lparr>rp_operator := t\<rparr>\<rparr>"])
      (use ptr trace in simp)
qed

lemma operatorRun_not_told:
  "operatorRun reg md s tr s' \<Longrightarrow> \<not> d_mainDone (op_dispatcher s') \<Longrightarrow> Dispatch MainCancel \<notin> set tr"
proof -
  assume "operatorRun reg md s tr s'"
  then have "Dispatch MainCancel \<in> set tr \<longrightarrow> d_mainDone (op_dispatcher s')"
  proof (induction rule: operatorRun.induct)
    case (more tr s1 a s2)
    show ?case
    proof (cases "a = Dispatch MainCancel")
      case True
      with more(2) show ?thesis by (simp add: mainCancel_step)
    next
      case False
      with more operatorStep_mainDone [OF more(2) False] show ?thesis by auto
    qed
  qed simp
  then show "\<not> d_mainDone (op_dispatcher s') \<Longrightarrow> Dispatch MainCancel \<notin> set tr" by blast
qed

text \<open>The race of the controllers (\<open>unwatched_registered\<close>), in the program.\<close>

lemma racing_program:
  "\<exists>env tr (s :: (nat, memory) program).
     programRun env (Some exampleOptions) (Some exampleOptions) (clientAnswers memoryClient) exampleOwner (newProgram 0 fmempty) tr s
     \<and> calmRun (clientAnswers memoryClient) exampleOwner (newOperator fmempty) (operatorTrace tr) (pg_operator s)
     \<and> exampleDeletion \<in> set (history emittedBy (history controllerPart tr))
     \<and> \<not> d_mainDone (op_dispatcher (pg_operator s)) \<and> atRest (pg_operator s)
     \<and> ct_service (pg_controllers s) = [] \<and> ct_namespace (pg_controllers s) = []
     \<and> run_state (checkParentNamespace env exampleOptions exampleService) (ct_world (pg_controllers s))
         = ((False, None), ct_world (pg_controllers s))
     \<and> fmlookup (op_registry (pg_operator s)) (ServiceAt ''shop'' ''web'') \<noteq> None"
proof -
  obtain env as c tr and t :: "memory operator" where
    c: "controllersRun env (Some exampleOptions) (Some exampleOptions) (idleControllers (0 :: nat)) as c"
      "ct_service c = []" "ct_namespace c = []"
      "run_state (checkParentNamespace env exampleOptions exampleService) (ct_world c) = ((False, None), ct_world c)"
      "exampleDeletion \<in> set (history emittedBy as)"
    and t: "calmRun (clientAnswers memoryClient) exampleOwner (newOperator fmempty) tr t"
      "produced tr = history emittedBy as" "\<not> d_mainDone (op_dispatcher t)" "atRest t"
      "fmlookup (op_registry t) (ServiceAt ''shop'' ''web'') \<noteq> None"
    using unwatched_registered by (elim exE conjE) (rule that)
  from operator_merges [OF c(1) calmRun_run [OF t(1)] operatorRun_not_told [OF calmRun_run [OF t(1)] t(3)] t(2)]
  obtain ptr s where s: "programRun env (Some exampleOptions) (Some exampleOptions) (clientAnswers memoryClient) exampleOwner
      (newProgram 0 fmempty) ptr s" "history controllerPart ptr = as" "operatorTrace ptr = tr" "pg_controllers s = c" "pg_operator s = t"
    by blast
  show ?thesis
    by (rule exI [where x = env], rule exI [where x = ptr], rule exI [where x = s]) (use s c t in simp)
qed

lemma service_starts:
  "serviceHandles env o1 w0 effs w \<Longrightarrow>
     controllerStep env (Some o1) no (idleControllers w0) (ServiceStarts effs) \<lparr>ct_world = w, ct_service = effs, ct_namespace = []\<rparr>"
  using serviceStarts [of "Some o1" o1 "idleControllers w0" env effs w no] by (simp add: idleControllers_def)

section \<open>Properties\<close>


text \<open>
  C14. From the handlers to the dispatcher: what the dispatcher has received and what waits in the channel, at most
  a hundred events, is an interleaving of what the two controllers have sent, each in the order of its
  handlers and with nothing missing but what the handlers at work have still to send.
\<close>

theorem program_delivers:
  assumes "programRun env so no reg md (newProgram w r) tr s"
  shows "arrivals (dispatched (operatorTrace tr)) @ op_channel (pg_operator s)
      \<in> shuffles (history serviceSentBy (history controllerPart tr)) (history namespaceSentBy (history controllerPart tr))
    \<and> length (op_channel (pg_operator s)) \<le> operatorChanSize
    \<and> history serviceSentBy (history controllerPart tr) @ sent (ct_service (pg_controllers s))
        = concat (map sent (history serviceStartedBy (history controllerPart tr)))
    \<and> history namespaceSentBy (history controllerPart tr) @ sent (ct_namespace (pg_controllers s))
        = concat (map sent (history namespaceStartedBy (history controllerPart tr)))"
  using runInv_run [OF programRun_operator(3) [OF assms]] channelInv_run [OF programRun_operator(1) [OF assms]]
  by (simp add: runInv_def channelInv_def programRun_operator(2) [OF assms])

theorem program_delivers_witness:
  "\<exists>env tr (s :: (nat, memory) program). exampleDeletion \<in> set (arrivals (dispatched (operatorTrace tr)))
     \<and> programRun env (Some exampleOptions) (Some exampleOptions) (clientAnswers memoryClient) exampleOwner (newProgram 0 fmempty) tr s
     \<and> arrivals (dispatched (operatorTrace tr))
       \<in> shuffles (concat (map sent (history serviceStartedBy (history controllerPart tr))))
           (concat (map sent (history namespaceStartedBy (history controllerPart tr))))"
proof -
  obtain env tr and s :: "(nat, memory) program" where
    s: "programRun env (Some exampleOptions) (Some exampleOptions) (clientAnswers memoryClient) exampleOwner (newProgram 0 fmempty) tr s"
      "exampleDeletion \<in> set (history emittedBy (history controllerPart tr))" "atRest (pg_operator s)"
      "ct_service (pg_controllers s) = []" "ct_namespace (pg_controllers s) = []"
    using racing_program by (elim exE conjE) (rule that)
  have "arrivals (dispatched (operatorTrace tr)) = history emittedBy (history controllerPart tr)"
    using channelInv_run [OF programRun_operator(1) [OF s(1)]] programRun_operator(2) [OF s(1)] s(3)
    by (simp add: channelInv_def atRest_def)
  with program_delivers [OF s(1)] s show ?thesis
    by (intro exI [where x = env] exI [where x = tr] exI [where x = s]) (auto simp: atRest_def)
qed

text \<open>
  C25. A service that is created while its namespace stops being watched can stay registered in the program: both
  controllers have done all their work, the operator is at rest, the namespace is not watched, and the
  service is in the registry. The handler for the creation had looked at the namespace before, and
  sends after the deletion.
\<close>

theorem program_race:
  "\<exists>env tr (s :: (nat, memory) program).
     programRun env (Some exampleOptions) (Some exampleOptions) (clientAnswers memoryClient) exampleOwner (newProgram 0 fmempty) tr s
     \<and> exampleDeletion \<in> set (history emittedBy (history controllerPart tr))
     \<and> ct_service (pg_controllers s) = [] \<and> ct_namespace (pg_controllers s) = [] \<and> atRest (pg_operator s)
     \<and> \<not> d_mainDone (op_dispatcher (pg_operator s))
     \<and> run_state (checkParentNamespace env exampleOptions exampleService) (ct_world (pg_controllers s))
         = ((False, None), ct_world (pg_controllers s))
     \<and> fmlookup (op_registry (pg_operator s)) (ServiceAt ''shop'' ''web'') \<noteq> None"
proof -
  obtain env tr and s :: "(nat, memory) program" where
    "programRun env (Some exampleOptions) (Some exampleOptions) (clientAnswers memoryClient) exampleOwner (newProgram 0 fmempty) tr s"
    "exampleDeletion \<in> set (history emittedBy (history controllerPart tr))"
    "\<not> d_mainDone (op_dispatcher (pg_operator s))" "atRest (pg_operator s)"
    "ct_service (pg_controllers s) = []" "ct_namespace (pg_controllers s) = []"
    "run_state (checkParentNamespace env exampleOptions exampleService) (ct_world (pg_controllers s))
      = ((False, None), ct_world (pg_controllers s))"
    "fmlookup (op_registry (pg_operator s)) (ServiceAt ''shop'' ''web'') \<noteq> None"
    using racing_program by (elim exE conjE) (rule that)
  then show ?thesis by (intro exI conjI)
qed

text \<open>
  C11. From the settings to the registry: whatever the program registers that \<open>run\<close> has started, in any interleaving,
  names the operator as owner, also if an annotation of the service says otherwise, and has no other
  keys than annotations allowed by the accepted settings and those of owner, platform and network.
\<close>

theorem program_registrations:
  assumes "run_state (run c x) p = (Started start, p')" and "envLaws env"
    and "programRun env (os_serviceController start) (os_namespaceController start) reg (os_persistentMeta start) (newProgram w r) tr s"
    and "Call i (RegisterCall t opts err) \<in> set (operatorTrace tr)"
  shows "\<exists>content parsed st. yamlUnmarshal x content = Inr parsed \<and> ParseAndValidateSettings parsed = Inr st
    \<and> fmlookup (givenMetadata opts) ''owner'' = Some ''cnwan-operator''
    \<and> fset (fmdom (givenMetadata opts)) \<subseteq> {key. annotationAllowed (ss_Annotations (st_Service st)) key}
        \<union> {''owner'', ''cnwan.io/platform'', ''cnwan.io/network'', ''cnwan.io/sub-network''}"
proof (rule started_registrations [OF assms(1,2) programRun_operator(1) [OF assms(3)] _ assms(4)])
  show "\<forall>e \<in> set (produced (operatorTrace tr)). \<exists>o1. os_serviceController start = Some o1 \<and> serviceEmits env o1 e
      \<or> os_namespaceController start = Some o1 \<and> namespaceEmits env o1 e"
    using emitted_by_handlers [OF programRun_operator(3) [OF assms(3)]] programRun_operator(2) [OF assms(3)] by metis
qed

text \<open>The program that the example starts registers the namespace of a service that passes.\<close>

lemma exampleAnnotated_runs:
  "\<exists>rest w. controllersRun exampleEnv (Some exampleStartOptions) no (idleControllers 0)
     [ServiceStarts (effect.Send exampleEvent # rest), ServiceActs (effect.Send exampleEvent)]
     \<lparr>ct_world = w, ct_service = rest, ct_namespace = []\<rparr>"
proof -
  obtain rest w where "serviceHandles exampleEnv exampleStartOptions 0 (effect.Send exampleEvent # rest) w"
    using exampleAnnotated_starts by blast
  from stepping [OF resting service_starts [OF this]] have "controllersRun exampleEnv (Some exampleStartOptions) no (idleControllers 0)
      [ServiceStarts (effect.Send exampleEvent # rest)] \<lparr>ct_world = w, ct_service = effect.Send exampleEvent # rest, ct_namespace = []\<rparr>"
    by simp
  from stepping [OF this serviceActs] show ?thesis by (intro exI [where x = rest] exI [where x = w]) simp
qed

theorem program_registrations_witness:
  "\<exists>start tr (s :: (nat, memory) program). fst (run_state (run exampleCloud exampleSdk) exampleProc) = Started start
     \<and> programRun exampleEnv (os_serviceController start) (os_namespaceController start) (clientAnswers memoryClient)
         (os_persistentMeta start) (newProgram 0 fmempty) tr s
     \<and> callsBy 0 (operatorTrace tr) = [RegisterCall (NamespaceAt ''shop'') [WithMetadata exampleStartMeta] None]
     \<and> fmlookup (givenMetadata [WithMetadata exampleStartMeta]) ''owner'' = Some ''cnwan-operator''"
proof -
  obtain start p' where start: "run_state (run exampleCloud exampleSdk) exampleProc = (Started start, p')"
    and given: "os_persistentMeta start = exampleStartMeta" "os_serviceController start = Some exampleStartOptions"
    using exampleStarted_with by (cases "run_state (run exampleCloud exampleSdk) exampleProc") (auto split: runResult.splits)
  obtain tr and t :: "memory operator" where
    op: "operateAll memoryClient exampleStartMeta startSchedule (newOperator fmempty) = Some (tr, t)"
    and tr: "produced tr = [exampleEvent]" "callsBy 0 tr = [RegisterCall (NamespaceAt ''shop'') [WithMetadata exampleStartMeta] None]"
      "\<not> d_mainDone (op_dispatcher t)"
    using startSchedule_runs by (auto split: option.splits)
  note run = operateAll_run [OF op, folded given(1)]
  obtain rest w where c: "controllersRun exampleEnv (os_serviceController start) (os_namespaceController start) (idleControllers 0)
     [ServiceStarts (effect.Send exampleEvent # rest), ServiceActs (effect.Send exampleEvent)]
     \<lparr>ct_world = w, ct_service = rest, ct_namespace = []\<rparr>"
    using exampleAnnotated_runs [of "os_namespaceController start"] unfolding given(2) by blast
  have "produced tr = history emittedBy [ServiceStarts (effect.Send exampleEvent # rest), ServiceActs (effect.Send exampleEvent)]"
    by (simp add: tr(1) history_def)
  from operator_merges [OF c run operatorRun_not_told [OF run tr(3)] this] obtain ptr and s :: "(nat, memory) program" where
    s: "programRun exampleEnv (os_serviceController start) (os_namespaceController start) (clientAnswers memoryClient)
         (os_persistentMeta start) (newProgram 0 fmempty) ptr s" "operatorTrace ptr = tr"
    by blast
  have "Call 0 (RegisterCall (NamespaceAt ''shop'') [WithMetadata exampleStartMeta] None) \<in> set (operatorTrace ptr)"
    by (simp add: callsBy_member s(2) tr(2))
  from program_registrations [OF start exampleEnv_laws s(1) this]
  have "fmlookup (givenMetadata [WithMetadata exampleStartMeta]) ''owner'' = Some ''cnwan-operator''" by blast
  with start s tr(2) show ?thesis by (intro exI [where x = start] exI [where x = ptr] exI [where x = s]) simp
qed

end
