(* ===== verification/Program_Progress.thy ===== *)
theory Program_Progress
  imports Whole_Program
begin

text \<open>
  When the controllers can go on. Before the operator is told to stop, the handlers at work always get all their events
  sent, however full the channel is, and everything comes to rest after a bounded number of steps. After the
  dispatcher has stopped, nothing that is sent is received, and a handler with more
  events than there are free places in the channel never ends.
\<close>

section \<open>Work\<close>

text \<open>
  The steps that do what there is to do: those of the handlers at work, and those of the operator. A handler
  that was not started yet, a change of the cluster, the clean-up, the clock and the end of the process are not among them.
\<close>

fun worksOff :: "controllerAction \<Rightarrow> bool" where
  "worksOff (ServiceActs eff) = True"
| "worksOff (NamespaceActs eff) = True"
| "worksOff _ = False"

fun progresses :: "programAction \<Rightarrow> bool" where
  "progresses (Sends a e) = True"
| "progresses (Controls a) = worksOff a"
| "progresses (Runs (OperatorActs a)) = forward a"
| "progresses (Runs (ProcessActs a)) = False"

definition programWork :: "('w, 'r) program \<Rightarrow> nat" where
  "programWork s = 8 * (length (ct_service (pg_controllers s)) + length (ct_namespace (pg_controllers s)))
     + workLeft (pg_operator s)"

definition finished :: "('w, 'r) program \<Rightarrow> bool" where
  "finished s \<longleftrightarrow> ct_service (pg_controllers s) = [] \<and> ct_namespace (pg_controllers s) = [] \<and> atRest (pg_operator s)"

lemma runningStep_operatorActs:
  "runningStep reg md p (OperatorActs a) p' \<longleftrightarrow>
     alive (rp_process p) \<and> a \<noteq> Dispatch MainCancel
     \<and> (\<exists>t. operatorStep reg md (rp_operator p) a t \<and> p' = p\<lparr>rp_operator := t\<rparr>)"
  by (auto intro: acts elim: runningStep.cases)

lemma worksOff_less:
  assumes "controllerStep env so no c a c'" and "worksOff a"
  shows "Suc (length (ct_service c') + length (ct_namespace c')) = length (ct_service c) + length (ct_namespace c)"
  using assms(1) by (cases rule: controllerStep.cases) (use assms(2) in auto)

lemma emittedBy_worksOff: "emittedBy a = [e] \<Longrightarrow> worksOff a"
  by (cases a rule: emittedBy.cases) auto

lemma forward_not_cancel: "forward a \<Longrightarrow> a \<noteq> Dispatch MainCancel"
  by auto

lemma programWork_step:
  assumes "programStep env so no reg md s a s'" and "progresses a" and "dispatcherInv (op_dispatcher (pg_operator s))"
  shows "programWork s' < programWork s" and "rp_process (pg_process s') = rp_process (pg_process s)"
    and "d_mainDone (op_dispatcher (pg_operator s')) = d_mainDone (op_dispatcher (pg_operator s))"
  using assms(1)
proof -
  have "programWork s' < programWork s \<and> rp_process (pg_process s') = rp_process (pg_process s)
    \<and> d_mainDone (op_dispatcher (pg_operator s')) = d_mainDone (op_dispatcher (pg_operator s))"
    using assms(1)
  proof (cases rule: programStep.cases)
    case (sends a e c p)
    then obtain q where q: "operatorSend (op_channel (pg_operator s)) e = Some q"
      "p = (pg_process s)\<lparr>rp_operator := (pg_operator s)\<lparr>op_channel := q\<rparr>\<rparr>"
      by (auto simp: runningStep_operatorActs operatorStep_simps)
    then have "workLeft (rp_operator p) = 7 + workLeft (pg_operator s)"
      by (auto simp: workLeft_def operatorSend_def split: if_splits)
    with worksOff_less [OF sends(4) emittedBy_worksOff [OF sends(3)]] show ?thesis
      using sends(2) q(2) by (simp add: programWork_def)
  next
    case (controls a c)
    with worksOff_less [OF controls(5)] assms(2) show ?thesis by (simp add: programWork_def)
  next
    case (runs b p)
    with assms(2) obtain a where b: "b = OperatorActs a" "forward a" by (cases b) auto
    with runs(4) obtain t where t: "operatorStep reg md (pg_operator s) a t" "p = (pg_process s)\<lparr>rp_operator := t\<rparr>"
      by (auto simp: runningStep_operatorActs)
    from workLeft_forward [OF t(1) b(2) assms(3)] operatorStep_mainDone [OF t(1) forward_not_cancel [OF b(2)]] runs(2) t(2)
    show ?thesis by (simp add: programWork_def)
  qed
  then show "programWork s' < programWork s" "rp_process (pg_process s') = rp_process (pg_process s)"
    "d_mainDone (op_dispatcher (pg_operator s')) = d_mainDone (op_dispatcher (pg_operator s))" by simp_all
qed

lemma programRun_inv:
  assumes "programRun env so no reg md s tr s'" and "dispatcherInv (op_dispatcher (pg_operator s))"
  shows "dispatcherInv (op_dispatcher (pg_operator s'))"
proof -
  have "operatorRun reg md (pg_operator s) (operatorTrace tr) (pg_operator s')"
    using programRun_parts [OF assms(1)] processRuns_operator by blast
  from dispatcherInv_execution [OF operatorRun_dispatches [OF this] assms(2)] show ?thesis .
qed

lemma programWork_run:
  assumes "programRun env so no reg md s tr s'" and "list_all progresses tr" and "dispatcherInv (op_dispatcher (pg_operator s))"
  shows "length tr + programWork s' \<le> programWork s \<and> rp_process (pg_process s') = rp_process (pg_process s)
    \<and> d_mainDone (op_dispatcher (pg_operator s')) = d_mainDone (op_dispatcher (pg_operator s))"
  using assms
proof (induction rule: programRun.induct)
  case (goesOn tr s1 a s2)
  from goesOn.prems have a: "progresses a" "list_all progresses tr" by simp_all
  note step = programWork_step [OF goesOn(2) a(1) programRun_inv [OF goesOn(1) assms(3)]]
  from goesOn.IH [OF a(2) assms(3)] step show ?case by simp
qed simp

text \<open>As long as the operator was not told to stop, the process is alive.\<close>

lemma not_told_alive:
  assumes "programRun env so no reg md (newProgram w r) tr s" and "\<not> d_mainDone (op_dispatcher (pg_operator s))"
  shows "alive (rp_process (pg_process s))" and "dispatcherInv (op_dispatcher (pg_operator s))"
proof -
  from processRuns_parts [OF programRun_operator(4) [OF assms(1)]] obtain as where
    parts: "processRun as (rp_process (pg_process s))" "agree (pg_process s)" by blast
  show inv: "dispatcherInv (op_dispatcher (pg_operator s))"
    using reachable_invariants [OF operatorRun_worker(1) [OF programRun_operator(1) [OF assms(1)]]] by simp
  have "d_pc (op_dispatcher (pg_operator s)) \<noteq> Returned"
    using inv assms(2) by (auto simp: dispatcherInv_def pcInv_def)
  with parts assms(2) processInv_run [OF parts(1)] show "alive (rp_process (pg_process s))"
    by (auto simp: agree_def alive_def processInv_def)
qed

lemma goes_on_unless_finished:
  assumes "alive (rp_process (pg_process s))" and "dispatcherInv (op_dispatcher (pg_operator s))"
    and "\<not> d_mainDone (op_dispatcher (pg_operator s))" and "answering reg" and "\<not> finished s"
  shows "\<exists>a s'. programStep env so no reg md s a s' \<and> progresses a"
proof (cases "settled reg md (pg_operator s)")
  case False
  then obtain a t where a: "operatorStep reg md (pg_operator s) a t" "forward a" unfolding settled_def by blast
  have "sendsOf (OperatorActs a) = []" using a(2) by (cases a) simp_all
  moreover have "runningStep reg md (pg_process s) (OperatorActs a) ((pg_process s)\<lparr>rp_operator := t\<rparr>)"
    by (rule acts [OF assms(1) forward_not_cancel [OF a(2)] a(1)])
  ultimately have "programStep env so no reg md s (Runs (OperatorActs a)) (s\<lparr>pg_process := (pg_process s)\<lparr>rp_operator := t\<rparr>\<rparr>)"
    by (rule runs)
  moreover have "progresses (Runs (OperatorActs a))" using a(2) by simp
  ultimately show ?thesis by blast
next
  case True
  with settled_atRest [OF assms(4) _ assms(2,3)] have rest: "atRest (pg_operator s)" by blast
  then have free: "operatorSend (op_channel (pg_operator s)) e = Some [e]" for e
    by (simp add: atRest_def operatorSend_def operatorChanSize_def)
  have send: "runningStep reg md (pg_process s) (OperatorActs (Produce e))
      ((pg_process s)\<lparr>rp_operator := (pg_operator s)\<lparr>op_channel := [e]\<rparr>\<rparr>)" for e
    by (rule acts [OF assms(1)]) (simp_all add: produce [OF free])
  have one: "\<exists>a s'. programStep env so no reg md s a s' \<and> progresses a"
    if "controllerStep env so no (pg_controllers s) a c" "worksOff a" for a c
  proof (rule emittedBy_cases [of a])
    assume "emittedBy a = []"
    from controls [OF this assms(1) that(1)] progresses.simps(2) [of a] that(2) show ?thesis by blast
  next
    fix e
    assume "emittedBy a = [e]"
    from sends [OF this that(1) send] progresses.simps(1) [of a e] show ?thesis by blast
  qed
  from rest assms(5) consider eff effs where "ct_service (pg_controllers s) = eff # effs"
    | eff effs where "ct_namespace (pg_controllers s) = eff # effs"
    unfolding finished_def by (metis neq_Nil_conv)
  then show ?thesis
  proof cases
    case (1 eff effs)
    show ?thesis by (rule one [OF serviceActs [OF 1]]) simp
  next
    case (2 eff effs)
    show ?thesis by (rule one [OF namespaceActs [OF 2]]) simp
  qed
qed

section \<open>After the dispatcher has stopped\<close>

text \<open>
  The dispatcher has seen the end of its context, and waits for its workers or has returned. From then on it
  does not receive.
\<close>

definition stopped :: "dispatcher \<Rightarrow> bool" where
  "stopped d \<longleftrightarrow> d_pc d = Waiting \<or> d_pc d = Returned"

lemma stopped_step:
  assumes "operatorStep reg md s a s'" and "stopped (op_dispatcher s)"
  shows "stopped (op_dispatcher s') \<and> op_channel s' = op_channel s @ produced [a]"
  using assms
  by (cases rule: operatorStep.cases)
    (auto simp: stopped_def operatorSend_def split: if_splits elim!: dispatchStep.cases)

lemma stopped_run:
  "operatorRun reg md s tr s' \<Longrightarrow> stopped (op_dispatcher s) \<Longrightarrow>
     stopped (op_dispatcher s') \<and> op_channel s' = op_channel s @ produced tr"
proof (induction rule: operatorRun.induct)
  case (more tr s1 a s2)
  with stopped_step [OF more(2)] show ?case by (auto simp del: operator_history_single)
qed simp

text \<open>What a controller has sent and has still to send never becomes less than what it had to send.\<close>

lemma leftToSend:
  assumes "controllersRun env so no c as c'"
  shows "length (sent (ct_service c)) \<le> length (history serviceSentBy as) + length (sent (ct_service c'))"
    and "length (sent (ct_namespace c)) \<le> length (history namespaceSentBy as) + length (sent (ct_namespace c'))"
    and "length (history emittedBy as) = length (history serviceSentBy as) + length (history namespaceSentBy as)"
proof -
  have "length (sent (ct_service c)) \<le> length (history serviceSentBy as) + length (sent (ct_service c'))
    \<and> length (sent (ct_namespace c)) \<le> length (history namespaceSentBy as) + length (sent (ct_namespace c'))
    \<and> length (history emittedBy as) = length (history serviceSentBy as) + length (history namespaceSentBy as)"
    using assms
  proof (induction rule: controllersRun.induct)
    case (stepping as c1 a c2)
    from stepping(2) stepping.IH show ?case
    proof (cases rule: controllerStep.cases)
      case (serviceActs eff effs)
      with stepping.IH show ?thesis by (cases eff) simp_all
    next
      case (namespaceActs eff effs)
      with stepping.IH show ?thesis by (cases eff) simp_all
    qed simp_all
  qed simp
  then show "length (sent (ct_service c)) \<le> length (history serviceSentBy as) + length (sent (ct_service c'))"
    "length (sent (ct_namespace c)) \<le> length (history namespaceSentBy as) + length (sent (ct_namespace c'))"
    "length (history emittedBy as) = length (history serviceSentBy as) + length (history namespaceSentBy as)" by simp_all
qed

definition freePlaces :: "('w, 'r) program \<Rightarrow> nat" where
  "freePlaces s = operatorChanSize - length (op_channel (pg_operator s))"

lemma stopped_places:
  assumes "programRun env so no reg md s tr s'" and "stopped (op_dispatcher (pg_operator s))"
    and "length (op_channel (pg_operator s')) \<le> operatorChanSize"
  shows "length (history emittedBy (history controllerPart tr)) \<le> freePlaces s"
proof -
  from programRun_parts [OF assms(1)] processRuns_operator have
    op: "operatorRun reg md (pg_operator s) (operatorTrace tr) (pg_operator s')"
    and same: "history sendsOf (history processPart tr) = history emittedBy (history controllerPart tr)" by blast+
  from stopped_run [OF op assms(2)] assms(3) same show ?thesis
    by (simp add: freePlaces_def produced_operatorPart)
qed

lemma stopped_program:
  assumes "programRun env so no reg md s tr s'" and "stopped (op_dispatcher (pg_operator s))"
  shows "stopped (op_dispatcher (pg_operator s'))"
proof -
  from programRun_parts [OF assms(1)] processRuns_operator have
    "operatorRun reg md (pg_operator s) (operatorTrace tr) (pg_operator s')" by blast
  from stopped_run [OF this assms(2)] show ?thesis by blast
qed

lemma nothing_received:
  assumes "programRun env so no reg md s tr s'" and "stopped (op_dispatcher (pg_operator s))"
  shows "Runs (OperatorActs (Dispatch (Receive e))) \<notin> set tr"
  using assms
proof (induction rule: programRun.induct)
  case (goesOn tr s1 a s2)
  have "a \<noteq> Runs (OperatorActs (Dispatch (Receive e)))"
  proof
    assume "a = Runs (OperatorActs (Dispatch (Receive e)))"
    with goesOn(2) have "runningStep reg md (pg_process s1) (OperatorActs (Dispatch (Receive e))) (pg_process s2)"
      by (auto elim: programStep.cases)
    then have "d_pc (op_dispatcher (pg_operator s1)) = Selecting"
      by (auto simp: runningStep_operatorActs operatorStep_simps dispatchStep_simps)
    with stopped_program [OF goesOn(1) goesOn.prems] show False by (simp add: stopped_def)
  qed
  with goesOn show ?case by simp
qed simp

lemma programRun_append:
  "programRun env so no reg md s1 tr' s2 \<Longrightarrow> programRun env so no reg md s tr s1 \<Longrightarrow> programRun env so no reg md s (tr @ tr') s2"
  by (induction rule: programRun.induct) (auto intro: programRun.goesOn simp flip: append_assoc)

text \<open>A handler whose events fit into the channel can end.\<close>

definition sending :: "(effect \<Rightarrow> controllerAction) \<Rightarrow> ('w controllers \<Rightarrow> effect list) \<Rightarrow> bool" where
  "sending act left \<longleftrightarrow>
     (\<forall>eff. emittedBy (act eff) = sent [eff]) \<and>
     (\<forall>(env :: 'w env) so no c eff effs. left c = eff # effs \<longrightarrow> (\<exists>c'. controllerStep env so no c (act eff) c' \<and> left c' = effs))"

lemma sending_controllers: "sending ServiceActs ct_service" "sending NamespaceActs ct_namespace"
proof -
  have "emittedBy (ServiceActs eff) = sent [eff]" "emittedBy (NamespaceActs eff) = sent [eff]" for eff by (cases eff; simp)+
  then show "sending ServiceActs ct_service" "sending NamespaceActs ct_namespace"
    unfolding sending_def using serviceActs namespaceActs by fastforce+
qed

lemma handler_can_end:
  assumes "sending act left" and "alive (rp_process (pg_process s))" and "left (pg_controllers s) = effs"
    and "length (sent effs) \<le> freePlaces s"
  shows "\<exists>tr s'. programRun env so no reg md s tr s' \<and> left (pg_controllers s') = []"
  using assms(2-4)
proof (induction effs arbitrary: s)
  case Nil
  then show ?case using begins by blast
next
  case (Cons eff effs)
  from assms(1) Cons.prems(2) obtain c where c: "controllerStep env so no (pg_controllers s) (act eff) c" "left c = effs"
    and emits: "emittedBy (act eff) = sent [eff]" unfolding sending_def by blast
  have "\<exists>a s1. programStep env so no reg md s a s1 \<and> alive (rp_process (pg_process s1)) \<and> left (pg_controllers s1) = effs
      \<and> length (sent effs) \<le> freePlaces s1"
  proof (cases eff)
    case (Send e)
    let ?q = "op_channel (pg_operator s) @ [e]"
    from Cons.prems(3) Send have free: "operatorSend (op_channel (pg_operator s)) e = Some ?q"
      by (simp add: operatorSend_def freePlaces_def)
    have "runningStep reg md (pg_process s) (OperatorActs (Produce e))
        ((pg_process s)\<lparr>rp_operator := (pg_operator s)\<lparr>op_channel := ?q\<rparr>\<rparr>)"
      by (rule acts [OF Cons.prems(1)]) (simp_all add: produce [OF free])
    from sends [OF _ c(1) this] emits Send have "programStep env so no reg md s (Sends (act eff) e)
        (s\<lparr>pg_controllers := c, pg_process := (pg_process s)\<lparr>rp_operator := (pg_operator s)\<lparr>op_channel := ?q\<rparr>\<rparr>\<rparr>)" by simp
    moreover have "length (sent effs) \<le> operatorChanSize - Suc (length (op_channel (pg_operator s)))"
      using Cons.prems(3) Send by (simp add: freePlaces_def)
    ultimately show ?thesis using c(2) Cons.prems(1) by (intro exI conjI) (assumption, simp_all add: freePlaces_def)
  next
    case WqDone
    from controls [OF _ Cons.prems(1) c(1)] emits WqDone have "programStep env so no reg md s (Controls (act eff)) (s\<lparr>pg_controllers := c\<rparr>)"
      by simp
    then show ?thesis using c(2) Cons.prems WqDone by (intro exI conjI) (assumption, simp_all add: freePlaces_def)
  qed
  then obtain a s1 where 1: "programStep env so no reg md s a s1" "alive (rp_process (pg_process s1))"
    "left (pg_controllers s1) = effs" "length (sent effs) \<le> freePlaces s1" by blast
  from Cons.IH [OF 1(2,3,4)] obtain tr s' where "programRun env so no reg md s1 tr s'" "left (pg_controllers s') = []" by blast
  with programRun_append [OF this(1) goesOn [OF begins 1(1)]] show ?case by blast
qed

section \<open>Properties\<close>

text \<open>
  C12. The program gets its work done: from any state that it can reach before it is told to stop, whatever the
  order in which the handlers at work send, events are received and passed on, and calls are made, there are at
  most as many such steps as \<open>programWork\<close> says, and after each of them either the handlers have ended and
  the operator is at rest, or another step is possible. In particular no full channel blocks a
  controller for ever.
\<close>

theorem program_comes_to_rest:
  assumes "programRun env so no reg md (newProgram w r) tr s" and "\<not> d_mainDone (op_dispatcher (pg_operator s))"
    and "answering reg" and "programRun env so no reg md s tr' s'" and "list_all progresses tr'"
  shows "length tr' \<le> programWork s
    \<and> (finished s' \<or> (\<exists>a s''. programStep env so no reg md s' a s'' \<and> progresses a))"
proof -
  note ok = not_told_alive [OF assms(1,2)]
  note run = programWork_run [OF assms(4,5) ok(2)]
  from goes_on_unless_finished [OF _ programRun_inv [OF assms(4) ok(2)] _ assms(3)] run ok(1) assms(2)
  show ?thesis by fastforce
qed

theorem program_comes_to_rest_witness:
  "\<exists>tr' (s :: (nat, memory) program) s'.
     programRun exampleEnv (Some exampleStartOptions) None (clientAnswers memoryClient) exampleOwner s tr' s'
     \<and> ct_service (pg_controllers s) \<noteq> [] \<and> length tr' = 1 \<and> length tr' \<le> programWork s
     \<and> (finished s' \<or> (\<exists>a s''. programStep exampleEnv (Some exampleStartOptions) None (clientAnswers memoryClient) exampleOwner s' a s''
          \<and> progresses a))"
proof -
  let ?step = "programStep exampleEnv (Some exampleStartOptions) None (clientAnswers memoryClient) exampleOwner"
  obtain rest w where handled: "serviceHandles exampleEnv exampleStartOptions 0 (effect.Send exampleEvent # rest) w"
    using exampleAnnotated_starts by blast
  let ?c = "\<lparr>ct_world = w, ct_service = effect.Send exampleEvent # rest, ct_namespace = []\<rparr>"
  let ?p = "newProcess fmempty :: memory runningProcess"
  let ?s = "\<lparr>pg_controllers = ?c, pg_process = ?p\<rparr>"
  have "controllerStep exampleEnv (Some exampleStartOptions) None (idleControllers 0) (ServiceStarts (effect.Send exampleEvent # rest)) ?c"
    by (rule service_starts [OF handled])
  then have "?step (newProgram 0 fmempty) (Controls (ServiceStarts (effect.Send exampleEvent # rest))) ?s"
    using controls [of "ServiceStarts (effect.Send exampleEvent # rest)" "newProgram 0 fmempty"]
    by (simp add: newProgram_def alive_new)
  from goesOn [OF begins this] have run: "programRun exampleEnv (Some exampleStartOptions) None (clientAnswers memoryClient)
      exampleOwner (newProgram 0 fmempty) [Controls (ServiceStarts (effect.Send exampleEvent # rest))] ?s" by simp
  have "controllerStep exampleEnv (Some exampleStartOptions) None ?c (ServiceActs (effect.Send exampleEvent)) (?c\<lparr>ct_service := rest\<rparr>)"
    by (rule serviceActs) simp
  moreover have "runningStep (clientAnswers memoryClient) exampleOwner ?p (OperatorActs (Produce exampleEvent))
      (?p\<lparr>rp_operator := (newOperator fmempty)\<lparr>op_channel := [exampleEvent]\<rparr>\<rparr>)"
    by (simp add: runningStep_operatorActs alive_new operatorStep_simps operatorSend_def)
      (simp add: newProcess_def newOperator_def operatorChanSize_def)
  ultimately obtain s' where "?step ?s (Sends (ServiceActs (effect.Send exampleEvent)) exampleEvent) s'"
    using sends [of "ServiceActs (effect.Send exampleEvent)" exampleEvent _ _ _ ?s] by fastforce
  from goesOn [OF begins this] have run': "programRun exampleEnv (Some exampleStartOptions) None (clientAnswers memoryClient)
      exampleOwner ?s [Sends (ServiceActs (effect.Send exampleEvent)) exampleEvent] s'" by simp
  have "\<not> d_mainDone (op_dispatcher (pg_operator ?s))" by (simp add: newProcess_def newOperator_def newEventHandler_def)
  from program_comes_to_rest [OF run this client_answering run'] run' show ?thesis
    by (intro exI [where x = "[Sends (ServiceActs (effect.Send exampleEvent)) exampleEvent]"] exI [where x = ?s] exI [where x = s']) simp
qed

text \<open>
  C13. After the dispatcher has stopped, as it does after the signal, the controllers go on until the process ends,
  but nobody receives: no event is received any more, and the handler that a controller is in can end
  exactly if what it has still to send fits into the free places of the channel.
\<close>

theorem handler_ends_iff:
  assumes "programRun env so no reg md (newProgram w r) tr s" and "alive (rp_process (pg_process s))"
    and "stopped (op_dispatcher (pg_operator s))"
  shows "(\<nexists>tr' s' e. programRun env so no reg md s tr' s' \<and> Runs (OperatorActs (Dispatch (Receive e))) \<in> set tr')
    \<and> ((\<exists>tr' s'. programRun env so no reg md s tr' s' \<and> ct_service (pg_controllers s') = [])
        \<longleftrightarrow> length (sent (ct_service (pg_controllers s))) \<le> freePlaces s)
    \<and> ((\<exists>tr' s'. programRun env so no reg md s tr' s' \<and> ct_namespace (pg_controllers s') = [])
        \<longleftrightarrow> length (sent (ct_namespace (pg_controllers s))) \<le> freePlaces s)"
proof -
  have places: "length (history emittedBy (history controllerPart tr')) \<le> freePlaces s"
    if "programRun env so no reg md s tr' s'" for tr' s'
    using stopped_places [OF that assms(3)] channelInv_run [OF programRun_operator(1) [OF programRun_append [OF that assms(1)]]]
    by (simp add: channelInv_def)
  have ended: "length (sent (ct_service (pg_controllers s))) \<le> freePlaces s" if "programRun env so no reg md s tr' s'"
    "ct_service (pg_controllers s') = []" for tr' s'
    using places [OF that(1)] leftToSend [OF programRun_parts [OF that(1), THEN conjunct1]] that(2) by simp
  have ended': "length (sent (ct_namespace (pg_controllers s))) \<le> freePlaces s" if "programRun env so no reg md s tr' s'"
    "ct_namespace (pg_controllers s') = []" for tr' s'
    using places [OF that(1)] leftToSend [OF programRun_parts [OF that(1), THEN conjunct1]] that(2) by simp
  have "\<nexists>tr' s' e. programRun env so no reg md s tr' s' \<and> Runs (OperatorActs (Dispatch (Receive e))) \<in> set tr'"
    using nothing_received [OF _ assms(3)] by blast
  then show ?thesis
    using ended ended' handler_can_end [OF sending_controllers(1) assms(2) refl] handler_can_end [OF sending_controllers(2) assms(2) refl]
    by blast
qed

text \<open>A service with sixty ports and two addresses, which makes 122 events, created when the program is told to stop.\<close>

definition exampleBusy :: k8sService where
  "exampleBusy = exampleService\<lparr>svc_Ports := map of_nat [1..<61]\<rparr>"

lemma exampleBusy_starts:
  "\<exists>effs w. serviceHandles exampleEnv exampleOptions 0 effs w \<and> length (sent effs) = 122"
proof -
  have kind: "svc_Type exampleBusy = serviceTypeLoadBalancer" "svc_Namespace exampleBusy = ''shop''"
    "svc_Annotations exampleBusy = svc_Annotations exampleService" "length (svc_Ports exampleBusy) = 60"
    by (simp_all add: exampleBusy_def exampleService_def serviceTypeLoadBalancer_def)
  have order: "mapOrder exampleEnv = sortedOrder" by (simp add: exampleEnv_def)
  have ips: "run_state (getIPsFromService exampleEnv exampleBusy 10) 0 = (Inr [''10.0.0.1'', ''192.0.2.7''], 3)" by code_simp
  have some: "fmap_of_list [(''prefix.io/one'', ''1'')] \<noteq> fmempty" by code_simp
  have found: "run_state (getNamespace exampleEnv ''shop'') w = (Inr exampleNamespace, w)" for w by (simp add: exampleEnv_def)
  obtain effs w where run: "run_state (serviceCreate exampleEnv exampleOptions (KService exampleBusy)) 0 = (effs, w)" by fastforce
  then have "effs = map effect.Send (createEvents exampleBusy (endpointsOf exampleBusy (fmap_of_list [(''prefix.io/one'', ''1'')])
      [''10.0.0.1'', ''192.0.2.7''])) @ [WqDone]"
    by (auto simp: serviceCreate_def checkParentNamespace_def checkService_def found exampleNamespace_watched kind order some
        exampleService_annotations ips exampleOptions_keep createEvents_def)
  then have "length (sent effs) = 122"
    by (simp add: createEvents_def length_endpointsOf kind(4))
  with serviceCreated [OF run] show ?thesis by blast
qed

theorem handler_ends_iff_witness:
  "\<exists>tr (s :: (nat, memory) program).
     programRun exampleEnv (Some exampleOptions) None (clientAnswers memoryClient) exampleOwner (newProgram 0 fmempty) tr s
     \<and> alive (rp_process (pg_process s)) \<and> ct_service (pg_controllers s) \<noteq> []
     \<and> (\<nexists>tr' s'. programRun exampleEnv (Some exampleOptions) None (clientAnswers memoryClient) exampleOwner s tr' s'
          \<and> ct_service (pg_controllers s') = [])"
proof -
  obtain effs w where handled: "serviceHandles exampleEnv exampleOptions 0 effs w" and many: "length (sent effs) = 122"
    using exampleBusy_starts by blast
  let ?c = "\<lparr>ct_world = w, ct_service = effs, ct_namespace = []\<rparr>"
  let ?reg = "clientAnswers memoryClient" let ?q = "signalledProcess fmempty :: memory runningProcess"
  have "controllerStep exampleEnv (Some exampleOptions) None (idleControllers 0) (ServiceStarts effs) ?c"
    by (rule service_starts [OF handled])
  from stepping [OF resting this] have c: "controllersRun exampleEnv (Some exampleOptions) None (idleControllers 0) [ServiceStarts effs] ?c"
    by simp
  let ?d = "newEventHandler\<lparr>d_mainDone := True, d_pc := Returned\<rparr>"
  let ?p = "?q\<lparr>rp_operator := (newOperator fmempty)\<lparr>op_dispatcher := ?d\<rparr>\<rparr>"
  have "runningStep ?reg exampleOwner ?q (OperatorActs (Dispatch Stop)) ?p"
    by (auto simp: runningStep_operatorActs operatorStep_simps dispatchStep_simps signalledProcess_def alive_def startedProcess_def
        newOperator_def newEventHandler_def cancelRequested_def)
  from further [OF signalled_run this] have p: "processRuns ?reg exampleOwner (newProcess fmempty)
      [ProcessActs Signal, ProcessActs GetSignal, OperatorActs (Dispatch Stop)] ?p" by simp
  let ?s = "\<lparr>pg_controllers = ?c, pg_process = ?p\<rparr>"
  from merged_new [OF c p] obtain tr where run:
    "programRun exampleEnv (Some exampleOptions) None ?reg exampleOwner (newProgram 0 fmempty) tr ?s"
    unfolding mergesTo_def by (auto simp: history_def)
  have live: "alive (rp_process (pg_process ?s))" "stopped (op_dispatcher (pg_operator ?s))" "freePlaces ?s = 100"
    by (simp_all add: signalledProcess_def alive_def startedProcess_def stopped_def freePlaces_def newOperator_def operatorChanSize_def)
  from handler_ends_iff [OF run live(1,2)] live(3) many have
    "\<nexists>tr' s'. programRun exampleEnv (Some exampleOptions) None ?reg exampleOwner ?s tr' s' \<and> ct_service (pg_controllers s') = []"
    by simp
  moreover have "effs \<noteq> []" using many by auto
  ultimately show ?thesis using run live(1) by (intro exI [where x = tr] exI [where x = ?s]) simp
qed

end
