(* ===== verification/Update_Reflected.thy ===== *)
theory Update_Reflected
  imports Registry_Reflects
begin

text \<open>
  A service is created and then updated: what the service controller sends for both, and what is in the registry
  when the running operator has carried it out.
\<close>

section \<open>Events about endpoints\<close>

definition endpointNames :: "event list \<Rightarrow> string set" where
  "endpointNames es = {ep_Name ep | e ep. e \<in> set es \<and> ev_Object e = EndpointObject ep}"

lemma endpointNames_append [simp]: "endpointNames (es @ es') = endpointNames es \<union> endpointNames es'"
  by (auto simp: endpointNames_def)

lemma endpointNames_Cons: "endpointNames (e # es) = endpointNames [e] \<union> endpointNames es"
  using endpointNames_append [of "[e]" es] by simp

lemma endpointNames_single [simp]:
  "endpointNames [] = {}"
  "endpointNames [mkEvent t (EndpointObject ep)] = {ep_Name ep}"
  "endpointNames [mkEvent t (ServiceObject ns name)] = {}"
  "endpointNames [mkEvent t (NamespaceObject ns)] = {}"
  by (auto simp: endpointNames_def)

lemma endpointNames_createEvents: "endpointNames (createEvents s eps) = ep_Name ` set eps"
proof -
  have "endpointNames (map (\<lambda>ep. mkEvent EventCreate (EndpointObject ep)) eps) = ep_Name ` set eps"
  proof (induction eps)
    case (Cons ep eps)
    then show ?case
      using endpointNames_Cons [of "mkEvent EventCreate (EndpointObject ep)" "map (\<lambda>ep. mkEvent EventCreate (EndpointObject ep)) eps"]
      by simp
  qed simp
  then show ?thesis
    by (simp add: createEvents_def
        endpointNames_Cons [of "mkEvent EventCreate (NamespaceObject (svc_Namespace s))"]
        endpointNames_Cons [of "mkEvent EventCreate (ServiceObject (svc_Namespace s) (svc_Name s))"])
qed

lemma endpointNames_updateEvents:
  assumes "updateEvents olds curs upd"
  shows "endpointNames upd = ep_Name ` set olds"
proof -
  let ?f = "\<lambda>ep. case fmlookup (getEndpointsMapFromSlice curs) (ep_Name ep) of
             None \<Rightarrow> mkEvent EventDelete (EndpointObject ep)
           | Some currEp \<Rightarrow> mkEvent EventUpdate (EndpointObject currEp)"
  from assms obtain eps where eps: "ep_Name ` set eps = ep_Name ` set olds" and upd: "upd = map ?f eps"
    unfolding updateEvents_def by blast
  have same: "\<exists>ep'. ev_Object (?f ep) = EndpointObject ep' \<and> ep_Name ep' = ep_Name ep" for ep
    using endpointsMap_named [of curs "ep_Name ep"] by (auto split: option.split)
  have "endpointNames (map ?f xs) = ep_Name ` set xs" for xs
  proof (induction xs)
    case (Cons x xs)
    obtain ep' where "ev_Object (?f x) = EndpointObject ep'" "ep_Name ep' = ep_Name x" using same by blast
    then have "endpointNames [?f x] = {ep_Name x}" by (auto simp: endpointNames_def)
    with Cons endpointNames_append [of "[?f x]" "map ?f xs"] show ?case by simp
  qed (simp add: endpointNames_def)
  with eps upd show ?thesis by simp
qed

abbreviation endpointAt :: "k8sService \<Rightarrow> string \<Rightarrow> target" where
  "endpointAt s name \<equiv> EndpointAt (svc_Namespace s) (svc_Name s) name"

lemma about_endpoint:
  assumes "nw_namespace n = svc_Namespace s"
  shows "about n (endpointAt s name) e \<longleftrightarrow> (\<exists>ep. ev_Object e = EndpointObject ep \<and> ep_Service ep = svc_Name s \<and> ep_Name ep = name)"
  using assms by (cases "ev_Object e") (auto simp: about_def)

text \<open>All events about endpoints are about endpoints of the service.\<close>

definition ofService :: "k8sService \<Rightarrow> event list \<Rightarrow> bool" where
  "ofService s es \<longleftrightarrow> (\<forall>e \<in> set es. \<forall>ep. ev_Object e = EndpointObject ep \<longrightarrow> ep_Service ep = svc_Name s)"

lemma ofService_append [simp]: "ofService s (es @ es') \<longleftrightarrow> ofService s es \<and> ofService s es'"
  by (auto simp: ofService_def)

lemma lastAbout_endpoint:
  assumes "nw_namespace n = svc_Namespace s" and "ofService s es"
  shows "lastAbout n (endpointAt s name) es = None \<longleftrightarrow> name \<notin> endpointNames es"
    and "lastAbout n (endpointAt s name) es = Some e \<Longrightarrow>
      e \<in> set es \<and> (\<exists>ep. ev_Object e = EndpointObject ep \<and> ep_Name ep = name)"
proof -
  show "lastAbout n (endpointAt s name) es = None \<longleftrightarrow> name \<notin> endpointNames es"
    using assms(2) unfolding lastAbout_None about_endpoint [OF assms(1)] endpointNames_def ofService_def by blast
  show "lastAbout n (endpointAt s name) es = Some e \<Longrightarrow>
      e \<in> set es \<and> (\<exists>ep. ev_Object e = EndpointObject ep \<and> ep_Name ep = name)"
    using lastAbout_Some [of n "endpointAt s name" es e] about_endpoint [OF assms(1)] by blast
qed

section \<open>What creation and update send\<close>

lemma aboutService_ofService:
  assumes "\<And>e. e \<in> set es \<Longrightarrow> aboutService cur keep e \<or> aboutService old keep e"
    and "svc_Name old = svc_Name cur"
  shows "ofService cur es"
  unfolding ofService_def
proof (intro ballI allI impI)
  fix e ep
  assume "e \<in> set es" and "ev_Object e = EndpointObject ep"
  with assms(1) [of e] show "ep_Service ep = svc_Name cur"
    using assms(2) by (auto simp: aboutService_def typedEndpoint_def)
qed

text \<open>
  The events of an update after which the service passes: for every endpoint event its name
  and whether the current service has it.
\<close>

definition updatesTo :: "k8sService \<Rightarrow> endpoint list \<Rightarrow> event list \<Rightarrow> bool" where
  "updatesTo cur eps es \<longleftrightarrow> ofService cur es
     \<and> (\<forall>e \<in> set es. \<forall>ep. ev_Object e = EndpointObject ep \<longrightarrow>
          (if ev_EventType e = EventDelete then ep_Name ep \<notin> ep_Name ` set eps else ep \<in> set eps))
     \<and> (\<forall>e \<in> set es. ev_EventType e = EventDelete \<longrightarrow> (\<exists>ep. ev_Object e = EndpointObject ep))"

lemma createEvents_updatesTo: "endpointsOfService cur eps \<Longrightarrow> set eps' \<subseteq> set eps \<Longrightarrow> updatesTo cur eps (createEvents cur eps')"
  by (auto simp: updatesTo_def ofService_def createEvents_def endpointsOfService_def)

lemma updateEvents_updatesTo:
  assumes "updateEvents olds curs upd" and "endpointsOfService cur (olds @ curs)"
  shows "updatesTo cur curs upd"
proof -
  have "case fmlookup (getEndpointsMapFromSlice curs) name of None \<Rightarrow> name \<notin> ep_Name ` set curs
      | Some ep \<Rightarrow> ep \<in> set curs \<and> ep_Name ep = name" for name
  proof -
    have "name \<in> ep_Name ` set curs \<longleftrightarrow> fmlookup (getEndpointsMapFromSlice curs) name \<noteq> None"
      by (simp add: fmlookup_dom_iff flip: endpointsMap_dom)
    then show ?thesis using endpointsMap_named [of curs name] by (auto split: option.split)
  qed
  note lookup = this
  have "\<exists>ep. ev_Object e = EndpointObject ep \<and> ep_Service ep = svc_Name cur
      \<and> (if ev_EventType e = EventDelete then ep_Name ep \<notin> ep_Name ` set curs else ep \<in> set curs)" if "e \<in> set upd" for e
  proof -
    from that assms(1) obtain ep where ep: "ep \<in> set olds" and
      e: "e = (case fmlookup (getEndpointsMapFromSlice curs) (ep_Name ep) of
             None \<Rightarrow> mkEvent EventDelete (EndpointObject ep)
           | Some currEp \<Rightarrow> mkEvent EventUpdate (EndpointObject currEp))"
      unfolding updateEvents_def by (elim exE conjE) (simp only: set_map, blast)
    with lookup [of "ep_Name ep"] assms(2) show ?thesis
      by (cases "fmlookup (getEndpointsMapFromSlice curs) (ep_Name ep)") (simp_all add: endpointsOfService_def)
  qed
  then show ?thesis unfolding updatesTo_def ofService_def by (metis registryObject.inject(3))
qed

lemma updatesTo_append: "updatesTo cur eps es \<Longrightarrow> updatesTo cur eps es' \<Longrightarrow> updatesTo cur eps (es @ es')"
  by (auto simp: updatesTo_def)

lemma update_sent:
  assumes "envLaws env" and "run_state (serviceUpdate env opts (KService cur, KService old)) w = (updated, w')"
    and "sameService (KService cur, KService old)"
    and "mkEvent EventCreate (ServiceObject (svc_Namespace cur) (svc_Name cur)) \<in> set (sent updated)"
  shows "\<exists>rc. checkSpec env cur (co_ServiceAnnotations opts) rc \<and> cs_passed rc
    \<and> updatesTo cur (cs_endpoints rc) (sent updated)"
proof -
  from pred_stateD [OF serviceUpdate_sent [OF assms(1)] assms(2)]
  have "updateSends env (co_ServiceAnnotations opts) cur old (sent updated)" by blast
  then obtain rc ro where r: "checkSpec env cur (co_ServiceAnnotations opts) rc"
    "checkSpec env old (co_ServiceAnnotations opts) ro" and out: "updateOutcome cur old rc ro (sent updated)"
    using assms(4) by (auto simp: updateSends_def deleteEvents_def)
  have own: "endpointsOfService cur (cs_endpoints ro @ cs_endpoints rc)"
    using checkSpec_endpointsOfService [OF r(1)] checkSpec_endpointsOfService [OF r(2)] assms(3)
    by (auto simp: endpointsOfService_def)
  have passed: "cs_passed rc" using out assms(4) by (auto simp: updateOutcome_def deleteEvents_def split: bool.splits)
  have "updatesTo cur (cs_endpoints rc) (sent updated)"
  proof (cases "cs_passed ro")
    case True
    with out passed obtain upd where "updateEvents (cs_endpoints ro) (cs_endpoints rc) upd" "sent updated = createEvents cur [] @ upd"
      by (auto simp: updateOutcome_def)
    with updateEvents_updatesTo [OF this(1) own] own show ?thesis
      by (auto simp: endpointsOfService_def intro!: updatesTo_append createEvents_updatesTo)
  next
    case False
    with out passed own show ?thesis
      by (auto simp: updateOutcome_def endpointsOfService_def intro!: createEvents_updatesTo)
  qed
  with r(1) passed show ?thesis by blast
qed

section \<open>Properties\<close>


text \<open>The annotation of the service changes, its ports and addresses stay.\<close>

definition exampleRelabelled :: k8sService where
  "exampleRelabelled = exampleService\<lparr>svc_Annotations := fmap_of_list [(''prefix.io/one'', ''2'')]\<rparr>"

lemma exampleRelabelled_checked:
  "run_state (checkService exampleEnv exampleRelabelled [''prefix.io/*'']) 3 =
     (\<lparr>cs_passed = True, cs_reason = '''', cs_err = None,
       cs_annotations = fmap_of_list [(''prefix.io/one'', ''2'')], cs_ips = [''10.0.0.1'', ''192.0.2.7''],
       cs_endpoints = endpointsOf exampleRelabelled (fmap_of_list [(''prefix.io/one'', ''2'')]) [''10.0.0.1'', ''192.0.2.7'']\<rparr>, 4)"
  and exampleService_checked_again:
  "run_state (checkService exampleEnv exampleService [''prefix.io/*'']) 4 =
     (\<lparr>cs_passed = True, cs_reason = '''', cs_err = None,
       cs_annotations = fmap_of_list [(''prefix.io/one'', ''1'')], cs_ips = [''10.0.0.1'', ''192.0.2.7''],
       cs_endpoints = endpointsOf exampleService (fmap_of_list [(''prefix.io/one'', ''1'')]) [''10.0.0.1'', ''192.0.2.7'']\<rparr>, 5)"
proof -
  have kind: "svc_Type exampleService = serviceTypeLoadBalancer" "svc_Type exampleRelabelled = serviceTypeLoadBalancer"
    by (simp_all add: exampleRelabelled_def exampleService_def serviceTypeLoadBalancer_def)
  have order: "mapOrder exampleEnv = sortedOrder" by (simp add: exampleEnv_def)
  have some: "fmap_of_list [(''prefix.io/one'', v)] \<noteq> fmempty" for v :: string
    by (metis fmlookup_of_list fmempty_lookup map_of_Cons_code(2) option.distinct(1))
  have anns: "run_state (filterAnnotations (sortedOrder :: nat map_order) (svc_Annotations exampleRelabelled) [''prefix.io/*'']) 3 =
      (fmap_of_list [(''prefix.io/one'', ''2'')], 3)"
    "run_state (filterAnnotations (sortedOrder :: nat map_order) (svc_Annotations exampleService) [''prefix.io/*'']) 4 =
      (fmap_of_list [(''prefix.io/one'', ''1'')], 4)" by code_simp+
  have ips: "run_state (getIPsFromService exampleEnv exampleRelabelled 10) 3 = (Inr [''10.0.0.1'', ''192.0.2.7''], 4)"
    "run_state (getIPsFromService exampleEnv exampleService 10) 4 = (Inr [''10.0.0.1'', ''192.0.2.7''], 5)" by code_simp+
  show "run_state (checkService exampleEnv exampleRelabelled [''prefix.io/*'']) 3 =
     (\<lparr>cs_passed = True, cs_reason = '''', cs_err = None,
       cs_annotations = fmap_of_list [(''prefix.io/one'', ''2'')], cs_ips = [''10.0.0.1'', ''192.0.2.7''],
       cs_endpoints = endpointsOf exampleRelabelled (fmap_of_list [(''prefix.io/one'', ''2'')]) [''10.0.0.1'', ''192.0.2.7'']\<rparr>, 4)"
    by (simp add: checkService_def kind order some anns ips)
  show "run_state (checkService exampleEnv exampleService [''prefix.io/*'']) 4 =
     (\<lparr>cs_passed = True, cs_reason = '''', cs_err = None,
       cs_annotations = fmap_of_list [(''prefix.io/one'', ''1'')], cs_ips = [''10.0.0.1'', ''192.0.2.7''],
       cs_endpoints = endpointsOf exampleService (fmap_of_list [(''prefix.io/one'', ''1'')]) [''10.0.0.1'', ''192.0.2.7'']\<rparr>, 5)"
    by (simp add: checkService_def kind order some anns ips)
qed

lemma exampleRelabelling:
  "\<exists>created updated w3.
     run_state (serviceCreate exampleEnv exampleOptions (KService exampleService)) 0 = (created, 3)
     \<and> run_state (serviceUpdate exampleEnv exampleOptions (KService exampleRelabelled, KService exampleService)) 3 = (updated, w3)
     \<and> mkEvent EventCreate (ServiceObject ''shop'' ''web'') \<in> set (sent updated)
     \<and> endpointNames (sent updated) = endpointNames (sent created) \<and> endpointNames (sent created) \<noteq> {}"
proof -
  define eps where "eps = endpointsOf exampleService (fmap_of_list [(''prefix.io/one'', ''1'')]) [''10.0.0.1'', ''192.0.2.7'']"
  define eps' where "eps' = endpointsOf exampleRelabelled (fmap_of_list [(''prefix.io/one'', ''2'')]) [''10.0.0.1'', ''192.0.2.7'']"
  define rc where "rc = \<lparr>cs_passed = True, cs_reason = '''', cs_err = None,
       cs_annotations = fmap_of_list [(''prefix.io/one'', ''2'')], cs_ips = [''10.0.0.1'', ''192.0.2.7''], cs_endpoints = eps'\<rparr>"
  define ro where "ro = \<lparr>cs_passed = True, cs_reason = '''', cs_err = None,
       cs_annotations = fmap_of_list [(''prefix.io/one'', ''1'')], cs_ips = [''10.0.0.1'', ''192.0.2.7''], cs_endpoints = eps\<rparr>"
  have same: "svc_Namespace exampleRelabelled = ''shop''" "svc_Namespace exampleService = ''shop''" "svc_Name exampleRelabelled = ''web''"
    "svc_DeletionTimestamp exampleRelabelled = None" "svc_Ports exampleService = [80]"
    by (simp_all add: exampleRelabelled_def exampleService_def)
  have found: "run_state (getNamespace exampleEnv ''shop'') w = (Inr exampleNamespace, w)" for w
    using exampleNamespace_found by (simp add: same)
  have created: "run_state (serviceCreate exampleEnv exampleOptions (KService exampleService)) 0 =
      (map Send (createEvents exampleService eps) @ [WqDone], 3)"
    by (simp add: serviceCreate_def checkParentNamespace_def same found exampleNamespace_watched
        exampleOptions_keep exampleService_checked createEvents_def eps_def)
  obtain effs w where upd: "run_state (updateChecked exampleEnv exampleRelabelled exampleService rc ro) 5 = (effs, w)" by fastforce
  have updated: "run_state (serviceUpdate exampleEnv exampleOptions (KService exampleRelabelled, KService exampleService)) 3 =
      (effs @ [WqDone, WqDone], w)"
    using upd by (simp add: serviceUpdate_def checkParentNamespace_def same found exampleNamespace_watched
        exampleOptions_keep exampleService_checked_again exampleRelabelled_checked eps_def eps'_def rc_def ro_def)
  have "\<exists>es. updateOutcome exampleRelabelled exampleService rc ro es \<and> effs = map Send es"
    by (rule pred_stateD [OF updateChecked_sent [OF exampleEnv_laws] upd])
  then obtain upd where u: "updateEvents eps eps' upd" "sent effs = createEvents exampleRelabelled [] @ upd"
    by (auto simp: updateOutcome_def rc_def ro_def)
  have "mkEvent EventCreate (ServiceObject ''shop'' ''web'') \<in> set (sent effs)" by (simp add: u(2) createEvents_def same)
  moreover have "endpointNames (sent effs) = ep_Name ` set eps"
    by (simp add: u(2) endpointNames_createEvents endpointNames_updateEvents [OF u(1)])
  moreover have "ep_Name ` set eps \<noteq> {}" by (simp add: eps_def endpointsOf_def same)
  ultimately show ?thesis using created updated by (simp add: endpointNames_createEvents)
qed


end
