(* ===== verification/Program_Reflects.thy ===== *)
theory Program_Reflects
  imports Program_Progress Update_Reflected
begin

text \<open>
  From the cluster to the registry, in the whole program: what is in the registry when the handlers have ended and
  the operator is at rest, by the handlers that the service controller has started.
\<close>

section \<open>What the service controller never sends\<close>

text \<open>It deletes services and endpoints, but no namespace.\<close>

lemma updateSends_keeps_namespace:
  assumes "updateSends env keep cur old es" and "mkEvent EventDelete (NamespaceObject name) \<in> set es"
  shows False
proof -
  have "mkEvent EventDelete (NamespaceObject name) \<notin> set upd" if "updateEvents olds curs upd" for olds curs upd
    using that unfolding updateEvents_def by (auto split: option.splits)
  then show ?thesis
    using assms unfolding updateSends_def updateOutcome_def by (auto simp: createEvents_def deleteEvents_def split: bool.splits)
qed

lemma serviceHandles_keeps_namespace:
  assumes "envLaws env" and "serviceHandles env opts w effs w'"
  shows "mkEvent EventDelete (NamespaceObject name) \<notin> set (sent effs)"
  using assms(2)
proof (cases rule: serviceHandles.cases)
  case (serviceCreated obj)
  show ?thesis
  proof (cases obj)
    case (KService s)
    from pred_stateD [OF serviceCreate_sent [OF assms(1)] serviceCreated [unfolded KService]] show ?thesis
      by (auto simp: createEvents_def)
  qed (use serviceCreated serviceCreate_other [of obj env opts] in auto)
next
  case (serviceUpdated ue)
  show ?thesis
  proof (cases "\<exists>cur old. ue = (KService cur, KService old)")
    case True
    then obtain cur old where "ue = (KService cur, KService old)" by blast
    from pred_stateD [OF serviceUpdate_sent [OF assms(1)] serviceUpdated [unfolded this]] updateSends_keeps_namespace
    show ?thesis by blast
  qed (use serviceUpdated serviceUpdate_other [of ue env opts] in auto)
qed (auto simp: serviceDelete_def serviceGeneric_def)

lemma clears_namespace: "clears n u e \<Longrightarrow> \<exists>name. e = mkEvent EventDelete (NamespaceObject name)"
  by (cases e; cases "ev_Object e") (auto simp: clears_def)

section \<open>The events of one namespace\<close>

text \<open>If the namespace controller sends nothing for a namespace, its events are those of the service controller.\<close>

lemma only_services:
  assumes "programRun env so no reg md (newProgram w r) tr s" and "ct_service (pg_controllers s) = []"
    and "ofNamespace ns (history namespaceSentBy (history controllerPart tr)) = []"
  shows "ofNamespace ns (produced (operatorTrace tr))
    = ofNamespace ns (concat (map sent (history serviceStartedBy (history controllerPart tr))))"
proof -
  let ?as = "history controllerPart tr"
  have inv: "runInv env so no ?as (pg_controllers s)" by (rule runInv_run [OF programRun_operator(3) [OF assms(1)]])
  then have "ofNamespace ns (history emittedBy ?as) \<in> shuffles (ofNamespace ns (history serviceSentBy ?as)) (ofNamespace ns (history namespaceSentBy ?as))"
    unfolding runInv_def ofNamespace_def by (auto simp flip: filter_shuffles)
  with assms(3) have "ofNamespace ns (history emittedBy ?as) = ofNamespace ns (history serviceSentBy ?as)" by simp
  moreover have "history serviceSentBy ?as = concat (map sent (history serviceStartedBy ?as))"
    using inv assms(2) by (simp add: runInv_def)
  ultimately show ?thesis by (simp only: programRun_operator(2) [OF assms(1)])
qed

lemma services_undisturbed:
  assumes "envLaws env" and "programRun env so no reg md (newProgram w r) tr s"
  shows "undisturbed n u (ofNamespace ns (concat (map sent (history serviceStartedBy (history controllerPart tr)))))"
proof (rule undisturbedI)
  fix e
  assume "e \<in> set (ofNamespace ns (concat (map sent (history serviceStartedBy (history controllerPart tr)))))"
  then obtain effs where effs: "effs \<in> set (history serviceStartedBy (history controllerPart tr))" "e \<in> set (sent effs)"
    by (auto simp: ofNamespace_def)
  have "list_all (\<lambda>effs. \<exists>o1. so = Some o1 \<and> handledBy (serviceHandles env o1) effs)
      (history serviceStartedBy (history controllerPart tr))"
    using runInv_run [OF programRun_operator(3) [OF assms(2)]] unfolding runInv_def by blast
  with effs(1) obtain o1 w1 w2 where "serviceHandles env o1 w1 effs w2" by (auto simp: list_all_iff handledBy_def)
  from serviceHandles_keeps_namespace [OF assms(1) this] effs(2) show "\<not> clears n u e"
    using clears_namespace by blast
qed

lemma services_reflected:
  assumes "programRun env so no reg md (newProgram w r) tr s"
    and "calmRun reg md (newOperator r) (operatorTrace tr) (pg_operator s)"
    and "finished s" and "\<not> d_mainDone (op_dispatcher (pg_operator s))"
    and "meets reg view wellAnswered" and "envLaws env" and "isOwnedByOperator md"
    and "targetNamespace u = ns" and "ns \<noteq> ''''" and "ownedOrAbsent (view r) u"
    and "ofNamespace ns (history namespaceSentBy (history controllerPart tr)) = []"
  shows "reflects (nsWorker md ns) u (ofNamespace ns (concat (map sent (history serviceStartedBy (history controllerPart tr)))))
    (view r) (view (op_registry (pg_operator s)))"
proof -
  have rest: "ct_service (pg_controllers s) = []" "atRest (pg_operator s)" using assms(3) by (simp_all add: finished_def)
  note es = only_services [OF assms(1) rest(1) assms(11)]
  show ?thesis
    using operator_reflects [OF assms(2,4) rest(2) assms(5,7,9,8,10)] services_undisturbed [OF assms(6,1)]
    by (simp only: es)
qed

text \<open>The service of the examples is created, and nothing else happens.\<close>

lemma example_created:
  "\<exists>effs w. run_state (serviceCreate exampleEnv exampleOptions (KService exampleService)) 0 = (effs, w)
     \<and> (\<exists>eps. eps \<noteq> [] \<and> effs = map effect.Send (createEvents exampleService eps) @ [WqDone]
          \<and> list_all (\<lambda>ep. ep_Namespace ep = ''shop'') eps)"
proof -
  obtain effs where run: "run_state (serviceCreate exampleEnv exampleOptions (KService exampleService)) 0 = (effs, 3)"
    and names: "endpointNames (sent effs) \<noteq> {}" using exampleRelabelling by (elim exE conjE) (rule that, simp_all)
  from pred_stateD [OF serviceCreate_sent [OF exampleEnv_laws] run] names obtain rc where
    rc: "checkSpec exampleEnv exampleService (co_ServiceAnnotations exampleOptions) rc"
      "effs = map effect.Send (createEvents exampleService (cs_endpoints rc)) @ [WqDone]" by auto
  have "cs_endpoints rc \<noteq> []" using names by (auto simp: rc(2) endpointNames_createEvents)
  moreover have "list_all (\<lambda>ep. ep_Namespace ep = ''shop'') (cs_endpoints rc)"
    using checkSpec_endpoints(1) [OF rc(1)] by (simp add: list_all_iff exampleService_def)
  ultimately show ?thesis using run rc(2) by blast
qed

lemma history_work_off [simp]:
  "history serviceStartedBy (map ServiceActs effs) = []" "history namespaceSentBy (map ServiceActs effs) = []"
  by (induction effs) (simp_all add: history_def)

lemma example_created_program:
  "\<exists>tr (s :: (nat, memory) program) effs w eps.
     programRun exampleEnv (Some exampleOptions) None (clientAnswers memoryClient) exampleOwner (newProgram 0 fmempty) tr s
     \<and> calmRun (clientAnswers memoryClient) exampleOwner (newOperator fmempty) (operatorTrace tr) (pg_operator s)
     \<and> finished s \<and> \<not> d_mainDone (op_dispatcher (pg_operator s))
     \<and> history serviceStartedBy (history controllerPart tr) = [effs] \<and> history namespaceSentBy (history controllerPart tr) = []
     \<and> run_state (serviceCreate exampleEnv exampleOptions (KService exampleService)) 0 = (effs, w)
     \<and> sent effs = createEvents exampleService eps \<and> list_all (\<lambda>ep. ep_Namespace ep = ''shop'') eps"
proof -
  obtain effs w eps where effs: "run_state (serviceCreate exampleEnv exampleOptions (KService exampleService)) 0 = (effs, w)"
    "effs = map effect.Send (createEvents exampleService eps) @ [WqDone]" "list_all (\<lambda>ep. ep_Namespace ep = ''shop'') eps"
    using example_created by (elim exE conjE) (rule that)
  from stepping [OF resting service_starts [OF serviceCreated [OF effs(1)]]]
  have "controllersRun exampleEnv (Some exampleOptions) None (idleControllers 0) [ServiceStarts effs]
      \<lparr>ct_world = w, ct_service = effs, ct_namespace = []\<rparr>" by simp
  from work_off(1) [OF this, of effs "[]"] have
    c: "controllersRun exampleEnv (Some exampleOptions) None (idleControllers 0) ([ServiceStarts effs] @ map ServiceActs effs)
      (idleControllers w)" by (simp add: idleControllers_def)
  have emits: "history emittedBy ([ServiceStarts effs] @ map ServiceActs effs) = createEvents exampleService eps"
    unfolding effs(2) history_simps history_map_Send by simp
  have own: "getNamespaceNameFromEventObject e = ''shop''" if "e \<in> set (createEvents exampleService eps)" for e
    using that effs(3) by (auto simp: createEvents_def getNamespaceNameFromEventObject_def exampleService_def list_all_iff)
  obtain tr and t :: "memory operator" where t: "calmRun (clientAnswers memoryClient) exampleOwner (newOperator fmempty) tr t"
    "\<not> d_mainDone (op_dispatcher t)" "atRest t" "produced tr = createEvents exampleService eps"
    using serve_events [where es = "createEvents exampleService eps" and ns = "''shop''" and c = memoryClient
        and md = exampleOwner and r = fmempty, OF own] by auto
  from operator_merges [OF c calmRun_run [OF t(1)] operatorRun_not_told [OF calmRun_run [OF t(1)] t(2)]] t(4) emits
  obtain ptr s where s: "programRun exampleEnv (Some exampleOptions) None (clientAnswers memoryClient) exampleOwner (newProgram 0 fmempty) ptr s"
    "history controllerPart ptr = [ServiceStarts effs] @ map ServiceActs effs" "operatorTrace ptr = tr"
    "pg_controllers s = idleControllers w" "pg_operator s = t" by (metis (no_types, lifting))
  have "history serviceStartedBy (history controllerPart ptr) = [effs]" "history namespaceSentBy (history controllerPart ptr) = []"
    unfolding s(2) history_simps history_work_off by simp_all
  moreover have "finished s" by (simp add: finished_def s(4,5) t(3) idleControllers_def)
  moreover have "sent effs = createEvents exampleService eps" by (simp add: effs(2))
  ultimately show ?thesis using s t effs by (intro exI conjI) (assumption | simp)+
qed

section \<open>Properties\<close>



text \<open>
  C6. A created service is found: let a handler for the creation of a service have sent its events, which it does when
  the service passes in a watched namespace, and the handlers after it nothing for this namespace, nor
  the namespace controller. When the program has come to rest, the registry holds the namespace, the
  service and each of the endpoints that the check of the service found, all owned by the
  operator, and the endpoints with the allowed annotations of the service.
\<close>

theorem created_service_found:
  assumes "programRun env so no reg md (newProgram w r) tr s"
    and "calmRun reg md (newOperator r) (operatorTrace tr) (pg_operator s)"
    and "finished s" and "\<not> d_mainDone (op_dispatcher (pg_operator s))"
    and "meets reg view wellAnswered" and "envLaws env" and "isOwnedByOperator md"
    and "history serviceStartedBy (history controllerPart tr) = before @ effs # after"
    and "run_state (serviceCreate env o1 (KService svc)) w1 = (effs, w2)" and "sent effs \<noteq> []"
    and "ofNamespace (svc_Namespace svc) (concat (map sent after)) = []"
    and "ofNamespace (svc_Namespace svc) (history namespaceSentBy (history controllerPart tr)) = []"
    and "\<And>u found. view r u = Some found \<Longrightarrow> targetNamespace u = svc_Namespace svc \<Longrightarrow> isOwnedByOperator found"
    and "svc_Namespace svc \<noteq> ''''"
  shows "\<exists>rc. checkSpec env svc (co_ServiceAnnotations o1) rc \<and> cs_passed rc
    \<and> (\<forall>u \<in> {NamespaceAt (svc_Namespace svc), ServiceAt (svc_Namespace svc) (svc_Name svc)}.
          \<exists>found. view (op_registry (pg_operator s)) u = Some found \<and> isOwnedByOperator found)
    \<and> (\<forall>name \<in> ep_Name ` set (cs_endpoints rc). \<exists>found ep. view (op_registry (pg_operator s)) (endpointAt svc name) = Some found
          \<and> isOwnedByOperator found \<and> ep \<in> set (cs_endpoints rc) \<and> ep_Name ep = name
          \<and> carries found (registerOptions (nsWorker md (svc_Namespace svc)) (EndpointObject ep)))"
proof -
  let ?n = "nsWorker md (svc_Namespace svc)" and ?m = "view (op_registry (pg_operator s))"
  let ?es = "ofNamespace (svc_Namespace svc) (concat (map sent (history serviceStartedBy (history controllerPart tr))))"
  from pred_stateD [OF serviceCreate_sent [OF assms(6)] assms(9)] assms(10) obtain rc where
    rc: "checkSpec env svc (co_ServiceAnnotations o1) rc" "cs_passed rc" "sent effs = createEvents svc (cs_endpoints rc)" by auto
  have n: "nw_namespace ?n = svc_Namespace svc" by (simp add: nsWorker_def)
  have own: "ep_Namespace ep = svc_Namespace svc" "ep_Service ep = svc_Name svc" if "ep \<in> set (cs_endpoints rc)" for ep
    using checkSpec_endpoints [OF rc(1) that] by simp_all
  have "ofNamespace (svc_Namespace svc) (sent effs) = sent effs"
    using own(1) by (auto simp: rc(3) ofNamespace_def createEvents_def getNamespaceNameFromEventObject_def filter_id_conv)
  then have es: "?es = ofNamespace (svc_Namespace svc) (concat (map sent before)) @ createEvents svc (cs_endpoints rc)"
    using assms(11) by (simp add: assms(8) rc(3) ofNamespace_def)
  have there: "\<exists>found e. ?m u = Some found \<and> isOwnedByOperator found \<and> carries found (registerOptions ?n (ev_Object e))
      \<and> e \<in> set (createEvents svc (cs_endpoints rc)) \<and> about ?n u e"
    if "targetNamespace u = svc_Namespace svc" "about ?n u e0" "e0 \<in> set (createEvents svc (cs_endpoints rc))" for u e0
  proof -
    have "ownedOrAbsent (view r) u" using assms(13) that(1) by (auto simp: ownedOrAbsent_def)
    from services_reflected [OF assms(1-7) that(1) assms(14) this assms(12)]
    have final: "reflects ?n u ?es (view r) ?m" .
    from that(2,3) obtain e where e: "lastAbout ?n u (createEvents svc (cs_endpoints rc)) = Some e"
      by (metis lastAbout_None not_None_eq)
    from lastAbout_Some [OF e] have e': "e \<in> set (createEvents svc (cs_endpoints rc))" "about ?n u e" by blast+
    then have "ev_EventType e \<noteq> EventDelete" by (auto simp: createEvents_def)
    with final e have "\<exists>found. ?m u = Some found \<and> carries found (registerOptions ?n (ev_Object e)) \<and> isOwnedByOperator found"
      unfolding es by (simp add: reflects_def lastAbout_append)
    with e' show ?thesis by blast
  qed
  have "\<exists>found. ?m u = Some found \<and> isOwnedByOperator found"
    if "u \<in> {NamespaceAt (svc_Namespace svc), ServiceAt (svc_Namespace svc) (svc_Name svc)}" for u
  proof -
    from that have "targetNamespace u = svc_Namespace svc" "\<exists>e0 \<in> set (createEvents svc (cs_endpoints rc)). about ?n u e0"
      by (auto simp: createEvents_def about_def n)
    with there show ?thesis by blast
  qed
  moreover have "\<exists>found ep. ?m (endpointAt svc name) = Some found \<and> isOwnedByOperator found
      \<and> ep \<in> set (cs_endpoints rc) \<and> ep_Name ep = name \<and> carries found (registerOptions ?n (EndpointObject ep))"
    if "name \<in> ep_Name ` set (cs_endpoints rc)" for name
  proof -
    from that obtain ep0 where "ep0 \<in> set (cs_endpoints rc)" "ep_Name ep0 = name" by blast
    then have "mkEvent EventCreate (EndpointObject ep0) \<in> set (createEvents svc (cs_endpoints rc))"
      "about ?n (endpointAt svc name) (mkEvent EventCreate (EndpointObject ep0))"
      using own(2) by (auto simp: createEvents_def about_def n)
    from there [OF _ this(2,1)] obtain found e where
      e: "?m (endpointAt svc name) = Some found" "isOwnedByOperator found" "carries found (registerOptions ?n (ev_Object e))"
        "e \<in> set (createEvents svc (cs_endpoints rc))" "about ?n (endpointAt svc name) e" by auto
    then obtain ep where "ep \<in> set (cs_endpoints rc)" "ev_Object e = EndpointObject ep" "ep_Name ep = name"
      by (auto simp: createEvents_def about_def n)
    with e show ?thesis by auto
  qed
  ultimately show ?thesis using rc(1,2) by blast
qed

theorem created_service_found_witness:
  "\<exists>tr (s :: (nat, memory) program) rc.
     programRun exampleEnv (Some exampleOptions) None (clientAnswers memoryClient) exampleOwner (newProgram 0 fmempty) tr s
     \<and> checkSpec exampleEnv exampleService [''prefix.io/*''] rc \<and> cs_passed rc
     \<and> fmlookup (op_registry (pg_operator s)) (NamespaceAt ''shop'') \<noteq> None
     \<and> fmlookup (op_registry (pg_operator s)) (ServiceAt ''shop'' ''web'') \<noteq> None"
proof -
  obtain tr and s :: "(nat, memory) program" and effs w eps where
    run: "programRun exampleEnv (Some exampleOptions) None (clientAnswers memoryClient) exampleOwner (newProgram 0 fmempty) tr s"
      "calmRun (clientAnswers memoryClient) exampleOwner (newOperator fmempty) (operatorTrace tr) (pg_operator s)"
      "finished s" "\<not> d_mainDone (op_dispatcher (pg_operator s))"
    and ex: "history serviceStartedBy (history controllerPart tr) = [effs]" "history namespaceSentBy (history controllerPart tr) = []"
      "run_state (serviceCreate exampleEnv exampleOptions (KService exampleService)) 0 = (effs, w)"
      "sent effs = createEvents exampleService eps"
    using example_created_program by (elim exE conjE) (rule that)
  have names: "svc_Namespace exampleService = ''shop''" "svc_Name exampleService = ''web''" by (simp_all add: exampleService_def)
  have owner: "isOwnedByOperator exampleOwner" by (simp add: exampleOwner_def isOwnedByOperator_def)
  have started: "history serviceStartedBy (history controllerPart tr) = [] @ effs # []" by (simp add: ex(1))
  from created_service_found [OF run reliable_wellAnswered [OF memoryClient_reliable] exampleEnv_laws owner started ex(3)]
  obtain rc where "checkSpec exampleEnv exampleService (co_ServiceAnnotations exampleOptions) rc" "cs_passed rc"
    "\<forall>u \<in> {NamespaceAt ''shop'', ServiceAt ''shop'' ''web''}. \<exists>found. fmlookup (op_registry (pg_operator s)) u = Some found
      \<and> isOwnedByOperator found"
    using ex(2,4) by (auto simp: names ofNamespace_def createEvents_def)
  with run(1) show ?thesis by (intro exI [where x = tr] exI [where x = s] exI [where x = rc]) (auto simp: exampleOptions_keep)
qed

end
