(* ===== verification/Spec2Isabelle.thy ===== *)
theory Spec2Isabelle
  imports Settings_Validation Operator_Ownership Program_Reflects Cluster
begin

text \<open>
  CN-WAN Operator: a verification development.

  The operator watches the services and the namespaces of a Kubernetes cluster and reflects them
  in a service registry (etcd, Service Directory or Cloud Map). Two controllers turn changes of
  Kubernetes objects into events on a channel. A dispatcher routes each event to the worker of
  its namespace, one goroutine each, and the worker carries it out on the registry. At its start
  the program reads its settings, validates them, finds out about its platform and makes the
  client of the registry; at its end it stops the dispatcher and the manager of the controllers.

  Theories and the code they model.
  \<^item> \<open>Prelude\<close>: Go errors and panics, sequencing of outside calls (a state monad over the
    world), the string functions that are used, Go maps as finite maps, and the order in which
    a range visits one, which is an action of the world constrained by \<open>visitsOnce\<close>.
  \<^item> \<open>Settings\<close>: \<open>internal/types/settings.go\<close>, one record per struct.
  \<^item> \<open>Settings_Validation\<close>: \<open>internal/utils/utils.go\<close>. What is accepted, what is returned (normal
    form, idempotence, which etcd endpoints are kept), when it panics. The locale \<open>validator\<close>
    is the contract of a validation, met by \<open>parseEtcdSettings\<close> and \<open>ParseAndValidateSettings\<close>.
  \<^item> \<open>Sha256\<close>: SHA-256 and its hexadecimal digest as concrete functions, with the test vector of
    the standard; \<open>checkService\<close> names endpoints with it.
  \<^item> \<open>Events\<close>: the event and the objects it carries (\<open>events_handler.go\<close>, \<open>utils.go\<close> of
    \<open>pkg/serviceregistry\<close>).
  \<^item> \<open>Service_Check\<close>: \<open>pkg/controllers/utils.go\<close>. The annotation filter against its documented
    meaning, the addresses of a service, the retries of the resolver, \<open>checkService\<close> against the
    specification \<open>checkSpec\<close>, the map of endpoints by name.
  \<^item> \<open>Controller_Interface\<close>: the options and effects of a handler, the laws of the Kubernetes API
    (\<open>envLaws\<close>), and the contract \<open>event_producer\<close> that every handler meets: events of one
    namespace only, in a good order, and a work item that is marked done.
  \<^item> \<open>Service_Controller\<close> and \<open>Namespace_Controller\<close>: \<open>service.go\<close> and \<open>namespace.go\<close>, every handler,
    what it sends on every branch, and its interpretation of \<open>event_producer\<close>.
  \<^item> \<open>Registry\<close>: the operations of the registry that the operator calls, as a parameter; the laws
    they are documented to obey (\<open>registryLaws\<close>) by what each call with its outcome may do to
    the contents; a registry in memory that obeys them.
  \<^item> \<open>Namespace_Worker\<close>: \<open>namespace_worker.go\<close>. A handler is an action on the registry that returns the
    calls it made. The locale \<open>deletion\<close> is the contract of the three deletions: calls in
    the guarded order, and from it what a deletion leaves alone. Creations ask nobody.
  \<^item> \<open>Worker_Steps\<close>: the same handlers one registry call at a time, as a program counter, and the
    proof that both are the same. A registry is from here on a relation between its
    states, labelled with a call and its outcome.
  \<^item> \<open>Registry_Contract\<close>: what a registry is relied upon to do, and the locale \<open>namespaced_contract\<close>: a
    contract holds of the part of a registry in each namespace, with the calls into it.
  \<^item> \<open>Event_Dispatcher\<close>: \<open>events_handler.go\<close> with the goroutines of the workers, as the labelled step
    relation \<open>dispatchStep\<close> over the state \<open>dispatcher\<close>; \<open>fire\<close> computes the same steps. The locale
    \<open>fifo_channel\<close> is the contract of a buffered channel. Invariants (map, pool, wait group,
    queues), the history of events, the clean-up, and when a shutdown can end.
  \<^item> \<open>Operator_System\<close>: the running operator, \<open>operatorStep\<close>: the channel of \<open>main.go\<close> into which the controllers
    send, the dispatcher, and the workers, one call at a time on one registry, in any
    interleaving; \<open>operate\<close> computes the same steps. It refines the dispatcher, and
    every deregistration in it is guarded.
  \<^item> \<open>Namespace_Order\<close>: the specification of the operator, a queue of events for each namespace, which the
    operator refines as long as the clean-up removes only workers without work (\<open>calm\<close>), and
    the reduction of the interleaving to one worker per namespace. A run with two workers of one namespace shows
    that the condition is needed.
  \<^item> \<open>Operator_Progress\<close> and \<open>Operator_Runs\<close>: the operator gets all of its work done, by a measure of the work that is
    left; at rest everything was handled. Runs that exist, for the examples.
  \<^item> \<open>Operator_Ownership\<close>: what the operator does not own it leaves alone, in every interleaving; the same on a
    registry that others change too (\<open>shared\<close>), as long as they keep to what is relied upon, and
    an object taken over between the check and the removal, which is lost.
  \<^item> \<open>Lifecycle\<close>: service controller and worker together: creation and deletion cancel out.
  \<^item> \<open>Registry_Reflects\<close>: whatever is sent in whatever order, at rest the last event about an object decides
    what is in the registry. \<open>Update_Reflected\<close>: what a creation followed by an update leaves there.
  \<^item> \<open>Operator_Configured\<close>: the running operator with the metadata and controllers of its start: what
    can get from the settings and the services into the registry.
  \<^item> \<open>Controllers_Running\<close>: the goroutines of the two controllers, \<open>controllerStep\<close>: their sends interleave, each
    in its order; a race between the two when a namespace stops being watched.
  \<^item> \<open>Cluster\<close>: \<open>pkg/cluster\<close>, the secrets, the settings, the platform and its network; the package
    variables \<open>kcli\<close> and \<open>iAmIn\<close> are part of the state.
  \<^item> \<open>Startup\<close>: \<open>utils.go\<close>, \<open>manager.go\<close>, the constructors of the controllers and \<open>run\<close> of \<open>main.go\<close> up to
    the started goroutines, with exit codes, errors and panics as values.
  \<^item> \<open>Shutdown\<close>: the goroutines at the end of \<open>run\<close> and the channel \<open>exitChan\<close>.
  \<^item> \<open>Command\<close>: \<open>main\<close>, the exit status of the process.
  \<^item> \<open>Operator_Process\<close>: the goroutines of \<open>run\<close> with the operator that they start and stop, and when the
    process can end after a signal.
  \<^item> \<open>Whole_Program\<close>: the controllers beside the process, \<open>programStep\<close>; a send is a step of both. Its runs are
    exactly the pairs of runs of the two that agree on what is sent, so that all above holds of it.
  \<^item> \<open>Program_Progress\<close>: until the operator is told to stop, handlers and operator get all their work done; after it
    has stopped nothing is received. \<open>Program_Reflects\<close>: from the handlers of the service controller
    to the registry.
  \<^item> This theory: service controller and dispatcher, and service controller and running operator, together.

  How state and operations correspond. A function that reads the cluster, the resolver, a cloud or
  the registry is an action \<open>('w, 'a) state\<close> over a world \<open>'w\<close>, and the outside calls are fields of a
  record that it takes (\<open>env\<close>, \<open>cloud\<close>, \<open>sdk\<close>, \<open>client\<close>); nothing is assumed of them beyond the
  hypotheses of a property (\<open>visitsOnce\<close>, \<open>envLaws\<close>, \<open>registryLaws\<close>, \<open>reliable\<close>), which hold of the concrete
  instances in the witnesses. \<open>pred_state P m\<close> says that every result of \<open>m\<close> satisfies \<open>P\<close>, whatever
  the world. Handlers return their sends and the calls of \<open>wq.Done\<close> as a list of effects. A Go pointer
  is an option, a returned error or a panic is a value of \<open>failure\<close>, a port is a 32-bit word.

  Concurrency. A step of the operator is a step of one of its goroutines. In \<open>operatorStep\<close> the sends of the
  controllers come in any order (\<open>Produce\<close>); \<open>controllerStep\<close> says which orders there are, and \<open>programStep\<close>
  joins both. The library calls the handlers of a controller
  one after the other; the reads of a handler, which only concern the cluster, are one step. A context that is cancelled, or out of
  time, shows as a call with an error, which a registry may answer with at any time.

  Bounds. The dispatcher is bounded by the 25 places of a channel, and the operator by the 100 of
  its own, as in the code; the resolver recurses on the attempts that are left; a worker has at
  most three calls left for an event, so that an event in the operator's channel counts for seven steps
  of work; no definition needs fuel. Time is an integer number of nanoseconds, and the clean-up may come at
  any time, not only every minute, so that the invariants hold for every schedule; the runs that
  show a flaw use plausible times.

  Not modelled: log lines, contexts as such (a call that runs out of time is one that returns
  an error), the waits between two look-ups, the parsing of YAML, and the libraries of Kubernetes, serego,
  etcd and the clouds. Strings are byte strings; \<open>toLower\<close> lowers ASCII letters. The registry laws
  describe a registry that nobody else changes during a call; others come in with \<open>shared\<close>. The environment
  variable for the namespace of the operator is read by \<open>run\<close> but has no effect, and is left out.
\<close>

section \<open>From a controller to the workers\<close>

text \<open>The dispatcher can take in any list of at most 25 events of one namespace before a worker starts.\<close>

definition dispatchActions :: "event list \<Rightarrow> action list" where
  "dispatchActions es = concat (map (\<lambda>e. [Receive e, SendTo 0 e]) es)"

lemma arrivals_dispatchActions [simp]: "arrivals (dispatchActions es) = es"
  by (induction es) (auto simp: arrivals_def dispatchActions_def List.map_filter_def)

definition queuedFor :: "string \<Rightarrow> event list \<Rightarrow> dispatcher \<Rightarrow> bool" where
  "queuedFor ns es s \<longleftrightarrow> d_pc s = Selecting \<and> fmlookup (d_workers s) ns = Some 0
     \<and> 0 < length (d_pool s) \<and> wd_queue (d_pool s ! 0) = es"

lemma dispatch_one:
  assumes "queuedFor ns es s" and "getNamespaceNameFromEventObject e = ns" and "ns \<noteq> ''''"
    and "length es < eventsChanSize"
  shows "\<exists>s'. execution s [Receive e, SendTo 0 e] s' \<and> queuedFor ns (es @ [e]) s'"
proof -
  have g: "getOrCreateNamespaceWorker s (getNamespaceNameFromEventObject e) = (0, s)"
    using assms(1,2) by (simp add: getOrCreateNamespaceWorker_def queuedFor_def)
  let ?s1 = "s\<lparr>d_pc := Sending 0 e\<rparr>"
  have 1: "dispatchStep s (Receive e) ?s1"
    using receive [OF _ _ g] assms by (simp add: queuedFor_def)
  have "chanSend (wd_queue (d_pool ?s1 ! 0)) e = Some (es @ [e])"
    using assms(1,4) by (simp add: queuedFor_def chanSend_Some)
  from send [OF _ this] obtain s2 where 2: "dispatchStep ?s1 (SendTo 0 e) s2"
    and s2: "s2 = (setWorker 0 ((d_pool ?s1 ! 0)\<lparr>wd_queue := es @ [e], wd_lastEvent := Some (d_now ?s1)\<rparr>) ?s1)\<lparr>d_pc := Selecting\<rparr>"
    by auto
  have "queuedFor ns (es @ [e]) s2" using assms(1) by (simp add: s2 queuedFor_def)
  moreover have "execution s [Receive e, SendTo 0 e] s2"
    using execution_cons [OF execution_cons [OF execution.start 2] 1] .
  ultimately show ?thesis by blast
qed

lemma dispatch_first:
  assumes "getNamespaceNameFromEventObject e = ns" and "ns \<noteq> ''''"
  shows "\<exists>s'. execution newEventHandler [Receive e, SendTo 0 e] s' \<and> queuedFor ns [e] s'"
proof -
  have "\<exists>s'. fireAll [Receive e, SendTo 0 e] newEventHandler = Some s' \<and> queuedFor ns [e] s'"
    using assms by (simp add: guarded_def newEventHandler_def getOrCreateNamespaceWorker_def chanSend_def eventsChanSize_def queuedFor_def)
  then show ?thesis using fireAll_execution by blast
qed

lemma dispatch_all:
  assumes "es \<noteq> []" and "\<And>e. e \<in> set es \<Longrightarrow> getNamespaceNameFromEventObject e = ns" and "ns \<noteq> ''''"
    and "length es \<le> eventsChanSize"
  shows "\<exists>s. execution newEventHandler (dispatchActions es) s \<and> queuedFor ns es s"
  using assms(1,2,4)
proof (induction es rule: rev_nonempty_induct)
  case (single e)
  then show ?case using dispatch_first [OF _ assms(3)] by (simp add: dispatchActions_def)
next
  case (snoc e es)
  then obtain s where s: "execution newEventHandler (dispatchActions es) s" "queuedFor ns es s" by auto
  with dispatch_one [OF s(2) _ assms(3)] snoc.prems obtain s' where
    "execution s [Receive e, SendTo 0 e] s'" "queuedFor ns (es @ [e]) s'" by auto
  with execution_append [OF _ s(1)] show ?case by (auto simp: dispatchActions_def)
qed

text \<open>
  C17. From a controller to the workers: when the dispatcher receives what the update of a
  service sends, it skips nothing, passes everything on in the order of sending, which creates
  containers first and deletes them last, and each event goes to a worker of the
  namespace of that service.
\<close>

theorem update_reaches_own_workers:
  assumes "envLaws env" and "sameService (KService cur, KService old)" and "svc_Namespace cur \<noteq> ''''"
    and "run_state (serviceUpdate env opts (KService cur, KService old)) w = (effs, w')"
    and "execution newEventHandler tr s" and "arrivals tr = sent effs"
  shows "sentAll tr @ pending s = sent effs \<and> wellOrdered {} {} (sentAll tr @ pending s)
    \<and> (\<forall>i e. SendTo i e \<in> set tr \<longrightarrow> i < length (d_pool s) \<and> wd_namespace (d_pool s ! i) = svc_Namespace cur)"
proof -
  note inv = reachable_invariants [OF assms(5)]
  have "received tr = sent effs"
    using serviceUpdate.none_skipped [OF assms(1,2) _ assms(4)] assms(3)
    by (simp add: received_arrivals assms(6))
  with inv have all: "sentAll tr @ pending s = sent effs" by (simp add: orderInv_def)
  moreover have "i < length (d_pool s) \<and> wd_namespace (d_pool s ! i) = svc_Namespace cur" if "SendTo i e \<in> set tr" for i e
  proof -
    have i: "i < length (d_pool s)"
      using that in_sentTo_iff [of e i tr] queueInvD(3) [of tr s i] inv by (fastforce simp: not_less [symmetric])
    have "e \<in> set (sent effs)" using SendTo_in_sentAll [OF that] all by (metis Un_iff set_append)
    then have "getNamespaceNameFromEventObject e = svc_Namespace cur"
      using serviceUpdate.run_own_namespace [OF assms(1,2,4)] by simp
    with queueInvD(2) [of tr s i e] i that inv show ?thesis by (simp add: in_sentTo_iff)
  qed
  ultimately show ?thesis using serviceUpdate.run_ordered [OF assms(1,2,4)] by auto
qed

definition exampleClusterIP :: k8sService where
  "exampleClusterIP = exampleService\<lparr>svc_Type := ''ClusterIP''\<rparr>"

lemma exampleUpdate:
  "\<exists>effs w. run_state (serviceUpdate exampleEnv exampleOptions (KService exampleService, KService exampleClusterIP)) 0 = (effs, w)
     \<and> length (sent effs) = 4"
proof -
  have "run_state (checkService exampleEnv exampleClusterIP keep) w = (notPassed ''not a LoadBalancer'' None, w)" for keep w
    by (simp add: checkService_def exampleClusterIP_def serviceTypeLoadBalancer_def)
  moreover have "svc_Ports exampleService = [80]" "svc_DeletionTimestamp exampleService = None"
    by (simp_all add: exampleService_def)
  ultimately show ?thesis
    by (simp add: serviceUpdate_def checkParentNamespace_def exampleNamespace_found exampleNamespace_watched
        exampleOptions_keep exampleService_checked updateChecked_def notPassed_def endpointsOf_def split: prod.splits)
qed

theorem update_reaches_own_workers_witness:
  "\<exists>effs w tr s. run_state (serviceUpdate exampleEnv exampleOptions (KService exampleService, KService exampleClusterIP)) 0 = (effs, w)
     \<and> execution newEventHandler tr s \<and> arrivals tr = sent effs \<and> length (sent effs) = 4
     \<and> sentAll tr @ pending s = sent effs \<and> wellOrdered {} {} (sent effs)"
proof -
  obtain effs w where run: "run_state (serviceUpdate exampleEnv exampleOptions (KService exampleService, KService exampleClusterIP)) 0 = (effs, w)"
    and four: "length (sent effs) = 4" using exampleUpdate by blast
  have same: "sameService (KService exampleService, KService exampleClusterIP)" "svc_Namespace exampleService = ''shop''"
    by (simp_all add: exampleService_def exampleClusterIP_def)
  have own: "getNamespaceNameFromEventObject e = ''shop''" if "e \<in> set (sent effs)" for e
    using serviceUpdate.run_own_namespace [OF exampleEnv_laws same(1) run that] same(2) by simp
  have "\<exists>s. execution newEventHandler (dispatchActions (sent effs)) s \<and> queuedFor ''shop'' (sent effs) s"
    by (rule dispatch_all) (use four own in \<open>auto simp: eventsChanSize_def\<close>)
  then obtain s where s: "execution newEventHandler (dispatchActions (sent effs)) s" by blast
  with update_reaches_own_workers [OF exampleEnv_laws same(1) _ run s] same(2) run four show ?thesis
    by (intro exI [where x = effs] exI [where x = w] exI [where x = "dispatchActions (sent effs)"] exI [where x = s]) auto
qed

section \<open>From a controller to the registry\<close>

text \<open>
  C1. Creation and deletion cancel out in the running operator: while it also serves other namespaces, in any
  interleaving, and its clean-ups remove only workers without work, let the events for the
  namespace of a service be those of its creation and then of its deletion. Once the operator is at rest,
  the part of the registry in that namespace is what it was, but for the
  namespace itself, which is registered and owned by the operator.
\<close>

theorem operator_creates_and_deletes:
  assumes "envLaws env" and "meets reg view wellAnswered" and "isOwnedByOperator md" and "svc_Namespace s \<noteq> ''''"
    and "run_state (serviceCreate env opts (KService s)) w = (created, w1)" and "sent created \<noteq> []"
    and "run_state (handleDelete env opts s) w2 = (deleted, w3)" and "sent deleted \<noteq> []"
    and "ev_Object ` set (sent created) = insert (NamespaceObject (svc_Namespace s)) (ev_Object ` set (sent deleted))"
    and "view r (ServiceAt (svc_Namespace s) (svc_Name s)) = None"
    and "childless (view r) (ServiceAt (svc_Namespace s) (svc_Name s))"
    and "calmRun reg md (newOperator r) tr st" and "\<not> d_mainDone (op_dispatcher st)" and "atRest st"
    and "ofNamespace (svc_Namespace s) (produced tr) = sent created @ sent deleted"
  shows "\<exists>m. isOwnedByOperator m
    \<and> restrictTo (svc_Namespace s) (view (op_registry st)) = (restrictTo (svc_Namespace s) (view r))(NamespaceAt (svc_Namespace s) \<mapsto> m)"
proof -
  let ?ns = "svc_Namespace s" and ?n = "nsWorker md (svc_Namespace s)"
  obtain rc rd :: checkServiceResult where sends: "sent created = createEvents s (cs_endpoints rc)"
    "sent deleted = deleteEvents s (cs_endpoints rd)" "endpointsOfService s (cs_endpoints rc)"
    "set (cs_endpoints rd) = set (cs_endpoints rc)"
    using create_delete_sent [OF assms(1,5-9)] by blast
  have handled: "handledInOrder wellAnswered ?n (createEvents s (cs_endpoints rc) @ deleteEvents s (cs_endpoints rd))
      (restrictTo ?ns (view r)) (restrictTo ?ns (view (op_registry st)))"
    using dependableRegistry.at_rest [OF assms(12-14,2,4)] by (simp add: assms(15) sends(1,2))
  have "restrictTo ?ns (view r) (ServiceAt ?ns (svc_Name s)) = None" using assms(10) by (simp add: restrictTo_def)
  moreover have "childless (restrictTo ?ns (view r)) (ServiceAt ?ns (svc_Name s))"
    using assms(11) by (simp add: childless_restrict)
  ultimately show ?thesis
    using create_delete_handled [OF handled _ _ sends(3,4)] assms(3) by (simp add: nsWorker_def)
qed

theorem operator_creates_and_deletes_witness:
  "\<exists>tr (st :: memory operator). calmRun (clientAnswers memoryClient) exampleOwner (newOperator fmempty) tr st
     \<and> length (produced tr) = 7
     \<and> (\<exists>m. isOwnedByOperator m
          \<and> restrictTo ''shop'' (fmlookup (op_registry st)) = (restrictTo ''shop'' (fmlookup fmempty))(NamespaceAt ''shop'' \<mapsto> m))"
proof -
  obtain created w1 deleted w3 where
    ex: "run_state (serviceCreate exampleEnv exampleOptions (KService exampleService)) 0 = (created, w1)"
      "run_state (handleDelete exampleEnv exampleOptions exampleService) 0 = (deleted, w3)"
      "length (sent created) = 4" "length (sent deleted) = 3"
      "ev_Object ` set (sent created) = insert (NamespaceObject ''shop'') (ev_Object ` set (sent deleted))"
    using exampleLifecycle by (elim exE conjE) (rule that)
  have names: "svc_Namespace exampleService = ''shop''" "svc_Name exampleService = ''web''"
    by (simp_all add: exampleService_def)
  have sends: "sent created \<noteq> []" "sent deleted \<noteq> []" using ex(3,4) by auto
  obtain rc rd :: checkServiceResult where "sent created = createEvents exampleService (cs_endpoints rc)"
    "sent deleted = deleteEvents exampleService (cs_endpoints rd)" "endpointsOfService exampleService (cs_endpoints rc)"
    "set (cs_endpoints rd) = set (cs_endpoints rc)"
    using create_delete_sent [OF exampleEnv_laws ex(1) sends(1) ex(2) sends(2) ex(5) [folded names(1)]] by blast
  then have own: "getNamespaceNameFromEventObject e = ''shop''" if "e \<in> set (sent created @ sent deleted)" for e
    using that by (auto simp: createEvents_def deleteEvents_def endpointsOfService_def names
        getNamespaceNameFromEventObject_def)
  obtain tr and st :: "memory operator" where run: "calmRun (clientAnswers memoryClient) exampleOwner (newOperator fmempty) tr st"
    "\<not> d_mainDone (op_dispatcher st)" "atRest st" "produced tr = sent created @ sent deleted"
    using serve_events [where es = "sent created @ sent deleted" and ns = "''shop''" and c = memoryClient
        and md = exampleOwner and r = fmempty, OF own] by auto
  have "ofNamespace ''shop'' (sent created @ sent deleted) = sent created @ sent deleted"
    using own by (simp add: ofNamespace_def filter_id_conv)
  then have only: "ofNamespace (svc_Namespace exampleService) (produced tr) = sent created @ sent deleted"
    by (simp add: names run(4))
  have owner: "isOwnedByOperator exampleOwner" "svc_Namespace exampleService \<noteq> ''''"
    by (simp_all add: exampleOwner_def isOwnedByOperator_def names)
  have empty: "fmlookup fmempty (ServiceAt (svc_Namespace exampleService) (svc_Name exampleService)) = None"
    "childless (fmlookup fmempty) (ServiceAt (svc_Namespace exampleService) (svc_Name exampleService))"
    by (simp_all add: childless_def)
  have "length (produced tr) = 7" using ex(3,4) by (simp add: run(4))
  moreover note operator_creates_and_deletes [OF exampleEnv_laws reliable_wellAnswered [OF memoryClient_reliable] owner
      ex(1) sends(1) ex(2) sends(2) ex(5) [folded names(1)] empty run(1-3) only, unfolded names]
  ultimately show ?thesis using run(1) by blast
qed

end
